(* ===== verification/Prelude.thy ===== *)
theory Prelude
  imports
    Main
    "HOL-Library.Word"
    "HOL-Library.List_Lexorder"
    "HOL-Library.Char_ord"
    "HOL-Library.Finite_Map"
    "HOL-Library.Sublist"
begin

text \<open>
  Shared vocabulary of the RunnelDB development.

  Go strings and byte slices are both finite sequences of bytes. They are modelled by lists of
  \<^typ>\<open>char\<close>, which has exactly 256 values; the Go conversions \<open>[]byte(s)\<close> and \<open>string(b)\<close>
  are then the identity, and Go's byte-wise string comparison is the lexicographic order of
  \<open>List_Lexorder\<close> over \<open>Char_ord\<close>. Machine integers keep their width as words; a signed
  64-bit integer is a \<^typ>\<open>64 word\<close> read with \<^const>\<open>sint\<close>. Go maps are finite maps; the
  places where the code iterates over a map and sorts the keys use \<open>fmkeys\<close>.
  The theory holds the error values, the error monad, little-endian fields, slices and in-place
  writes, and two interfaces: codecs that return how much they consumed, and the
  simulation of one answering machine by another.
\<close>

type_synonym byte = char
type_synonym bytes = "char list"
type_synonym u16 = "16 word"
type_synonym u32 = "32 word"
type_synonym u64 = "64 word"
type_synonym i64 = "64 word"

named_theorems res_simps "rules for the error monad"
named_theorems slice_simps "rules for slices and in-place writes"
named_theorems le_simps "rules for little-endian fields"


section \<open>Error values\<close>

text \<open>
  The sentinel errors of the package, and four classes of failures that come from outside it:
  an error of the operating system, an error of the JSON decoder, an error of \<open>strconv\<close> or
  \<open>net/url\<close>, and a run-time panic (an index
  or a slice bound out of range), which the code does not recover from. An \<open>ErrSQL\<close> carries
  the fixed part of its message.
\<close>

datatype err =
    ErrClosed
  | ErrConflict
  | ErrReadOnly
  | ErrTxClosed
  | ErrWALVersion
  | ErrWALCorrupt
  | ErrWALMagic
  | ErrReservedKey
  | ErrSQL string
  | ErrRowTooLarge
  | ErrNotFound
  | ErrIO
  | ErrJSON
  | ErrParse
  | Panic

type_synonym 'a res = "err + 'a"

definition ebind :: "'e + 'a \<Rightarrow> ('a \<Rightarrow> 'e + 'b) \<Rightarrow> 'e + 'b" where
  "ebind m f = (case m of Inl e \<Rightarrow> Inl e | Inr x \<Rightarrow> f x)"

lemma ebind_Inl [simp, res_simps]: "ebind (Inl e) f = Inl e"
  by (simp add: ebind_def)

lemma ebind_Inr [simp, res_simps]: "ebind (Inr x) f = f x"
  by (simp add: ebind_def)

lemma ebind_eq_Inr [res_simps]: "ebind m f = Inr y \<longleftrightarrow> (\<exists>x. m = Inr x \<and> f x = Inr y)"
  by (cases m) (auto simp: ebind_def)

lemma ebind_eq_Inl [res_simps]:
  "ebind m f = Inl e \<longleftrightarrow> m = Inl e \<or> (\<exists>x. m = Inr x \<and> f x = Inl e)"
  by (cases m) (auto simp: ebind_def)

lemma ebind_cong [fundef_cong]:
  "m = m' \<Longrightarrow> (\<And>x. m' = Inr x \<Longrightarrow> f x = f' x) \<Longrightarrow> ebind m f = ebind m' f'"
  by (cases m') (auto simp: ebind_def)


section \<open>Slices and in-place writes\<close>

definition slice :: "nat \<Rightarrow> nat \<Rightarrow> 'a list \<Rightarrow> 'a list" where
  \<comment> \<open>\<open>buf[i:i+n]\<close>\<close>
  "slice i n buf = take n (drop i buf)"

definition put_at :: "nat \<Rightarrow> 'a list \<Rightarrow> 'a list \<Rightarrow> 'a list" where
  \<comment> \<open>\<open>copy(buf[i:], src)\<close> for a source that fits\<close>
  "put_at i src buf = take i buf @ src @ drop (i + length src) buf"

lemma length_put_at [simp, slice_simps]:
  "i + length src \<le> length buf \<Longrightarrow> length (put_at i src buf) = length buf"
  by (simp add: put_at_def)

lemma length_slice [slice_simps]: "i + n \<le> length buf \<Longrightarrow> length (slice i n buf) = n"
  by (simp add: slice_def)

lemma slice_put_at_same [slice_simps]:
  "i + length src \<le> length buf \<Longrightarrow> slice i (length src) (put_at i src buf) = src"
  by (simp add: slice_def put_at_def min_def)

lemma slice_put_at_below [slice_simps]:
  "i + n \<le> j \<Longrightarrow> j + length src \<le> length buf \<Longrightarrow> slice i n (put_at j src buf) = slice i n buf"
  by (simp add: slice_def put_at_def min_def take_drop)

lemma slice_put_at_above [slice_simps]:
  "j + length src \<le> i \<Longrightarrow> j + length src \<le> length buf \<Longrightarrow>
   slice i n (put_at j src buf) = slice i n buf"
  by (simp add: slice_def put_at_def min_def)

lemma slice_append1: "i + n \<le> length xs \<Longrightarrow> slice i n (xs @ ys) = slice i n xs"
  by (simp add: slice_def)

lemma slice_append2: "slice (length xs) n (xs @ ys) = take n ys"
  by (simp add: slice_def)

lemma slice_0 [simp]: "slice 0 n xs = take n xs"
  by (simp add: slice_def)


section \<open>Little-endian fields\<close>

fun le_put :: "nat \<Rightarrow> nat \<Rightarrow> bytes" where
  "le_put 0 v = []"
| "le_put (Suc n) v = char_of (v mod 256) # le_put n (v div 256)"

fun le_get :: "bytes \<Rightarrow> nat" where
  "le_get [] = 0"
| "le_get (b # bs) = of_char b + 256 * le_get bs"

definition putUint16 :: "u16 \<Rightarrow> bytes" where
  "putUint16 v = le_put 2 (unat v)"

definition putUint32 :: "u32 \<Rightarrow> bytes" where
  "putUint32 v = le_put 4 (unat v)"

definition putUint64 :: "u64 \<Rightarrow> bytes" where
  "putUint64 v = le_put 8 (unat v)"

definition uint16 :: "bytes \<Rightarrow> u16" where
  "uint16 b = of_nat (le_get b)"

definition uint32 :: "bytes \<Rightarrow> u32" where
  "uint32 b = of_nat (le_get b)"

definition uint64 :: "bytes \<Rightarrow> u64" where
  "uint64 b = of_nat (le_get b)"

lemma length_le_put [simp, le_simps]: "length (le_put n v) = n"
  by (induction n arbitrary: v) auto

lemma le_get_put: "le_get (le_put n v) = v mod 256 ^ n"
  by (induction n arbitrary: v) (simp_all add: of_char_of mod_mult2_eq)

lemma le_get_less: "le_get bs < 256 ^ length bs"
proof (induction bs)
  case (Cons b bs)
  have "of_char b + 256 * le_get bs < 256 + 256 * le_get bs" by simp
  also have "\<dots> \<le> 256 * 256 ^ length bs" using Cons by (simp flip: mult_Suc_right)
  finally show ?case by simp
qed simp

lemma le_put_get: "le_put (length bs) (le_get bs) = bs"
  by (induction bs) simp_all

lemma putUint32_get: "length bs = 4 \<Longrightarrow> putUint32 (uint32 bs) = bs"
  using le_get_less [of bs] le_put_get [of bs]
  by (simp add: putUint32_def uint32_def unat_of_nat)

lemma length_putUint16 [simp, le_simps]: "length (putUint16 v) = 2"
  by (simp add: putUint16_def)

lemma length_putUint32 [simp, le_simps]: "length (putUint32 v) = 4"
  by (simp add: putUint32_def)

lemma length_putUint64 [simp, le_simps]: "length (putUint64 v) = 8"
  by (simp add: putUint64_def)

lemma uint16_put [simp, le_simps]: "uint16 (putUint16 v) = v"
  using unsigned_less [where ?'a = nat, of v]
  by (simp add: uint16_def putUint16_def le_get_put)

lemma uint32_put [simp, le_simps]: "uint32 (putUint32 v) = v"
  using unsigned_less [where ?'a = nat, of v]
  by (simp add: uint32_def putUint32_def le_get_put)

lemma uint64_put [simp, le_simps]: "uint64 (putUint64 v) = v"
  using unsigned_less [where ?'a = nat, of v]
  by (simp add: uint64_def putUint64_def le_get_put)

lemma unat_of_nat16 [le_simps]: "n < 65536 \<Longrightarrow> unat (of_nat n :: u16) = n"
  by (simp add: unat_of_nat)

lemma unat_of_nat32 [le_simps]: "n < 4294967296 \<Longrightarrow> unat (of_nat n :: u32) = n"
  by (simp add: unat_of_nat)


section \<open>Go maps whose keys are sorted before use\<close>

definition fmkeys :: "('a::linorder, 'b) fmap \<Rightarrow> 'a list" where
  "fmkeys m = sorted_list_of_fset (fmdom m)"

lemma set_fmkeys [simp]: "set (fmkeys m) = fset (fmdom m)"
  by (simp add: fmkeys_def)

lemma sorted_fmkeys [simp]: "sorted (fmkeys m)"
  by (simp add: fmkeys_def sorted_list_of_fset.rep_eq)

lemma distinct_fmkeys [simp]: "distinct (fmkeys m)"
  by (simp add: fmkeys_def sorted_list_of_fset.rep_eq)

lemma fmkeys_empty_iff [simp]: "fmkeys m = [] \<longleftrightarrow> m = fmempty"
proof -
  have "fmkeys m = [] \<longleftrightarrow> fset (fmdom m) = {}"
    using set_fmkeys [of m] by (metis set_empty)
  also have "\<dots> \<longleftrightarrow> m = fmempty"
    by (metis bot_fset.rep_eq fmdom_empty fmrestrict_fset_dom fmrestrict_fset_null fset_inject)
  finally show ?thesis .
qed

lemma fmkeys_fmempty [simp]: "fmkeys fmempty = []"
  by simp

lemma fmdom_lookup: "k \<in> fset (fmdom m) \<longleftrightarrow> fmlookup m k \<noteq> None"
  by (simp add: fmdom.rep_eq dom_def)


section \<open>Sequences decoded one item after another\<close>

text \<open>
  Several decoders of the program read a number of items from a buffer, each of which reports how
  many bytes it used: \<open>v, used, err := decode(rest); rest = rest[used:]\<close>.
\<close>

fun dec_seq :: "(bytes \<Rightarrow> ('v \<times> nat) res) \<Rightarrow> nat \<Rightarrow> bytes \<Rightarrow> ('v list \<times> nat) res" where
  "dec_seq dec 0 data = Inr ([], 0)"
| "dec_seq dec (Suc n) data =
     ebind (dec data) (\<lambda>(v, used).
       if used \<le> length data then
         ebind (dec_seq dec n (drop used data)) (\<lambda>(vs, m). Inr (v # vs, used + m))
       else Inl Panic)"

locale prefix_codec =
  fixes enc :: "'v \<Rightarrow> bytes"
    and dec :: "bytes \<Rightarrow> ('v \<times> nat) res"
    and ok :: "'v \<Rightarrow> bool"
    and norm :: "'v \<Rightarrow> 'v"
  assumes dec_enc: "ok v \<Longrightarrow> dec (enc v @ rest) = Inr (norm v, length (enc v))"
begin

lemma dec_seq_enc:
  "list_all ok vs \<Longrightarrow>
   dec_seq dec (length vs) (concat (map enc vs) @ rest) =
     Inr (map norm vs, length (concat (map enc vs)))"
  by (induction vs) (auto simp: dec_enc)

lemma enc_prefix_free:
  "ok v \<Longrightarrow> ok w \<Longrightarrow> enc v @ xs = enc w @ ys \<Longrightarrow> norm v = norm w \<and> xs = ys"
  using dec_enc [of v xs] dec_enc [of w ys] by auto

end


section \<open>Machines that answer, and simulation\<close>

fun runMachine :: "('s \<Rightarrow> 'e \<Rightarrow> 's \<times> 'r) \<Rightarrow> 's \<Rightarrow> 'e list \<Rightarrow> 's \<times> 'r list" where
  "runMachine step s [] = (s, [])"
| "runMachine step s (e # es) =
     (case step s e of (s1, r) \<Rightarrow> (case runMachine step s1 es of (s2, rs) \<Rightarrow> (s2, r # rs)))"

text \<open>
  Forward simulation with a budget: the relation may hold for a bounded number of further steps only
  (a counter that must not overflow), and one step consumes one unit.
\<close>

locale simulation =
  fixes cstep :: "'s \<Rightarrow> 'e \<Rightarrow> 's \<times> 'r"
    and astep :: "'a \<Rightarrow> 'e \<Rightarrow> 'a \<times> 'r"
    and sim :: "nat \<Rightarrow> 's \<Rightarrow> 'a \<Rightarrow> bool"
  assumes sim_step: "sim (Suc n) s a \<Longrightarrow> \<exists>s' a' r. cstep s e = (s', r) \<and> astep a e = (a', r) \<and> sim n s' a'"
begin

lemma sim_run:
  "sim (n + length es) s a \<Longrightarrow>
   \<exists>s' a' rs. runMachine cstep s es = (s', rs) \<and> runMachine astep a es = (a', rs) \<and> sim n s' a'"
proof (induction es arbitrary: s a)
  case (Cons e es)
  from sim_step [of "n + length es" s a e] Cons.prems obtain s1 a1 r where
    "cstep s e = (s1, r)" "astep a e = (a1, r)" "sim (n + length es) s1 a1" by auto
  with Cons.IH [of s1 a1] show ?case by auto
qed simp

lemma same_answers:
  "sim (n + length es) s a \<Longrightarrow> snd (runMachine cstep s es) = snd (runMachine astep a es)"
  using sim_run [of n es s a] by auto

end

end
