(* ===== verification/Utf8.thy ===== *)
theory Utf8
  imports Prelude
begin

text \<open>
  Go's \<open>unicode/utf8\<close> as the lexer and the JSON codec use it: \<open>DecodeRuneInString\<close>,
  \<open>EncodeRune\<close> and \<open>ValidString\<close>. A rune is a natural number. A malformed sequence decodes to
  the replacement rune U+FFFD with width 1, the empty string to U+FFFD with width 0.
\<close>

abbreviation bval :: "char \<Rightarrow> nat" where
  "bval c \<equiv> of_char c"

abbreviation runeError :: nat where
  "runeError \<equiv> 65533"

definition in_range :: "nat \<Rightarrow> nat \<Rightarrow> char \<Rightarrow> bool" where
  "in_range lo hi c \<longleftrightarrow> lo \<le> bval c \<and> bval c \<le> hi"

abbreviation is_cont :: "char \<Rightarrow> bool" where
  "is_cont c \<equiv> in_range 128 191 c"

definition decode2 :: "nat \<Rightarrow> string \<Rightarrow> nat \<times> nat" where
  "decode2 b0 s =
     (case s of
        c1 # _ \<Rightarrow>
          if is_cont c1 then ((b0 - 192) * 64 + (bval c1 - 128), 2) else (runeError, 1)
      | [] \<Rightarrow> (runeError, 1))"

definition decode3 :: "nat \<Rightarrow> nat \<Rightarrow> nat \<Rightarrow> string \<Rightarrow> nat \<times> nat" where
  "decode3 b0 lo hi s =
     (case s of
        c1 # c2 # _ \<Rightarrow>
          if in_range lo hi c1 \<and> is_cont c2 then
            ((b0 - 224) * 4096 + (bval c1 - 128) * 64 + (bval c2 - 128), 3)
          else (runeError, 1)
      | _ \<Rightarrow> (runeError, 1))"

definition decode4 :: "nat \<Rightarrow> nat \<Rightarrow> nat \<Rightarrow> string \<Rightarrow> nat \<times> nat" where
  "decode4 b0 lo hi s =
     (case s of
        c1 # c2 # c3 # _ \<Rightarrow>
          if in_range lo hi c1 \<and> is_cont c2 \<and> is_cont c3 then
            ((b0 - 240) * 262144 + (bval c1 - 128) * 4096 + (bval c2 - 128) * 64
               + (bval c3 - 128), 4)
          else (runeError, 1)
      | _ \<Rightarrow> (runeError, 1))"

definition decodeRune :: "string \<Rightarrow> nat \<times> nat" where
  "decodeRune s =
     (case s of
        [] \<Rightarrow> (runeError, 0)
      | c0 # s1 \<Rightarrow>
          let b0 = bval c0 in
          if b0 < 128 then (b0, 1)
          else if 194 \<le> b0 \<and> b0 \<le> 223 then decode2 b0 s1
          else if b0 = 224 then decode3 b0 160 191 s1
          else if b0 = 237 then decode3 b0 128 159 s1
          else if 225 \<le> b0 \<and> b0 \<le> 239 then decode3 b0 128 191 s1
          else if b0 = 240 then decode4 b0 144 191 s1
          else if b0 = 244 then decode4 b0 128 143 s1
          else if 241 \<le> b0 \<and> b0 \<le> 243 then decode4 b0 128 191 s1
          else (runeError, 1))"

definition encodeRune :: "nat \<Rightarrow> string" where
  "encodeRune r =
     (if r < 128 then [char_of r]
      else if r < 2048 then [char_of (192 + r div 64), char_of (128 + r mod 64)]
      else if r > 1114111 \<or> (55296 \<le> r \<and> r \<le> 57343) then
        [char_of (239::nat), char_of (191::nat), char_of (189::nat)]
      else if r < 65536 then
        [char_of (224 + r div 4096), char_of (128 + r div 64 mod 64), char_of (128 + r mod 64)]
      else
        [char_of (240 + r div 262144), char_of (128 + r div 4096 mod 64),
         char_of (128 + r div 64 mod 64), char_of (128 + r mod 64)])"

definition badRune :: "string \<Rightarrow> bool" where
  "badRune s \<longleftrightarrow> decodeRune s = (runeError, 1)"

lemma decodeRune_width: "s \<noteq> [] \<Longrightarrow> 1 \<le> snd (decodeRune s)"
  by (auto simp: decodeRune_def decode2_def decode3_def decode4_def Let_def split: list.splits)

lemma decodeRune_width_pos [termination_simp]:
  "decodeRune s = (r, w) \<Longrightarrow> s \<noteq> [] \<Longrightarrow> 0 < w"
  using decodeRune_width [of s] by simp

lemma decodeRune_Cons_pos: "0 < snd (decodeRune (c # s))"
  using decodeRune_width [of "c # s"] by simp

lemma decodeRune_width_le: "snd (decodeRune s) \<le> length s"
  by (auto simp: decodeRune_def decode2_def decode3_def decode4_def Let_def split: list.splits)

function valid_utf8 :: "string \<Rightarrow> bool" where
  "valid_utf8 s =
     (if s = [] then True
      else if badRune s then False
      else valid_utf8 (drop (snd (decodeRune s)) s))"
  by pat_completeness auto
termination
proof (relation "measure length")
  fix s :: string
  assume "s \<noteq> []"
  then show "(drop (snd (decodeRune s)) s, s) \<in> measure length"
    using decodeRune_width [of s] by (cases s) simp_all
qed auto

declare valid_utf8.simps [simp del]

lemma valid_utf8_Nil [simp]: "valid_utf8 []"
  by (simp add: valid_utf8.simps)

lemma decodeRune_ascii: "bval c < 128 \<Longrightarrow> decodeRune (c # s) = (bval c, 1)"
  by (simp add: decodeRune_def)

lemma badRune_ascii: "bval c < 128 \<Longrightarrow> \<not> badRune (c # s)"
  by (simp add: badRune_def decodeRune_ascii)

lemma valid_utf8_ascii_Cons:
  "bval c < 128 \<Longrightarrow> valid_utf8 (c # s) = valid_utf8 s"
  using valid_utf8.simps [of "c # s"] by (simp add: badRune_ascii decodeRune_ascii)

lemma valid_utf8_ascii: "list_all (\<lambda>c. bval c < 128) s \<Longrightarrow> valid_utf8 s"
  by (induction s) (auto simp: valid_utf8_ascii_Cons)


section \<open>A well-formed sequence is the encoding of its rune\<close>

lemma decode2_ok:
  assumes "194 \<le> bval c0" "bval c0 \<le> 223" "decode2 (bval c0) s = (r, w)" "(r, w) \<noteq> (runeError, 1)"
  obtains c1 t where "s = c1 # t" "is_cont c1" "w = 2"
    "r = (bval c0 - 192) * 64 + (bval c1 - 128)"
  using assms by (auto simp: decode2_def split: list.splits if_splits)

lemma decode3_ok:
  assumes "decode3 (bval c0) lo hi s = (r, w)" "(r, w) \<noteq> (runeError, 1)"
  obtains c1 c2 t where "s = c1 # c2 # t" "in_range lo hi c1" "is_cont c2" "w = 3"
    "r = (bval c0 - 224) * 4096 + (bval c1 - 128) * 64 + (bval c2 - 128)"
  using assms by (auto simp: decode3_def split: list.splits if_splits)

lemma decode4_ok:
  assumes "decode4 (bval c0) lo hi s = (r, w)" "(r, w) \<noteq> (runeError, 1)"
  obtains c1 c2 c3 t where "s = c1 # c2 # c3 # t" "in_range lo hi c1" "is_cont c2" "is_cont c3"
    "w = 4"
    "r = (bval c0 - 240) * 262144 + (bval c1 - 128) * 4096 + (bval c2 - 128) * 64
           + (bval c3 - 128)"
  using assms by (auto simp: decode4_def split: list.splits if_splits)

lemma char_of_bval: "bval c = n \<Longrightarrow> char_of n = c"
  by auto

lemma digits3:
  assumes "(b::nat) < 64" "c < 64"
  shows "(a * 4096 + b * 64 + c) div 4096 = a" "(a * 4096 + b * 64 + c) div 64 mod 64 = b"
    "(a * 4096 + b * 64 + c) mod 64 = c"
proof -
  have eq: "a * 4096 + b * 64 + c = c + (b + a * 64) * 64" by simp
  have "(c + (b + a * 64) * 64) div 64 = b + a * 64" using assms by simp
  then have d: "(a * 4096 + b * 64 + c) div 64 = b + a * 64" by (simp only: eq)
  show "(a * 4096 + b * 64 + c) div 64 mod 64 = b" unfolding d using assms by simp
  have "(a * 4096 + b * 64 + c) div 4096 = (a * 4096 + b * 64 + c) div 64 div 64"
    by (simp flip: div_mult2_eq)
  also have "\<dots> = a" unfolding d using assms by simp
  finally show "(a * 4096 + b * 64 + c) div 4096 = a" .
  have "(c + (b + a * 64) * 64) mod 64 = c mod 64" by (rule mod_mult_self1)
  then have "(c + (b + a * 64) * 64) mod 64 = c" using assms by simp
  then show "(a * 4096 + b * 64 + c) mod 64 = c" by (simp only: eq)
qed

lemma digits4:
  assumes "(b::nat) < 64" "c < 64" "d < 64"
  shows "(a * 262144 + b * 4096 + c * 64 + d) div 262144 = a"
    "(a * 262144 + b * 4096 + c * 64 + d) div 4096 mod 64 = b"
    "(a * 262144 + b * 4096 + c * 64 + d) div 64 mod 64 = c"
    "(a * 262144 + b * 4096 + c * 64 + d) mod 64 = d"
proof -
  have eq: "a * 262144 + b * 4096 + c * 64 + d = (a * 64 + b) * 4096 + c * 64 + d" by simp
  note D = digits3 [OF assms(2,3), of "a * 64 + b"]
  show "(a * 262144 + b * 4096 + c * 64 + d) div 4096 mod 64 = b"
    "(a * 262144 + b * 4096 + c * 64 + d) div 64 mod 64 = c"
    "(a * 262144 + b * 4096 + c * 64 + d) mod 64 = d"
    unfolding eq D using assms by simp_all
  have "(a * 262144 + b * 4096 + c * 64 + d) div 262144
      = (a * 262144 + b * 4096 + c * 64 + d) div 4096 div 64"
    by (simp flip: div_mult2_eq)
  also have "\<dots> = a" unfolding eq D using assms by simp
  finally show "(a * 262144 + b * 4096 + c * 64 + d) div 262144 = a" .
qed

lemma encode2:
  assumes "194 \<le> bval c0" "bval c0 \<le> 223" "is_cont c1"
  shows "encodeRune ((bval c0 - 192) * 64 + (bval c1 - 128)) = [c0, c1]"
proof -
  define a where "a = bval c0 - 192"
  define b where "b = bval c1 - 128"
  have a: "bval c0 = 192 + a" "2 \<le> a" "a \<le> 31" using assms by (auto simp: a_def)
  have b: "bval c1 = 128 + b" "b < 64" using assms by (auto simp: b_def in_range_def)
  have "char_of (192 + a) = c0" "char_of (128 + b) = c1"
    using a(1) b(1) by (metis char_of_bval)+
  with a(2,3) b(2) show ?thesis
    by (simp add: encodeRune_def flip: a_def b_def)
qed

lemma encode3:
  assumes "224 \<le> bval c0" "bval c0 \<le> 239" "is_cont c1" "is_cont c2"
    and "bval c0 = 224 \<Longrightarrow> 160 \<le> bval c1" and "bval c0 = 237 \<Longrightarrow> bval c1 \<le> 159"
  shows "encodeRune ((bval c0 - 224) * 4096 + (bval c1 - 128) * 64 + (bval c2 - 128)) = [c0, c1, c2]"
proof -
  define a where "a = bval c0 - 224"
  define b where "b = bval c1 - 128"
  define c where "c = bval c2 - 128"
  define r where "r = a * 4096 + b * 64 + c"
  have a: "bval c0 = 224 + a" "a \<le> 15" using assms by (auto simp: a_def)
  have b: "bval c1 = 128 + b" "b < 64" using assms by (auto simp: b_def in_range_def)
  have c: "bval c2 = 128 + c" "c < 64" using assms by (auto simp: c_def in_range_def)
  have edge: "a = 0 \<Longrightarrow> 32 \<le> b" "a = 13 \<Longrightarrow> b \<le> 31" using assms(5,6) a b by auto
  have ch: "char_of (224 + a) = c0" "char_of (128 + b) = c1" "char_of (128 + c) = c2"
    using a(1) b(1) c(1) by (metis char_of_bval)+
  have r1: "r div 4096 = a" "r div 64 mod 64 = b" "r mod 64 = c"
    unfolding r_def by (rule digits3 [OF b(2) c(2)])+
  have r2: "2048 \<le> r" using edge(1) by (cases "a = 0") (auto simp: r_def)
  have r3: "r < 65536" using a(2) b(2) c(2) by (simp add: r_def)
  have r4: "\<not> (55296 \<le> r \<and> r \<le> 57343)"
  proof (cases "a = 13")
    case True
    with edge(2) c(2) show ?thesis by (simp add: r_def)
  next
    case False
    then have "a \<le> 12 \<or> 14 \<le> a" by arith
    with b(2) c(2) show ?thesis by (auto simp: r_def)
  qed
  have "encodeRune r = [c0, c1, c2]"
    using r2 r3 r4 by (auto simp: encodeRune_def r1 ch)
  then show ?thesis by (simp add: r_def flip: a_def b_def c_def)
qed

lemma encode4:
  assumes "240 \<le> bval c0" "bval c0 \<le> 244" "is_cont c1" "is_cont c2" "is_cont c3"
    and "bval c0 = 240 \<Longrightarrow> 144 \<le> bval c1" and "bval c0 = 244 \<Longrightarrow> bval c1 \<le> 143"
  shows "encodeRune ((bval c0 - 240) * 262144 + (bval c1 - 128) * 4096 + (bval c2 - 128) * 64
           + (bval c3 - 128)) = [c0, c1, c2, c3]"
proof -
  define a where "a = bval c0 - 240"
  define b where "b = bval c1 - 128"
  define c where "c = bval c2 - 128"
  define d where "d = bval c3 - 128"
  define r where "r = a * 262144 + b * 4096 + c * 64 + d"
  have a: "bval c0 = 240 + a" "a \<le> 4" using assms by (auto simp: a_def)
  have b: "bval c1 = 128 + b" "b < 64" using assms by (auto simp: b_def in_range_def)
  have c: "bval c2 = 128 + c" "c < 64" using assms by (auto simp: c_def in_range_def)
  have d: "bval c3 = 128 + d" "d < 64" using assms by (auto simp: d_def in_range_def)
  have edge: "a = 0 \<Longrightarrow> 16 \<le> b" "a = 4 \<Longrightarrow> b \<le> 15" using assms(6,7) a b by auto
  have ch: "char_of (240 + a) = c0" "char_of (128 + b) = c1" "char_of (128 + c) = c2"
    "char_of (128 + d) = c3"
    using a(1) b(1) c(1) d(1) by (metis char_of_bval)+
  have r1: "r div 262144 = a" "r div 4096 mod 64 = b" "r div 64 mod 64 = c" "r mod 64 = d"
    unfolding r_def by (rule digits4 [OF b(2) c(2) d(2)])+
  have r2: "65536 \<le> r" using edge(1) by (cases "a = 0") (auto simp: r_def)
  have r3: "r \<le> 1114111"
  proof (cases "a = 4")
    case True
    with edge(2) c(2) d(2) show ?thesis by (simp add: r_def)
  next
    case False
    with a(2) have "a \<le> 3" by simp
    with b(2) c(2) d(2) show ?thesis by (simp add: r_def)
  qed
  have "encodeRune r = [c0, c1, c2, c3]"
    using r2 r3 by (auto simp: encodeRune_def r1 ch)
  then show ?thesis by (simp add: r_def flip: a_def b_def c_def d_def)
qed

lemma decodeRune_cases:
  obtains
    (ascii) "bval c0 < 128"
  | (two) "194 \<le> bval c0" "bval c0 \<le> 223" "\<And>t. decodeRune (c0 # t) = decode2 (bval c0) t"
  | (three) lo hi where "224 \<le> bval c0" "bval c0 \<le> 239"
      "\<And>t. decodeRune (c0 # t) = decode3 (bval c0) lo hi t"
      "128 \<le> lo" "hi \<le> 191" "bval c0 = 224 \<Longrightarrow> lo = 160" "bval c0 = 237 \<Longrightarrow> hi = 159"
  | (four) lo hi where "240 \<le> bval c0" "bval c0 \<le> 244"
      "\<And>t. decodeRune (c0 # t) = decode4 (bval c0) lo hi t"
      "128 \<le> lo" "hi \<le> 191" "bval c0 = 240 \<Longrightarrow> lo = 144" "bval c0 = 244 \<Longrightarrow> hi = 143"
  | (bad) "\<And>t. badRune (c0 # t)"
proof -
  consider "bval c0 < 128" | "194 \<le> bval c0 \<and> bval c0 \<le> 223" | "bval c0 = 224" | "bval c0 = 237"
    | "225 \<le> bval c0 \<and> bval c0 \<le> 239 \<and> bval c0 \<noteq> 237" | "bval c0 = 240" | "bval c0 = 244"
    | "241 \<le> bval c0 \<and> bval c0 \<le> 243" | "(128 \<le> bval c0 \<and> bval c0 \<le> 193) \<or> 245 \<le> bval c0"
    by linarith
  then show thesis
  proof cases
    case 1 then show ?thesis by (rule ascii)
  next
    case 2 then show ?thesis by (intro two) (simp_all add: decodeRune_def)
  next
    case 3 then show ?thesis by (intro three [of 160 191]) (simp_all add: decodeRune_def)
  next
    case 4 then show ?thesis by (intro three [of 128 159]) (simp_all add: decodeRune_def)
  next
    case 5 then show ?thesis by (intro three [of 128 191]) (simp_all add: decodeRune_def)
  next
    case 6 then show ?thesis by (intro four [of 144 191]) (simp_all add: decodeRune_def)
  next
    case 7 then show ?thesis by (intro four [of 128 143]) (simp_all add: decodeRune_def)
  next
    case 8 then show ?thesis by (intro four [of 128 191]) (simp_all add: decodeRune_def)
  next
    case 9 then show ?thesis by (intro bad) (auto simp: decodeRune_def badRune_def)
  qed
qed

text \<open>
  What a well-formed sequence is: it encodes its rune, and decoding it does not look beyond it.
\<close>

lemma encode_decodeRune:
  assumes "s \<noteq> []" "\<not> badRune s"
  shows "encodeRune (fst (decodeRune s)) = take (snd (decodeRune s)) s
    \<and> decodeRune (take (snd (decodeRune s)) s @ rest) = decodeRune s"
proof -
  obtain c0 t where s: "s = c0 # t" using assms(1) by (cases s) auto
  obtain r w where d: "decodeRune s = (r, w)" by force
  have good: "(r, w) \<noteq> (runeError, 1)" using assms(2) d by (simp add: badRune_def)
  show ?thesis
  proof (cases c0 rule: decodeRune_cases)
    case ascii
    then show ?thesis by (simp add: s decodeRune_ascii encodeRune_def)
  next
    case two
    from decode2_ok [OF two(1,2) _ good, of t] obtain c1 t' where t: "t = c1 # t'" "is_cont c1" and
      w: "w = 2" and r: "r = (bval c0 - 192) * 64 + (bval c1 - 128)"
      using d two(3) s by metis
    with encode2 [OF two(1,2) t(2)] two(3) show ?thesis by (simp add: s d decode2_def)
  next
    case (three lo hi)
    from decode3_ok [OF _ good, of c0 lo hi t] obtain c1 c2 t' where t: "t = c1 # c2 # t'" and
      c: "in_range lo hi c1" "is_cont c2" and w: "w = 3" and
      r: "r = (bval c0 - 224) * 4096 + (bval c1 - 128) * 64 + (bval c2 - 128)"
      using d three(3) s by metis
    have "is_cont c1" "bval c0 = 224 \<Longrightarrow> 160 \<le> bval c1" "bval c0 = 237 \<Longrightarrow> bval c1 \<le> 159"
      using c(1) three(4-7) by (auto simp: in_range_def)
    from encode3 [OF three(1,2) this(1) c(2) this(2,3)] show ?thesis
      using three(3) c by (simp add: s t d w r decode3_def)
  next
    case (four lo hi)
    from decode4_ok [OF _ good, of c0 lo hi t] obtain c1 c2 c3 t' where t: "t = c1 # c2 # c3 # t'"
      and c: "in_range lo hi c1" "is_cont c2" "is_cont c3" and w: "w = 4" and
      r: "r = (bval c0 - 240) * 262144 + (bval c1 - 128) * 4096 + (bval c2 - 128) * 64
           + (bval c3 - 128)"
      using d four(3) s by metis
    have "is_cont c1" "bval c0 = 240 \<Longrightarrow> 144 \<le> bval c1" "bval c0 = 244 \<Longrightarrow> bval c1 \<le> 143"
      using c(1) four(4-7) by (auto simp: in_range_def)
    from encode4 [OF four(1,2) this(1) c(2,3) this(2,3)] show ?thesis
      using four(3) c by (simp add: s t d w r decode4_def)
  next
    case bad
    with assms(2) show ?thesis by (simp add: s)
  qed
qed

lemmas encode_of_decodeRune = encode_decodeRune [THEN conjunct1]
lemmas decodeRune_local = encode_decodeRune [THEN conjunct2]

end
