(* ===== verification/Strconv.thy ===== *)
theory Strconv
  imports Prelude
begin

text \<open>
  Decimal integers as Go's \<open>strconv\<close> prints and reads them: \<open>FormatInt\<close>, \<open>FormatUint\<close>,
  \<open>ParseInt\<close> and \<open>ParseUint\<close> with base 10. Parsing is partial: \<open>None\<close> stands for the syntax and
  the range error. The lemmas show that printing and reading are inverse at 64 bits, and that a
  printed number consists of digits after an optional sign.
\<close>

definition is_digit :: "char \<Rightarrow> bool" where
  "is_digit c \<longleftrightarrow> 48 \<le> (of_char c :: nat) \<and> (of_char c :: nat) \<le> 57"

definition digit_char :: "nat \<Rightarrow> char" where
  "digit_char d = char_of (48 + d)"

definition digit_val :: "char \<Rightarrow> nat" where
  "digit_val c = of_char c - 48"

fun formatNat :: "nat \<Rightarrow> string" where
  "formatNat n =
     (if n < 10 then [digit_char n] else formatNat (n div 10) @ [digit_char (n mod 10)])"

declare formatNat.simps [simp del]

fun parseDigits :: "nat \<Rightarrow> string \<Rightarrow> nat option" where
  "parseDigits acc [] = Some acc"
| "parseDigits acc (c # cs) =
     (if is_digit c then parseDigits (acc * 10 + digit_val c) cs else None)"

definition parseUint :: "nat \<Rightarrow> string \<Rightarrow> nat option" where
  \<comment> \<open>\<open>strconv.ParseUint(s, 10, bits)\<close>\<close>
  "parseUint bits s =
     (if s = [] then None
      else case parseDigits 0 s of
             None \<Rightarrow> None
           | Some n \<Rightarrow> if int n < 2 ^ bits then Some n else None)"

definition formatInt :: "i64 \<Rightarrow> string" where
  "formatInt v =
     (if sint v < 0 then CHR ''-'' # formatNat (nat (- sint v)) else formatNat (nat (sint v)))"

definition parseInt :: "string \<Rightarrow> i64 option" where
  \<comment> \<open>\<open>strconv.ParseInt(s, 10, 64)\<close>\<close>
  "parseInt s =
     (case s of
        [] \<Rightarrow> None
      | c # cs \<Rightarrow>
          let neg = (c = CHR ''-'');
              body = (if c = CHR ''-'' \<or> c = CHR ''+'' then cs else s)
          in case parseUint 64 body of
               None \<Rightarrow> None
             | Some un \<Rightarrow>
                 if \<not> neg \<and> 2 ^ 63 \<le> int un then None
                 else if neg \<and> 2 ^ 63 < int un then None
                 else if neg then Some (word_of_int (- int un))
                 else Some (word_of_int (int un)))"


section \<open>Printing and reading are inverse\<close>

lemma of_digit_char [simp]: "d < 10 \<Longrightarrow> (of_char (digit_char d) :: nat) = 48 + d"
  by (simp add: digit_char_def of_char_of)

lemma digit_char_props [simp]:
  "d < 10 \<Longrightarrow> is_digit (digit_char d)" "d < 10 \<Longrightarrow> digit_val (digit_char d) = d"
  by (simp_all add: is_digit_def digit_val_def)

lemma parseDigits_append:
  "parseDigits acc (xs @ ys) = Option.bind (parseDigits acc xs) (\<lambda>a. parseDigits a ys)"
  by (induction acc xs rule: parseDigits.induct) auto

lemma formatNat_digits: "list_all is_digit (formatNat n)"
  by (induction n rule: formatNat.induct) (subst formatNat.simps, auto)

lemma formatNat_nonempty [simp]: "formatNat n \<noteq> []"
  by (subst formatNat.simps) simp

lemma parse_formatNat: "parseDigits 0 (formatNat n) = Some n"
proof (induction n rule: formatNat.induct)
  case (1 n)
  show ?case
  proof (cases "n < 10")
    case True
    then show ?thesis by (subst formatNat.simps) simp
  next
    case False
    then show ?thesis
      using 1 by (subst formatNat.simps) (simp add: parseDigits_append)
  qed
qed

lemma parseUint_format: "n < 2 ^ bits \<Longrightarrow> parseUint bits (formatNat n) = Some n"
  by (simp add: parseUint_def parse_formatNat)

lemma formatNat_inj: "formatNat m = formatNat n \<longleftrightarrow> m = n"
  by (metis option.inject parse_formatNat)

lemma digit_not_sign: "is_digit c \<Longrightarrow> c \<noteq> CHR ''-'' \<and> c \<noteq> CHR ''+''"
  by (auto simp: is_digit_def)

lemma sint_range64: "- (2 ^ 63) \<le> sint (v :: i64)" "sint (v :: i64) < 2 ^ 63"
  using sint_greater_eq [of v] sint_less [of v] by simp_all

theorem parseInt_formatInt: "parseInt (formatInt v) = Some v"
proof (cases "sint v < 0")
  case True
  let ?n = "nat (- sint v)"
  have "?n \<le> 2 ^ 63" using sint_range64 [of v] by simp
  then show ?thesis
    using True by (simp add: parseInt_def formatInt_def parseUint_format Let_def)
next
  case False
  let ?n = "nat (sint v)"
  obtain c cs where f: "formatNat ?n = c # cs" by (meson formatNat_nonempty neq_Nil_conv)
  then have "is_digit c" using formatNat_digits [of ?n] by simp
  then have c: "c \<noteq> CHR ''-'' \<and> c \<noteq> CHR ''+''" by (rule digit_not_sign)
  have n: "?n < 2 ^ 63" using sint_range64 [of v] by simp
  then have "parseUint 64 (c # cs) = Some ?n" using parseUint_format [of ?n 64] f by simp
  then show ?thesis
    using False c n f by (simp add: parseInt_def formatInt_def Let_def)
qed

lemma formatInt_inj: "formatInt v = formatInt w \<longleftrightarrow> v = w"
  by (metis option.inject parseInt_formatInt)

lemma formatInt_chars: "c \<in> set (formatInt v) \<Longrightarrow> is_digit c \<or> c = CHR ''-''"
  using formatNat_digits by (auto simp: formatInt_def list_all_iff split: if_splits)

lemma formatInt_nonempty [simp]: "formatInt v \<noteq> []"
  by (simp add: formatInt_def)

end
