(* ===== verification/Json.thy ===== *)
theory Json
  imports Utf8 Strconv
begin

text \<open>
  JSON text as Go's \<open>encoding/json\<close> writes and reads it. \<open>json_print\<close> is \<open>Marshal\<close> on a tree of
  JSON values (compact, HTML-safe escapes, malformed UTF-8 replaced by U+FFFD); \<open>json_parse\<close> is the
  reading half of \<open>Unmarshal\<close>, which wants one value and nothing but white space around it;
  \<open>json_first\<close> is a single \<open>Decoder.Decode\<close>, which stops after the first value. A number keeps
  its literal. The reader is written with fuel; \<open>json_parse_print\<close> shows that the fuel it is given
  is enough for every printed value.
\<close>

datatype json =
    JNull
  | JBool bool
  | JNum string
  | JStr string
  | JArr "json list"
  | JObj "(string \<times> json) list"

abbreviation dquote :: char where "dquote \<equiv> CHR 0x22"
abbreviation backslash :: char where "backslash \<equiv> CHR 0x5C"


section \<open>Writing\<close>

definition hexdig :: "nat \<Rightarrow> char" where
  "hexdig d = (if d < 10 then char_of (48 + d) else char_of (87 + d))"

definition esc_ascii :: "char \<Rightarrow> string" where
  "esc_ascii c =
     (if c = backslash \<or> c = dquote then [backslash, c]
      else if bval c = 8 then [backslash, CHR ''b'']
      else if bval c = 12 then [backslash, CHR ''f'']
      else if bval c = 10 then [backslash, CHR ''n'']
      else if bval c = 13 then [backslash, CHR ''r'']
      else if bval c = 9 then [backslash, CHR ''t'']
      else if bval c < 32 \<or> c = CHR ''<'' \<or> c = CHR ''>'' \<or> c = CHR ''&'' then
        [backslash, CHR ''u'', CHR ''0'', CHR ''0'', hexdig (bval c div 16), hexdig (bval c mod 16)]
      else [c])"

function json_escape :: "string \<Rightarrow> string" where
  "json_escape s =
     (if s = [] then []
      else
        (if bval (hd s) < 128 then esc_ascii (hd s)
         else if badRune s then [backslash, CHR ''u'', CHR ''f'', CHR ''f'', CHR ''f'', CHR ''d'']
         else if fst (decodeRune s) = 8232 \<or> fst (decodeRune s) = 8233 then
           [backslash, CHR ''u'', CHR ''2'', CHR ''0'', CHR ''2'', hexdig (fst (decodeRune s) mod 16)]
         else take (snd (decodeRune s)) s)
        @ json_escape (drop (snd (decodeRune s)) s))"
  by pat_completeness auto
termination
proof (relation "measure length")
  fix s :: string
  assume "s \<noteq> []"
  then show "(drop (snd (decodeRune s)) s, s) \<in> measure length"
    using decodeRune_width [of s] by (cases s) simp_all
qed auto

declare json_escape.simps [simp del]

definition json_quote :: "string \<Rightarrow> string" where
  "json_quote s = dquote # json_escape s @ [dquote]"

fun jjoin :: "string list \<Rightarrow> string" where
  "jjoin [] = []"
| "jjoin [x] = x"
| "jjoin (x # y # ys) = x @ CHR '','' # jjoin (y # ys)"

fun json_print :: "json \<Rightarrow> string" where
  "json_print JNull = ''null''"
| "json_print (JBool b) = (if b then ''true'' else ''false'')"
| "json_print (JNum l) = l"
| "json_print (JStr s) = json_quote s"
| "json_print (JArr vs) = CHR ''['' # jjoin (map json_print vs) @ '']''"
| "json_print (JObj ms) =
     CHR ''{'' # jjoin (map (\<lambda>(k, v). json_quote k @ CHR '':'' # json_print v) ms) @ ''}''"


section \<open>Reading\<close>

definition is_ws :: "char \<Rightarrow> bool" where
  "is_ws c \<longleftrightarrow> bval c = 32 \<or> bval c = 9 \<or> bval c = 13 \<or> bval c = 10"

abbreviation skip_ws :: "string \<Rightarrow> string" where
  "skip_ws s \<equiv> dropWhile is_ws s"

definition hexval :: "char \<Rightarrow> nat option" where
  "hexval c =
     (if 48 \<le> bval c \<and> bval c \<le> 57 then Some (bval c - 48)
      else if 97 \<le> bval c \<and> bval c \<le> 102 then Some (bval c - 87)
      else if 65 \<le> bval c \<and> bval c \<le> 70 then Some (bval c - 55)
      else None)"

fun getu4 :: "string \<Rightarrow> (nat \<times> string) option" where
  "getu4 (a # b # c # d # s) =
     (case (hexval a, hexval b, hexval c, hexval d) of
        (Some w, Some x, Some y, Some z) \<Rightarrow> Some (w * 4096 + x * 256 + y * 16 + z, s)
      | _ \<Rightarrow> None)"
| "getu4 _ = None"

definition simple_escape :: "char \<Rightarrow> char option" where
  "simple_escape e =
     (if e = dquote \<or> e = backslash \<or> e = CHR ''/'' then Some e
      else if e = CHR ''b'' then Some (char_of (8::nat))
      else if e = CHR ''f'' then Some (char_of (12::nat))
      else if e = CHR ''n'' then Some (char_of (10::nat))
      else if e = CHR ''r'' then Some (char_of (13::nat))
      else if e = CHR ''t'' then Some (char_of (9::nat))
      else None)"

definition low_surrogate :: "nat \<Rightarrow> string \<Rightarrow> (nat \<times> string) option" where
  \<comment> \<open>a following \<open>\uXXXX\<close> that completes the surrogate \<open>r\<close>\<close>
  "low_surrogate r s =
     (case s of
        c # u # t \<Rightarrow>
          if c = backslash \<and> u = CHR ''u'' then
            (case getu4 t of
               Some (r2, t') \<Rightarrow>
                 if 55296 \<le> r \<and> r < 56320 \<and> 56320 \<le> r2 \<and> r2 < 57344 then
                   Some ((r - 55296) * 1024 + (r2 - 56320) + 65536, t')
                 else None
             | None \<Rightarrow> None)
          else None
      | _ \<Rightarrow> None)"

definition prepend :: "string \<Rightarrow> (string \<times> string) option \<Rightarrow> (string \<times> string) option" where
  "prepend x m = map_option (\<lambda>(y, r). (x @ y, r)) m"

lemma getu4_length: "getu4 s = Some (r, t) \<Longrightarrow> length t < length s"
  by (induction s rule: getu4.induct) (auto split: option.splits)

lemma low_surrogate_length: "low_surrogate r s = Some (r', t) \<Longrightarrow> length t < length s"
  by (auto simp: low_surrogate_def dest: getu4_length split: list.splits option.splits if_splits)

function json_unescape :: "string \<Rightarrow> (string \<times> string) option" where
  \<comment> \<open>the body of a string literal and what follows its closing quote\<close>
  "json_unescape s =
     (case s of
        [] \<Rightarrow> None
      | c # cs \<Rightarrow>
          if c = dquote then Some ([], cs)
          else if bval c < 32 then None
          else if c = backslash then
            (case cs of
               [] \<Rightarrow> None
             | e # es \<Rightarrow>
                 if e = CHR ''u'' then
                   (case getu4 es of
                      None \<Rightarrow> None
                    | Some (r, es') \<Rightarrow>
                        if 55296 \<le> r \<and> r \<le> 57343 then
                          (case low_surrogate r es' of
                             Some (r', es'') \<Rightarrow> prepend (encodeRune r') (json_unescape es'')
                           | None \<Rightarrow> prepend (encodeRune runeError) (json_unescape es'))
                        else prepend (encodeRune r) (json_unescape es'))
                 else
                   (case simple_escape e of
                      None \<Rightarrow> None
                    | Some x \<Rightarrow> prepend [x] (json_unescape es)))
          else if bval c < 128 then prepend [c] (json_unescape cs)
          else prepend (encodeRune (fst (decodeRune s))) (json_unescape (drop (snd (decodeRune s)) s)))"
  by pat_completeness auto
termination
  by (relation "measure length")
    (auto dest!: getu4_length low_surrogate_length intro!: diff_less simp: decodeRune_Cons_pos)

declare json_unescape.simps [simp del]

definition scan_frac :: "string \<Rightarrow> (string \<times> string) option" where
  "scan_frac s =
     (case s of
        c # t \<Rightarrow>
          if c = CHR ''.'' then
            (if takeWhile is_digit t = [] then None
             else Some (c # takeWhile is_digit t, dropWhile is_digit t))
          else Some ([], s)
      | [] \<Rightarrow> Some ([], s))"

definition scan_exp :: "string \<Rightarrow> (string \<times> string) option" where
  "scan_exp s =
     (case s of
        c # t \<Rightarrow>
          if c = CHR ''e'' \<or> c = CHR ''E'' then
            (let (sg, t') = (case t of
                               x # xs \<Rightarrow> if x = CHR ''+'' \<or> x = CHR ''-'' then ([x], xs) else ([], t)
                             | [] \<Rightarrow> ([], t))
             in if takeWhile is_digit t' = [] then None
                else Some (c # sg @ takeWhile is_digit t', dropWhile is_digit t'))
          else Some ([], s)
      | [] \<Rightarrow> Some ([], s))"

definition scan_int :: "string \<Rightarrow> (string \<times> string) option" where
  "scan_int s =
     (case s of
        d # ds \<Rightarrow>
          if d = CHR ''0'' then Some ([d], ds)
          else if is_digit d then Some (takeWhile is_digit s, dropWhile is_digit s)
          else None
      | [] \<Rightarrow> None)"

definition scan_number :: "string \<Rightarrow> (string \<times> string) option" where
  "scan_number s =
     (let (sg, s1) = (case s of c # cs \<Rightarrow> if c = CHR ''-'' then ([c], cs) else ([], s) | [] \<Rightarrow> ([], s))
      in case scan_int s1 of
           None \<Rightarrow> None
         | Some (ip, s2) \<Rightarrow>
             (case scan_frac s2 of
                None \<Rightarrow> None
              | Some (fp, s3) \<Rightarrow>
                  (case scan_exp s3 of
                     None \<Rightarrow> None
                   | Some (ep, s4) \<Rightarrow> Some (sg @ ip @ fp @ ep, s4))))"

definition maxNestingDepth :: nat where
  "maxNestingDepth = 10000"

fun pvalue :: "nat \<Rightarrow> nat \<Rightarrow> string \<Rightarrow> (json \<times> string) option"
and parr :: "nat \<Rightarrow> nat \<Rightarrow> string \<Rightarrow> (json list \<times> string) option"
and pobj :: "nat \<Rightarrow> nat \<Rightarrow> string \<Rightarrow> ((string \<times> json) list \<times> string) option" where
  "pvalue 0 d s = None"
| "pvalue (Suc n) d s =
     (case skip_ws s of
        [] \<Rightarrow> None
      | c # cs \<Rightarrow>
          if c = CHR ''{'' then
            (if maxNestingDepth < Suc d then None
             else case skip_ws cs of
                    [] \<Rightarrow> None
                  | c2 # cs2 \<Rightarrow>
                      if c2 = CHR ''}'' then Some (JObj [], cs2)
                      else map_option (\<lambda>(ms, r). (JObj ms, r)) (pobj n (Suc d) (c2 # cs2)))
          else if c = CHR ''['' then
            (if maxNestingDepth < Suc d then None
             else case skip_ws cs of
                    [] \<Rightarrow> None
                  | c2 # cs2 \<Rightarrow>
                      if c2 = CHR '']'' then Some (JArr [], cs2)
                      else map_option (\<lambda>(vs, r). (JArr vs, r)) (parr n (Suc d) (c2 # cs2)))
          else if c = dquote then map_option (\<lambda>(x, r). (JStr x, r)) (json_unescape cs)
          else if prefix ''null'' (c # cs) then Some (JNull, drop 4 (c # cs))
          else if prefix ''true'' (c # cs) then Some (JBool True, drop 4 (c # cs))
          else if prefix ''false'' (c # cs) then Some (JBool False, drop 5 (c # cs))
          else map_option (\<lambda>(x, r). (JNum x, r)) (scan_number (c # cs)))"
| "parr 0 d s = None"
| "parr (Suc n) d s =
     (case pvalue n d s of
        None \<Rightarrow> None
      | Some (v, r) \<Rightarrow>
          (case skip_ws r of
             [] \<Rightarrow> None
           | c # cs \<Rightarrow>
               if c = CHR '']'' then Some ([v], cs)
               else if c = CHR '','' then map_option (\<lambda>(vs, r'). (v # vs, r')) (parr n d cs)
               else None))"
| "pobj 0 d s = None"
| "pobj (Suc n) d s =
     (case skip_ws s of
        [] \<Rightarrow> None
      | q # qs \<Rightarrow>
          if q \<noteq> dquote then None
          else
            (case json_unescape qs of
               None \<Rightarrow> None
             | Some (k, r) \<Rightarrow>
                 (case skip_ws r of
                    [] \<Rightarrow> None
                  | co # r1 \<Rightarrow>
                      if co \<noteq> CHR '':'' then None
                      else
                        (case pvalue n d r1 of
                           None \<Rightarrow> None
                         | Some (v, r2) \<Rightarrow>
                             (case skip_ws r2 of
                                [] \<Rightarrow> None
                              | c # cs \<Rightarrow>
                                  if c = CHR ''}'' then Some ([(k, v)], cs)
                                  else if c = CHR '','' then
                                    map_option (\<lambda>(ms, r'). ((k, v) # ms, r')) (pobj n d cs)
                                  else None)))))"

definition json_first :: "string \<Rightarrow> (json \<times> string) option" where
  "json_first s = pvalue (2 * length s + 2) 0 s"

definition json_parse :: "string \<Rightarrow> json option" where
  "json_parse s =
     (case json_first s of
        Some (v, r) \<Rightarrow> if skip_ws r = [] then Some v else None
      | None \<Rightarrow> None)"


section \<open>Reading inverts writing\<close>

lemma bval_hexdig: "d < 16 \<Longrightarrow> bval (hexdig d) = (if d < 10 then 48 + d else 87 + d)"
  by (simp add: hexdig_def of_char_of)

lemma hexval_hexdig [simp]: "d < 16 \<Longrightarrow> hexval (hexdig d) = Some d"
  by (simp add: hexval_def bval_hexdig)

lemma hexval_digits [simp]: "hexval (CHR ''0'') = Some 0" "hexval (CHR ''2'') = Some 2"
  by (simp_all add: hexval_def)

lemma prepend_simps [simp]:
  "prepend x None = None" "prepend x (Some (y, r)) = Some (x @ y, r)"
  by (simp_all add: prepend_def)

lemma unescape_u4:
  assumes "a < 16" "b < 16" "c < 16" "d < 16" and r: "r = a * 4096 + b * 256 + c * 16 + d"
    and "\<not> (55296 \<le> r \<and> r \<le> 57343)"
  shows "json_unescape (backslash # CHR ''u'' # hexdig a # hexdig b # hexdig c # hexdig d # t)
    = prepend (encodeRune r) (json_unescape t)"
  using assms by (subst json_unescape.simps) auto

lemma hexdig_0: "hexdig 0 = CHR ''0''" "hexdig 2 = CHR ''2''"
  by (simp_all add: hexdig_def, (rule char_of_bval, simp)+)

text \<open>The shapes of the escape sequence of an ASCII byte.\<close>

lemma esc_ascii_cases:
  obtains (quote) "c = backslash \<or> c = dquote"
    | (short) e x where "esc_ascii c = [backslash, e]" "simple_escape e = Some (char_of x)" "bval c = x"
        "e \<noteq> CHR ''u''"
    | (hex) "esc_ascii c = [backslash, CHR ''u'', CHR ''0'', CHR ''0'', hexdig (bval c div 16),
         hexdig (bval c mod 16)]"
    | (plain) "esc_ascii c = [c]" "c \<noteq> dquote" "c \<noteq> backslash" "\<not> bval c < 32"
proof -
  consider "c = backslash \<or> c = dquote" | "bval c = 8" | "bval c = 12" | "bval c = 10"
    | "bval c = 13" | "bval c = 9"
    | "c \<noteq> backslash" "c \<noteq> dquote" "bval c \<noteq> 8" "bval c \<noteq> 12" "bval c \<noteq> 10" "bval c \<noteq> 13"
      "bval c \<noteq> 9"
    by blast
  then show thesis
  proof cases
    case 1 then show ?thesis by (rule quote)
  next
    case 2 then show ?thesis
      by (intro short [of "CHR ''b''" 8]) (auto simp: esc_ascii_def simple_escape_def)
  next
    case 3 then show ?thesis
      by (intro short [of "CHR ''f''" 12]) (auto simp: esc_ascii_def simple_escape_def)
  next
    case 4 then show ?thesis
      by (intro short [of "CHR ''n''" 10]) (auto simp: esc_ascii_def simple_escape_def)
  next
    case 5 then show ?thesis
      by (intro short [of "CHR ''r''" 13]) (auto simp: esc_ascii_def simple_escape_def)
  next
    case 6 then show ?thesis
      by (intro short [of "CHR ''t''" 9]) (auto simp: esc_ascii_def simple_escape_def)
  next
    case 7
    show ?thesis
    proof (cases "bval c < 32 \<or> c = CHR ''<'' \<or> c = CHR ''>'' \<or> c = CHR ''&''")
      case True
      with 7 show ?thesis by (intro hex) (simp add: esc_ascii_def)
    next
      case False
      with 7 show ?thesis by (intro plain) (simp_all add: esc_ascii_def)
    qed
  qed
qed

lemma unescape_esc_ascii:
  assumes "bval c < 128"
  shows "json_unescape (esc_ascii c @ t) = prepend [c] (json_unescape t)"
proof -
  have simple: "json_unescape (backslash # e # t) = prepend [x] (json_unescape t)"
    if "simple_escape e = Some x" "e \<noteq> CHR ''u''" for e x
    using that by (subst json_unescape.simps) simp
  show ?thesis
  proof (cases rule: esc_ascii_cases [of c])
    case quote
    then show ?thesis using simple [of c c] by (auto simp: esc_ascii_def simple_escape_def)
  next
    case (short e x)
    then show ?thesis using simple [of e c] char_of_bval [of c x] by simp
  next
    case hex
    have "json_unescape (backslash # CHR ''u'' # hexdig 0 # hexdig 0 # hexdig (bval c div 16)
        # hexdig (bval c mod 16) # t) = prepend (encodeRune (bval c)) (json_unescape t)"
      using assms by (intro unescape_u4) auto
    with hex assms show ?thesis by (simp add: hexdig_0 encodeRune_def)
  next
    case plain
    then show ?thesis using assms by (subst json_unescape.simps) simp
  qed
qed

lemma unescape_rune:
  assumes "s \<noteq> []" "\<not> badRune s" "\<not> bval (hd s) < 128"
  shows "json_unescape (take (snd (decodeRune s)) s @ t)
    = prepend (take (snd (decodeRune s)) s) (json_unescape t)"
proof -
  let ?w = "snd (decodeRune s)"
  have w: "1 \<le> ?w" "?w \<le> length s"
    using assms(1) decodeRune_width decodeRune_width_le by auto
  obtain c cs where s: "s = c # cs" using assms(1) by (cases s) auto
  obtain cs' where tk: "take ?w s = c # cs'" using w(1) s by (cases ?w) auto
  have c: "c \<noteq> dquote" "c \<noteq> backslash" "\<not> bval c < 32" "\<not> bval c < 128"
    using assms(3) s by auto
  have loc: "decodeRune (c # cs' @ t) = decodeRune s"
    using decodeRune_local [OF assms(1,2), of t] tk by simp
  have dr: "drop ?w (c # cs' @ t) = t"
    using tk w(2) by (metis append_Cons append_eq_conv_conj length_take min.absorb2)
  have "json_unescape (c # cs' @ t) = prepend (encodeRune (fst (decodeRune s))) (json_unescape t)"
    using c by (subst json_unescape.simps) (simp add: loc dr)
  then show ?thesis
    using encode_of_decodeRune [OF assms(1,2)] tk by simp
qed

lemma unescape_2028:
  assumes "s \<noteq> []" "\<not> badRune s" "fst (decodeRune s) = 8232 \<or> fst (decodeRune s) = 8233"
  shows "json_unescape (backslash # CHR ''u'' # CHR ''2'' # CHR ''0'' # CHR ''2''
      # hexdig (fst (decodeRune s) mod 16) # t)
    = prepend (take (snd (decodeRune s)) s) (json_unescape t)"
proof -
  have "json_unescape (backslash # CHR ''u'' # hexdig 2 # hexdig 0 # hexdig 2
      # hexdig (fst (decodeRune s) mod 16) # t)
    = prepend (encodeRune (fst (decodeRune s))) (json_unescape t)"
    using assms(3) by (intro unescape_u4) auto
  then show ?thesis
    using encode_of_decodeRune [OF assms(1,2)] by (simp add: hexdig_0)
qed

lemma unescape_escape:
  "valid_utf8 s \<Longrightarrow> json_unescape (json_escape s @ dquote # rest) = Some (s, rest)"
proof (induction s rule: json_escape.induct)
  case (1 s)
  show ?case
  proof (cases "s = []")
    case True
    then show ?thesis by (simp add: json_escape.simps json_unescape.simps [of "dquote # rest"])
  next
    case False
    let ?w = "snd (decodeRune s)"
    have good: "\<not> badRune s" "valid_utf8 (drop ?w s)"
      using "1.prems" False valid_utf8.simps [of s] by (auto split: if_splits)
    with 1 False have IH: "json_unescape (json_escape (drop ?w s) @ dquote # rest)
        = Some (drop ?w s, rest)"
      by simp
    obtain c cs where s: "s = c # cs" using False by (cases s) auto
    have "json_unescape (json_escape s @ dquote # rest)
        = prepend (take ?w s) (json_unescape (json_escape (drop ?w s) @ dquote # rest))"
      using False good(1) unescape_esc_ascii [of c] unescape_rune [OF False] unescape_2028 [OF False]
      by (subst json_escape.simps) (auto simp: s decodeRune_ascii)
    with IH show ?thesis by simp
  qed
qed

definition int_lit :: "string \<Rightarrow> bool" where
  "int_lit l \<longleftrightarrow> l \<noteq> [] \<and> list_all is_digit l \<and> (hd l = CHR ''0'' \<longrightarrow> l = ''0'')"

definition num_end :: "string \<Rightarrow> bool" where
  "num_end r \<longleftrightarrow>
     (case r of [] \<Rightarrow> True
      | c # _ \<Rightarrow> \<not> is_digit c \<and> c \<noteq> CHR ''.'' \<and> c \<noteq> CHR ''e'' \<and> c \<noteq> CHR ''E'')"

lemma scan_number_int_lit:
  assumes "int_lit l" "num_end r"
  shows "scan_number (l @ r) = Some (l, r)"
proof -
  obtain c cs where l: "l = c # cs" using assms(1) by (cases l) (auto simp: int_lit_def)
  have dig: "is_digit c" "list_all is_digit cs" using assms(1) l by (auto simp: int_lit_def)
  have c: "c \<noteq> CHR ''-''" using dig(1) digit_not_sign by blast
  have tw: "takeWhile is_digit (l @ r) = l" "dropWhile is_digit (l @ r) = r"
    using assms by (auto simp: int_lit_def num_end_def list_all_iff takeWhile_append2
      dropWhile_append2 split: list.splits)
  have "scan_int (l @ r) = Some (l, r)"
    using assms(1) tw dig by (auto simp: scan_int_def l int_lit_def)
  moreover have "scan_frac r = Some ([], r)" "scan_exp r = Some ([], r)"
    using assms(2) by (auto simp: scan_frac_def scan_exp_def num_end_def split: list.splits)
  ultimately show ?thesis using c by (simp add: scan_number_def l)
qed

lemma formatNat_int_lit: "int_lit (formatNat n)"
proof -
  have "hd (formatNat n) = CHR ''0'' \<longrightarrow> formatNat n = ''0''"
  proof (induction n rule: formatNat.induct)
    case (1 n)
    show ?case
    proof (cases "n < 10")
      case True
      then show ?thesis
        by (subst (1 2) formatNat.simps) (simp add: digit_char_def)
    next
      case False
      have "hd (formatNat n) = hd (formatNat (n div 10))"
        using False by (subst formatNat.simps) simp
      moreover have "formatNat (n div 10) \<noteq> ''0''"
        using False formatNat_inj [of "n div 10" 0] char_of_bval [of "CHR ''0''" 48]
        by (simp add: formatNat.simps [of 0] digit_char_def)
      ultimately show ?thesis using 1 False by auto
    qed
  qed
  then show ?thesis by (simp add: int_lit_def formatNat_digits)
qed

definition num_lit :: "string \<Rightarrow> bool" where
  "num_lit l \<longleftrightarrow> int_lit (if hd l = CHR ''-'' then tl l else l)"

lemma num_lit_start:
  assumes "num_lit l"
  obtains c cs where "l = c # cs" "is_digit c \<or> c = CHR ''-''"
  using assms by (cases l) (auto simp: num_lit_def int_lit_def split: if_splits)

lemma scan_number_num_lit:
  assumes "num_lit l" "num_end r"
  shows "scan_number (l @ r) = Some (l, r)"
proof (cases "hd l = CHR ''-''")
  case True
  then obtain m where l: "l = CHR ''-'' # m" using assms(1) by (cases l) (auto simp: num_lit_def int_lit_def)
  then have m: "int_lit m" using assms(1) by (simp add: num_lit_def)
  then obtain c cs where "m = c # cs" "c \<noteq> CHR ''-''"
    by (cases m) (auto simp: int_lit_def dest: digit_not_sign)
  have "scan_number (m @ r) = Some (m, r)" using scan_number_int_lit [OF m assms(2)] .
  then show ?thesis
    using \<open>m = c # cs\<close> \<open>c \<noteq> CHR ''-''\<close> l by (auto simp: scan_number_def split: option.splits)
next
  case False
  then show ?thesis using scan_number_int_lit [of l r] assms by (simp add: num_lit_def)
qed

lemma int_lit_num_lit: "int_lit l \<Longrightarrow> num_lit l"
  by (cases l) (auto simp: num_lit_def int_lit_def is_digit_def)

lemma formatInt_num_lit: "num_lit (formatInt i)"
proof (cases "sint i < 0")
  case True
  then show ?thesis using formatNat_int_lit by (simp add: formatInt_def num_lit_def)
next
  case False
  then show ?thesis using int_lit_num_lit [OF formatNat_int_lit] by (simp add: formatInt_def)
qed

text \<open>
  The trees that survive printing: strings and keys are well-formed UTF-8, numbers are decimal
  integers, the nesting stays within the reader's limit.
\<close>

fun json_ok :: "nat \<Rightarrow> json \<Rightarrow> bool" where
  "json_ok d (JNum l) \<longleftrightarrow> num_lit l"
| "json_ok d (JStr s) \<longleftrightarrow> valid_utf8 s"
| "json_ok d (JArr vs) \<longleftrightarrow> d < maxNestingDepth \<and> list_all (json_ok (Suc d)) vs"
| "json_ok d (JObj ms) \<longleftrightarrow>
     d < maxNestingDepth \<and> list_all (\<lambda>(k, v). valid_utf8 k \<and> json_ok (Suc d) v) ms"
| "json_ok d v \<longleftrightarrow> True"

definition value_start :: "char \<Rightarrow> bool" where
  "value_start c \<longleftrightarrow> \<not> is_ws c \<and> c \<noteq> CHR '']'' \<and> c \<noteq> CHR ''}''"

lemma digit_value_start: "is_digit c \<Longrightarrow> value_start c"
  by (auto simp: is_digit_def value_start_def is_ws_def)

lemma json_print_start: "json_ok d v \<Longrightarrow> \<exists>c cs. json_print v = c # cs \<and> value_start c"
proof (cases v)
  case (JNum l)
  assume "json_ok d v"
  with JNum obtain c cs where "l = c # cs" "is_digit c \<or> c = CHR ''-''"
    by (auto elim: num_lit_start)
  with JNum show ?thesis by (auto simp: is_digit_def value_start_def is_ws_def)
qed (auto simp: value_start_def is_ws_def json_quote_def)

lemma skip_ws_print: "json_ok d v \<Longrightarrow> skip_ws (json_print v @ r) = json_print v @ r"
  using json_print_start [of d v] by (auto simp: value_start_def)

lemma not_keyword_digit:
  "is_digit c \<or> c = CHR ''-'' \<Longrightarrow> \<not> prefix ''null'' (c # s) \<and> \<not> prefix ''true'' (c # s) \<and> \<not> prefix ''false'' (c # s)"
  by (auto simp: is_digit_def)

lemma parr_print:
  assumes "vs \<noteq> []" "list_all (json_ok d) vs"
    and IH: "\<And>v n r. v \<in> set vs \<Longrightarrow> num_end r \<Longrightarrow> 2 * length (json_print v) \<le> n \<Longrightarrow>
      pvalue n d (json_print v @ r) = Some (v, r)"
    and "2 * length (jjoin (map json_print vs)) < n"
  shows "parr n d (jjoin (map json_print vs) @ CHR '']'' # r) = Some (vs, r)"
  using assms
proof (induction vs arbitrary: n)
  case Nil
  then show ?case by simp
next
  case (Cons v vs)
  then obtain m where n: "n = Suc m" by (cases n) auto
  show ?case
  proof (cases vs)
    case Nil
    then have "pvalue m d (json_print v @ CHR '']'' # r) = Some (v, CHR '']'' # r)"
      using Cons.prems(4) n by (intro Cons.prems(3)) (auto simp: num_end_def is_digit_def)
    then show ?thesis using Nil n by (simp add: is_ws_def)
  next
    case (Cons w ws)
    let ?rest = "jjoin (map json_print vs) @ CHR '']'' # r"
    have "pvalue m d (json_print v @ CHR '','' # ?rest) = Some (v, CHR '','' # ?rest)"
      using Cons.prems(4) n Cons by (intro Cons.prems(3)) (auto simp: num_end_def is_digit_def)
    moreover have "parr m d ?rest = Some (vs, r)"
      using Cons.prems(2-4) n Cons by (intro Cons.IH) auto
    ultimately show ?thesis using Cons n by (simp add: is_ws_def)
  qed
qed

abbreviation member_print :: "string \<times> json \<Rightarrow> string" where
  "member_print \<equiv> \<lambda>(k, v). json_quote k @ CHR '':'' # json_print v"

lemma pobj_print:
  assumes "ms \<noteq> []" "list_all (\<lambda>(k, v). valid_utf8 k \<and> json_ok d v) ms"
    and IH: "\<And>k v n r. (k, v) \<in> set ms \<Longrightarrow> num_end r \<Longrightarrow> 2 * length (json_print v) \<le> n \<Longrightarrow>
      pvalue n d (json_print v @ r) = Some (v, r)"
    and "2 * length (jjoin (map member_print ms)) < n"
  shows "pobj n d (jjoin (map member_print ms) @ CHR ''}'' # r) = Some (ms, r)"
  using assms
proof (induction ms arbitrary: n)
  case Nil
  then show ?case by simp
next
  case (Cons kv ms)
  obtain k v where kv: "kv = (k, v)" by force
  obtain m where n: "n = Suc m" using Cons.prems(4) by (cases n) auto
  have k: "valid_utf8 k" using Cons.prems(2) kv by simp
  have ws: "\<not> is_ws dquote" "\<not> is_ws (CHR '':'')" "\<not> is_ws (CHR '','')" "\<not> is_ws (CHR ''}'')"
    by (simp_all add: is_ws_def)
  show ?case
  proof (cases ms)
    case Nil
    then have "pvalue m d (json_print v @ CHR ''}'' # r) = Some (v, CHR ''}'' # r)"
      using Cons.prems(4) n kv by (intro Cons.prems(3)) (auto simp: num_end_def is_digit_def)
    then show ?thesis
      using Nil n ws unescape_escape [OF k] by (simp add: kv json_quote_def)
  next
    case (Cons w ws')
    let ?rest = "jjoin (map member_print ms) @ CHR ''}'' # r"
    have "pvalue m d (json_print v @ CHR '','' # ?rest) = Some (v, CHR '','' # ?rest)"
      using Cons.prems(4) n kv Cons by (intro Cons.prems(3)) (auto simp: num_end_def is_digit_def)
    moreover have "pobj m d ?rest = Some (ms, r)"
      using Cons.prems(2-4) n kv Cons by (intro Cons.IH) auto
    ultimately show ?thesis
      using Cons n ws unescape_escape [OF k] by (simp add: kv json_quote_def)
  qed
qed

lemma jjoin_start:
  "xs \<noteq> [] \<Longrightarrow> hd xs = c # cs \<Longrightarrow> \<exists>ds. jjoin xs = c # ds"
  by (cases xs rule: jjoin.cases) auto

lemma pvalue_JArr:
  assumes "vs \<noteq> []" "list_all (json_ok (Suc d)) vs" "d < maxNestingDepth"
    and "parr n (Suc d) (jjoin (map json_print vs) @ CHR '']'' # r) = Some (vs, r)"
  shows "pvalue (Suc n) d (json_print (JArr vs) @ r) = Some (JArr vs, r)"
proof -
  obtain v vs' where vs: "vs = v # vs'" using assms(1) by (cases vs) auto
  obtain c cs where v: "json_print v = c # cs" "value_start c"
    using json_print_start [of "Suc d" v] assms(2) vs by auto
  obtain ds where j: "jjoin (map json_print vs) = c # ds"
    using jjoin_start [of "map json_print vs" c cs] v vs by auto
  show ?thesis using assms(3,4) j v(2) by (simp add: is_ws_def value_start_def)
qed

lemma pvalue_JObj:
  assumes "ms \<noteq> []" "d < maxNestingDepth"
    and "pobj n (Suc d) (jjoin (map member_print ms) @ CHR ''}'' # r) = Some (ms, r)"
  shows "pvalue (Suc n) d (json_print (JObj ms) @ r) = Some (JObj ms, r)"
proof -
  obtain k v ms' where ms: "ms = (k, v) # ms'" using assms(1) by (cases ms) auto
  obtain ds where j: "jjoin (map member_print ms) = dquote # ds"
    using jjoin_start [of "map member_print ms" dquote] ms by (auto simp: json_quote_def)
  show ?thesis using assms(2,3) j by (simp add: is_ws_def)
qed

lemma pvalue_print:
  "json_ok d v \<Longrightarrow> num_end r \<Longrightarrow> 2 * length (json_print v) \<le> n \<Longrightarrow>
   pvalue n d (json_print v @ r) = Some (v, r)"
proof (induction v arbitrary: d n r)
  case JNull
  then obtain m where "n = Suc m" by (cases n) auto
  then show ?case by (simp add: is_ws_def)
next
  case (JBool b)
  then obtain m where "n = Suc m" by (cases n) (auto split: if_splits)
  then show ?case by (simp add: is_ws_def)
next
  case (JNum l)
  then obtain c cs where l: "l = c # cs" "is_digit c \<or> c = CHR ''-''"
    by (auto elim: num_lit_start)
  from JNum l obtain m where n: "n = Suc m" by (cases n) auto
  have c: "\<not> is_ws c" "c \<noteq> CHR ''{''" "c \<noteq> CHR ''[''" "c \<noteq> dquote"
    using l(2) by (auto simp: is_digit_def is_ws_def)
  have "scan_number (c # cs @ r) = Some (l, r)"
    using scan_number_num_lit [of l r] JNum l by simp
  then show ?case using n c not_keyword_digit [OF l(2)] by (simp add: l(1))
next
  case (JStr s)
  then obtain m where "n = Suc m" by (cases n) (auto simp: json_quote_def)
  then show ?case using unescape_escape [of s r] JStr by (simp add: json_quote_def is_ws_def)
next
  case (JArr vs)
  then obtain m where n: "n = Suc m" by (cases n) auto
  show ?case
  proof (cases "vs = []")
    case True
    then show ?thesis using n JArr.prems by (simp add: is_ws_def)
  next
    case False
    have ok: "list_all (json_ok (Suc d)) vs" "d < maxNestingDepth" using JArr.prems by auto
    have "parr m (Suc d) (jjoin (map json_print vs) @ CHR '']'' # r) = Some (vs, r)"
      using JArr.prems n by (intro parr_print [OF False ok(1)] JArr.IH) (auto simp: list_all_iff)
    then show ?thesis unfolding n using ok False by (intro pvalue_JArr) auto
  qed
next
  case (JObj ms)
  then obtain m where n: "n = Suc m" by (cases n) auto
  show ?case
  proof (cases "ms = []")
    case True
    then show ?thesis using n JObj.prems by (simp add: is_ws_def)
  next
    case False
    have ok: "list_all (\<lambda>(k, v). valid_utf8 k \<and> json_ok (Suc d) v) ms" "d < maxNestingDepth"
      using JObj.prems by auto
    have "pobj m (Suc d) (jjoin (map member_print ms) @ CHR ''}'' # r) = Some (ms, r)"
      using JObj.prems n by (intro pobj_print [OF False ok(1)] JObj.IH) (auto simp: list_all_iff)
    then show ?thesis unfolding n using ok False by (intro pvalue_JObj) auto
  qed
qed

lemma json_parse_print: "json_ok 0 v \<Longrightarrow> json_parse (json_print v) = Some v"
  using pvalue_print [of 0 v "[]" "2 * length (json_print v) + 2"]
  by (simp add: json_parse_def json_first_def num_end_def del: pvalue.simps)

lemma json_print_nonempty [simp]: "json_ok d v \<Longrightarrow> json_print v \<noteq> []"
  using json_print_start by fastforce

end
