(* ===== verification/Checksum.thy ===== *)
theory Checksum
  imports Prelude
begin

unbundle bit_operations_syntax

text \<open>
  Two codecs of the standard library that the write-ahead log rests on: the IEEE CRC-32 of
  \<open>hash/crc32\<close> and the padded base64 of \<open>encoding/base64\<close>, in which \<open>encoding/json\<close> writes byte
  slices. The lemmas show that the CRC tells apart any two payloads that differ in one byte, and
  that base64 decoding inverts encoding.
\<close>


section \<open>CRC-32\<close>

definition crc_bit :: "u32 \<Rightarrow> u32" where
  "crc_bit c = (if bit c 0 then drop_bit 1 c XOR 0xEDB88320 else drop_bit 1 c)"

definition crc_byte :: "u32 \<Rightarrow> byte \<Rightarrow> u32" where
  "crc_byte c b = (crc_bit ^^ 8) (c XOR of_nat (of_char b))"

definition crc32 :: "bytes \<Rightarrow> u32" where
  "crc32 data = NOT (foldl crc_byte (NOT 0) data)"

lemma bit31_crc_bit: "bit (crc_bit c) 31 = bit c 0"
proof -
  have "\<not> bit (drop_bit 1 c) 31" using bit_imp_le_length [of c 32] by (auto simp: bit_drop_bit_eq)
  moreover have "bit (0xEDB88320 :: u32) 31" by simp
  ultimately show ?thesis by (auto simp: crc_bit_def bit_xor_iff)
qed

lemma drop_bit_of_crc_bit:
  "drop_bit 1 c = (if bit c 0 then crc_bit c XOR 0xEDB88320 else crc_bit c)"
  by (simp add: crc_bit_def xor.assoc)

lemma inj_crc_bit: "inj crc_bit"
proof (rule injI)
  fix c d :: u32
  assume eq: "crc_bit c = crc_bit d"
  then have b0: "bit c 0 = bit d 0" by (simp only: bit31_crc_bit flip: bit31_crc_bit)
  have "drop_bit 1 c = drop_bit 1 d" using eq b0 by (simp only: drop_bit_of_crc_bit)
  then have bS: "bit c (Suc n) = bit d (Suc n)" for n
    by (drule_tac arg_cong [where f = "\<lambda>x. bit x n"]) (simp add: bit_drop_bit_eq)
  show "c = d"
  proof (rule bit_eqI)
    fix n
    show "bit c n = bit d n" by (cases n) (simp_all add: b0 bS)
  qed
qed

lemma crc_byte_eq:
  "crc_byte c a = crc_byte d b \<longleftrightarrow> c XOR of_nat (of_char a) = d XOR of_nat (of_char b)"
  unfolding crc_byte_def by (rule inj_eq [OF inj_fn [OF inj_crc_bit]])

lemma xor_cancel_right: "c XOR k = d XOR k \<Longrightarrow> c = (d :: u32)"
  by (drule arg_cong [where f = "\<lambda>x. x XOR k"]) (simp add: xor.assoc)

lemma inj_crc_byte: "crc_byte c b = crc_byte d b \<Longrightarrow> c = d"
  unfolding crc_byte_eq by (rule xor_cancel_right)

lemma crc_byte_inj_byte: "crc_byte c a = crc_byte c b \<Longrightarrow> a = b"
proof -
  assume "crc_byte c a = crc_byte c b"
  then have "of_nat (of_char a) XOR c = of_nat (of_char b) XOR c"
    unfolding crc_byte_eq by (simp only: xor.commute)
  then have "of_nat (of_char a) = (of_nat (of_char b) :: u32)" by (rule xor_cancel_right)
  then have "unat (of_nat (of_char a) :: u32) = unat (of_nat (of_char b) :: u32)"
    by (simp only:)
  moreover have "(of_char c :: nat) < 4294967296" for c
    using nat_of_char_less_256 [of c] by (rule less_trans) simp
  ultimately have "(of_char a :: nat) = of_char b" by (simp only: unat_of_nat32)
  then show "a = b" by simp
qed

lemma foldl_crc_inj: "foldl crc_byte c xs = foldl crc_byte d xs \<Longrightarrow> c = d"
  by (induction xs arbitrary: c d) (auto dest: inj_crc_byte)

lemma crc32_single_byte:
  assumes "a \<noteq> b"
  shows "crc32 (xs @ a # ys) \<noteq> crc32 (xs @ b # ys)"
proof
  assume "crc32 (xs @ a # ys) = crc32 (xs @ b # ys)"
  then have "crc_byte (foldl crc_byte (NOT 0) xs) a = crc_byte (foldl crc_byte (NOT 0) xs) b"
    by (auto simp: crc32_def dest!: foldl_crc_inj)
  then show False using assms by (auto dest: crc_byte_inj_byte)
qed


section \<open>Base64\<close>

definition b64char :: "nat \<Rightarrow> char" where
  "b64char n =
     (if n < 26 then char_of (65 + n)
      else if n < 52 then char_of (71 + n)
      else if n < 62 then char_of (n - 4)
      else if n = 62 then CHR ''+''
      else CHR ''/'')"

definition b64val :: "char \<Rightarrow> nat option" where
  "b64val c =
     (let b = of_char c in
      if 65 \<le> b \<and> b \<le> (90::nat) then Some (b - 65)
      else if 97 \<le> b \<and> b \<le> 122 then Some (b - 71)
      else if 48 \<le> b \<and> b \<le> 57 then Some (b + 4)
      else if c = CHR ''+'' then Some 62
      else if c = CHR ''/'' then Some 63
      else None)"

abbreviation bv :: "char \<Rightarrow> nat" where "bv c \<equiv> of_char c"

fun b64enc :: "bytes \<Rightarrow> string" where
  "b64enc [] = []"
| "b64enc [a] = [b64char (bv a div 4), b64char (bv a mod 4 * 16), CHR ''='', CHR ''='']"
| "b64enc [a, b] =
     [b64char (bv a div 4), b64char (bv a mod 4 * 16 + bv b div 16), b64char (bv b mod 16 * 4),
      CHR ''='']"
| "b64enc (a # b # c # r) =
     b64char (bv a div 4) # b64char (bv a mod 4 * 16 + bv b div 16)
     # b64char (bv b mod 16 * 4 + bv c div 64) # b64char (bv c mod 64) # b64enc r"

fun b64quads :: "string \<Rightarrow> bytes option" where
  "b64quads [] = Some []"
| "b64quads (w # x # y # z # r) =
     (case (b64val w, b64val x) of
        (Some p, Some q) \<Rightarrow>
          if y = CHR ''='' then
            (if z = CHR ''='' \<and> r = [] then Some [char_of (p * 4 + q div 16)] else None)
          else
            (case b64val y of
               None \<Rightarrow> None
             | Some s \<Rightarrow>
                 if z = CHR ''='' then
                   (if r = [] then Some [char_of (p * 4 + q div 16), char_of (q mod 16 * 16 + s div 4)]
                    else None)
                 else
                   (case (b64val z, b64quads r) of
                      (Some t, Some bs) \<Rightarrow>
                        Some (char_of (p * 4 + q div 16) # char_of (q mod 16 * 16 + s div 4)
                              # char_of (s mod 4 * 64 + t) # bs)
                    | _ \<Rightarrow> None))
      | _ \<Rightarrow> None)"
| "b64quads _ = None"

definition b64dec :: "string \<Rightarrow> bytes option" where
  \<comment> \<open>the decoder skips line ends\<close>
  "b64dec s = b64quads (filter (\<lambda>c. bv c \<noteq> 10 \<and> bv c \<noteq> 13) s)"

lemma bv_b64char:
  "n < 64 \<Longrightarrow> bv (b64char n) =
     (if n < 26 then 65 + n else if n < 52 then 71 + n else if n < 62 then n - 4
      else if n = 62 then 43 else 47)"
  by (auto simp: b64char_def of_char_of)

lemma b64val_char [simp]: "n < 64 \<Longrightarrow> b64val (b64char n) = Some n"
proof -
  assume n: "n < 64"
  then consider "n < 26" | "26 \<le> n" "n < 52" | "52 \<le> n" "n < 62" | "n = 62" | "n = 63"
    by linarith
  then show ?thesis
  proof cases
    case 1 then show ?thesis using n by (simp add: b64val_def bv_b64char)
  next
    case 2 then show ?thesis using n by (simp add: b64val_def bv_b64char)
  next
    case 3
    then have "bv (b64char n) = n - 4" "48 \<le> n - 4" "n - 4 \<le> 57" "n - 4 + 4 = n"
      by (simp_all add: bv_b64char)
    then show ?thesis by (simp add: b64val_def)
  next
    case 4 then show ?thesis by (simp add: b64val_def b64char_def)
  next
    case 5 then show ?thesis by (simp add: b64val_def b64char_def)
  qed
qed

lemma b64char_plain [simp]:
  "n < 64 \<Longrightarrow> b64char n \<noteq> CHR ''=''" "n < 64 \<Longrightarrow> bv (b64char n) \<noteq> 10" "n < 64 \<Longrightarrow> bv (b64char n) \<noteq> 13"
proof -
  assume n: "n < 64"
  have "bv (b64char n) \<noteq> 61 \<and> bv (b64char n) \<noteq> 10 \<and> bv (b64char n) \<noteq> 13"
    using n by (auto simp: bv_b64char)
  then show "b64char n \<noteq> CHR ''=''" "bv (b64char n) \<noteq> 10" "bv (b64char n) \<noteq> 13" by auto
qed

lemma bv_less: "bv c < 256" by simp

lemma bv_parts [simp]:
  "bv a div 4 < 64" "bv a mod 4 * 16 + bv b div 16 < 64" "bv b mod 16 * 4 + bv c div 64 < 64"
  "bv a mod 4 * 16 < 64" "bv b mod 16 * 4 < 64"
proof -
  have "bv a div 4 < 64" "bv b div 16 < 16" "bv c div 64 < 4"
    using bv_less [of a] bv_less [of b] bv_less [of c] by (simp_all add: less_mult_imp_div_less)
  moreover have "bv a mod 4 < 4" "bv b mod 16 < 16" by simp_all
  ultimately show "bv a div 4 < 64" "bv a mod 4 * 16 + bv b div 16 < 64"
    "bv b mod 16 * 4 + bv c div 64 < 64" "bv a mod 4 * 16 < 64" "bv b mod 16 * 4 < 64"
    by linarith+
qed

lemma bv_mod64: "bv c mod 64 < 64" by simp

lemma b64enc_no_newline: "list_all (\<lambda>c. bv c \<noteq> 10 \<and> bv c \<noteq> 13) (b64enc bs)"
  by (induction bs rule: b64enc.induct)
    (simp_all only: b64enc.simps list.pred_inject b64char_plain bv_parts bv_mod64, simp_all)

lemma b64_filter: "filter (\<lambda>c. bv c \<noteq> 10 \<and> bv c \<noteq> 13) (b64enc bs) = b64enc bs"
  using b64enc_no_newline [of bs] by (simp add: list_all_iff)

lemma quot_rem:
  fixes x y k :: nat
  assumes "y < k"
  shows "(x * k + y) div k = x" "(x * k + y) mod k = y"
  using assms by simp_all

lemma b64_join:
  "bv a div 4 * 4 + (bv a mod 4 * 16 + bv b div 16) div 16 = bv a"
  "(bv a mod 4 * 16 + bv b div 16) mod 16 * 16 + (bv b mod 16 * 4 + bv c div 64) div 4 = bv b"
  "(bv b mod 16 * 4 + bv c div 64) mod 4 * 64 + bv c mod 64 = bv c"
proof -
  have d: "bv b div 16 < 16" "bv c div 64 < 4"
    using bv_less [of b] bv_less [of c] by (simp_all add: less_mult_imp_div_less)
  show "bv a div 4 * 4 + (bv a mod 4 * 16 + bv b div 16) div 16 = bv a"
    "(bv a mod 4 * 16 + bv b div 16) mod 16 * 16 + (bv b mod 16 * 4 + bv c div 64) div 4 = bv b"
    "(bv b mod 16 * 4 + bv c div 64) mod 4 * 64 + bv c mod 64 = bv c"
    unfolding quot_rem [OF d(1)] quot_rem [OF d(2)] by simp_all
qed

lemma b64_join_end:
  "bv a div 4 * 4 + (bv a mod 4 * 16) div 16 = bv a"
  "(bv a mod 4 * 16 + bv b div 16) mod 16 * 16 + (bv b mod 16 * 4) div 4 = bv b"
proof -
  have d: "bv b div 16 < 16" using bv_less [of b] by (simp add: less_mult_imp_div_less)
  show "bv a div 4 * 4 + (bv a mod 4 * 16) div 16 = bv a" by simp
  show "(bv a mod 4 * 16 + bv b div 16) mod 16 * 16 + (bv b mod 16 * 4) div 4 = bv b"
    unfolding quot_rem [OF d] by simp
qed

lemma b64quads_full:
  assumes "p < 64" "q < 64" "s < 64" "t < 64" "b64quads r = Some bs"
  shows "b64quads (b64char p # b64char q # b64char s # b64char t # r) =
    Some (char_of (p * 4 + q div 16) # char_of (q mod 16 * 16 + s div 4)
      # char_of (s mod 4 * 64 + t) # bs)"
  using assms by simp

lemma b64quads_two:
  assumes "p < 64" "q < 64" "s < 64"
  shows "b64quads [b64char p, b64char q, b64char s, CHR ''=''] =
    Some [char_of (p * 4 + q div 16), char_of (q mod 16 * 16 + s div 4)]"
  using assms by simp

lemma b64quads_one:
  assumes "p < 64" "q < 64"
  shows "b64quads [b64char p, b64char q, CHR ''='', CHR ''=''] = Some [char_of (p * 4 + q div 16)]"
  using assms by simp

lemma char_of_bv: "char_of (bv c) = c" by simp

lemma b64quads_enc: "b64quads (b64enc bs) = Some bs"
proof (induction bs rule: b64enc.induct)
  case 1
  show ?case by (simp only: b64enc.simps b64quads.simps)
next
  case (2 a)
  show ?case
    by (simp only: b64enc.simps b64quads_one [OF bv_parts(1,4)] b64_join_end char_of_bv)
next
  case (3 a b)
  show ?case
    by (simp only: b64enc.simps b64quads_two [OF bv_parts(1,2,5)] b64_join_end b64_join(1) char_of_bv)
next
  case (4 a b c r)
  show ?case
    by (simp only: b64enc.simps b64quads_full [OF bv_parts(1,2,3) bv_mod64 4] b64_join char_of_bv)
qed

lemma b64dec_enc [simp]: "b64dec (b64enc bs) = Some bs"
  by (simp add: b64dec_def b64_filter b64quads_enc)

lemma b64char_ascii: "n < 64 \<Longrightarrow> bv (b64char n) < 128"
  by (auto simp: bv_b64char)

lemma b64enc_ascii: "list_all (\<lambda>c. bv c < 128) (b64enc bs)"
  by (induction bs rule: b64enc.induct)
    (simp_all only: b64enc.simps list.pred_inject b64char_ascii bv_parts bv_mod64, simp_all)

lemma b64enc_eq_Nil [simp]: "b64enc bs = [] \<longleftrightarrow> bs = []"
  by (cases bs rule: b64enc.cases) simp_all

end
