(* ===== verification/Wal.thy ===== *)
theory Wal
  imports Json Checksum
begin

text \<open>
  The write-ahead log of \<open>wal.go\<close>: the 16-byte file header, the framing of a record (length,
  CRC-32, JSON payload), the append, and the replay at open time with its treatment of torn and
  corrupt tails. A file is the sequence of its bytes. Reads are taken to succeed up to the end of
  the file; what can fail is the content.
\<close>

record operation =
  opKey :: string
  opValue :: bytes
  opDelete :: bool

record wrec =
  recVersion :: u64
  recOps :: "operation list"

definition zeroOperation :: operation where
  "zeroOperation = \<lparr>opKey = [], opValue = [], opDelete = False\<rparr>"

definition zeroRecord :: wrec where
  "zeroRecord = \<lparr>recVersion = 0, recOps = []\<rparr>"

definition walMagic :: bytes where "walMagic = ''RNDB''"
definition walVersion :: u32 where "walVersion = 1"
definition walHeaderSize :: nat where "walHeaderSize = 16"
definition maxRecordSize :: u32 where "maxRecordSize = 67108864"
definition recordHdrSize :: nat where "recordHdrSize = 8"


section \<open>Records as JSON\<close>

definition opJson :: "operation \<Rightarrow> json" where
  \<comment> \<open>the struct tags \<open>key\<close>, \<open>value,omitempty\<close>, \<open>delete,omitempty\<close>\<close>
  "opJson op =
     JObj ([(''key'', JStr (opKey op))]
       @ (if opValue op = [] then [] else [(''value'', JStr (b64enc (opValue op)))])
       @ (if opDelete op then [(''delete'', JBool True)] else []))"

definition recordJson :: "wrec \<Rightarrow> json" where
  "recordJson r =
     JObj [(''version'', JNum (formatNat (unat (recVersion r)))), (''ops'', JArr (map opJson (recOps r)))]"

definition marshalRecord :: "wrec \<Rightarrow> bytes" where
  "marshalRecord r = json_print (recordJson r)"

fun foldName :: "string \<Rightarrow> string" where
  \<comment> \<open>the case folding by which the decoder matches a member with an (ASCII) field name: letters
      to upper case, U+017F to \<open>S\<close>, U+212A to \<open>K\<close>\<close>
  "foldName [] = []"
| "foldName (c # cs) =
     (if 97 \<le> bval c \<and> bval c \<le> 122 then char_of (bval c - 32) # foldName cs
      else if bval c = 197 then
        (case cs of
           d # ds \<Rightarrow> if bval d = 191 then CHR ''S'' # foldName ds else c # foldName cs
         | [] \<Rightarrow> [c])
      else if bval c = 226 then
        (case cs of
           d # e # es \<Rightarrow>
             if bval d = 132 \<and> bval e = 170 then CHR ''K'' # foldName es else c # foldName cs
         | _ \<Rightarrow> c # foldName cs)
      else c # foldName cs)"

definition isField :: "string \<Rightarrow> string \<Rightarrow> bool" where
  "isField name k \<longleftrightarrow> foldName k = foldName name"

fun unmarshalBytes :: "bytes \<Rightarrow> json list \<Rightarrow> bytes option" where
  \<comment> \<open>a JSON array of numbers read into a byte slice, over the slice's old elements\<close>
  "unmarshalBytes old [] = Some []"
| "unmarshalBytes old (v # vs) =
     (case v of
        JNum l \<Rightarrow>
          (case parseUint 8 l of
             Some n \<Rightarrow> map_option ((#) (char_of n)) (unmarshalBytes (tl old) vs)
           | None \<Rightarrow> None)
      | JNull \<Rightarrow>
          map_option ((#) (if old = [] then char_of (0::nat) else hd old)) (unmarshalBytes (tl old) vs)
      | _ \<Rightarrow> None)"

definition opField :: "string \<times> json \<Rightarrow> operation \<Rightarrow> operation option" where
  "opField m op =
     (case m of (k, v) \<Rightarrow>
        if isField ''key'' k then
          (case v of JStr s \<Rightarrow> Some (op\<lparr>opKey := s\<rparr>) | JNull \<Rightarrow> Some op | _ \<Rightarrow> None)
        else if isField ''value'' k then
          (case v of
             JStr s \<Rightarrow> map_option (\<lambda>b. op\<lparr>opValue := b\<rparr>) (b64dec s)
           | JNull \<Rightarrow> Some (op\<lparr>opValue := []\<rparr>)
           | JArr vs \<Rightarrow> map_option (\<lambda>b. op\<lparr>opValue := b\<rparr>) (unmarshalBytes (opValue op) vs)
           | _ \<Rightarrow> None)
        else if isField ''delete'' k then
          (case v of JBool b \<Rightarrow> Some (op\<lparr>opDelete := b\<rparr>) | JNull \<Rightarrow> Some op | _ \<Rightarrow> None)
        else Some op)"

fun foldMembers :: "('m \<Rightarrow> 'a \<Rightarrow> 'a option) \<Rightarrow> 'm list \<Rightarrow> 'a \<Rightarrow> 'a option" where
  "foldMembers f [] a = Some a"
| "foldMembers f (m # ms) a = (case f m a of None \<Rightarrow> None | Some a' \<Rightarrow> foldMembers f ms a')"

definition unmarshalOp :: "operation \<Rightarrow> json \<Rightarrow> operation option" where
  "unmarshalOp op v =
     (case v of JObj ms \<Rightarrow> foldMembers opField ms op | JNull \<Rightarrow> Some op | _ \<Rightarrow> None)"

fun unmarshalOps :: "operation list \<Rightarrow> json list \<Rightarrow> operation list option" where
  "unmarshalOps old [] = Some []"
| "unmarshalOps old (v # vs) =
     (case unmarshalOp (if old = [] then zeroOperation else hd old) v of
        None \<Rightarrow> None
      | Some op \<Rightarrow> map_option ((#) op) (unmarshalOps (tl old) vs))"

definition recordField :: "string \<times> json \<Rightarrow> wrec \<Rightarrow> wrec option" where
  "recordField m r =
     (case m of (k, v) \<Rightarrow>
        if isField ''version'' k then
          (case v of
             JNum l \<Rightarrow> map_option (\<lambda>n. r\<lparr>recVersion := of_nat n\<rparr>) (parseUint 64 l)
           | JNull \<Rightarrow> Some r
           | _ \<Rightarrow> None)
        else if isField ''ops'' k then
          (case v of
             JArr vs \<Rightarrow> map_option (\<lambda>ops. r\<lparr>recOps := ops\<rparr>) (unmarshalOps (recOps r) vs)
           | JNull \<Rightarrow> Some (r\<lparr>recOps := []\<rparr>)
           | _ \<Rightarrow> None)
        else Some r)"

definition unmarshalRecord :: "bytes \<Rightarrow> wrec option" where
  "unmarshalRecord payload =
     (case json_parse payload of
        Some (JObj ms) \<Rightarrow> foldMembers recordField ms zeroRecord
      | Some JNull \<Rightarrow> Some zeroRecord
      | _ \<Rightarrow> None)"


section \<open>The file header\<close>

definition writeWALHeader :: bytes where
  "writeWALHeader = walMagic @ putUint32 walVersion @ replicate 8 (char_of (0::nat))"

definition readWALHeader :: "bytes \<Rightarrow> unit res" where
  "readWALHeader file =
     (if length file < walHeaderSize then Inl ErrIO
      else if take 4 file \<noteq> walMagic then Inl ErrWALMagic
      else if uint32 (slice 4 4 file) \<noteq> walVersion then Inl ErrWALVersion
      else Inr ())"


section \<open>Frames and replay\<close>

definition encodeRecord :: "wrec \<Rightarrow> bytes" where
  "encodeRecord r =
     (let payload = marshalRecord r in
      putUint32 (of_nat (length payload)) @ putUint32 (crc32 payload) @ payload)"

datatype writeOutcome =
    WriteOk
  | WriteFails nat  \<comment> \<open>the write returns an error after this many bytes reached the file\<close>
  | SyncFails       \<comment> \<open>the frame is written, the sync returns an error\<close>

definition appendRecord :: "bytes \<Rightarrow> wrec \<Rightarrow> writeOutcome \<Rightarrow> bytes \<times> err option" where
  "appendRecord file r out =
     (case out of
        WriteOk \<Rightarrow> (file @ encodeRecord r, None)
      | WriteFails n \<Rightarrow> (file @ take n (encodeRecord r), Some ErrIO)
      | SyncFails \<Rightarrow> (file @ encodeRecord r, Some ErrIO))"

function hasValidRecord :: "bytes \<Rightarrow> bool" where
  "hasValidRecord data =
     (if length data < recordHdrSize then False
      else
        let size = uint32 (take 4 data) in
        if size = 0 \<or> size > maxRecordSize then hasValidRecord (drop 1 data)
        else if unat size + recordHdrSize > length data then False
        else
          let payload = slice recordHdrSize (unat size) data in
          if crc32 payload \<noteq> uint32 (slice 4 4 data) then hasValidRecord (drop 1 data)
          else if unmarshalRecord payload = None then hasValidRecord (drop 1 data)
          else True)"
  by pat_completeness auto
termination
  by (relation "measure length") (auto simp: recordHdrSize_def)

declare hasValidRecord.simps [simp del]

definition recoverOrCorrupt :: "bytes \<Rightarrow> nat \<Rightarrow> nat \<Rightarrow> nat \<Rightarrow> nat res" where
  "recoverOrCorrupt remainder lastGood failEnd fileSize =
     (if failEnd \<ge> fileSize then Inr lastGood
      else if hasValidRecord remainder then Inl ErrWALCorrupt
      else Inr lastGood)"

function replayLoop :: "bytes \<Rightarrow> nat \<Rightarrow> nat \<Rightarrow> nat \<Rightarrow> wrec list \<times> nat res" where
  \<comment> \<open>the records handed to \<open>apply\<close>, in order, and \<open>lastGood\<close> or the error\<close>
  "replayLoop rest lastGood offset fileSize =
     (if length rest < recordHdrSize then ([], Inr lastGood)
      else
        let size = uint32 (take 4 rest);
            rest1 = drop recordHdrSize rest;
            offset1 = offset + recordHdrSize
        in
        if size = 0 \<or> size > maxRecordSize then
          ([], recoverOrCorrupt rest1 lastGood offset1 fileSize)
        else if length rest1 < unat size then ([], Inr lastGood)
        else
          let payload = take (unat size) rest1;
              rest2 = drop (unat size) rest1;
              offset2 = offset1 + unat size
          in
          if crc32 payload \<noteq> uint32 (slice 4 4 rest) then
            ([], recoverOrCorrupt rest2 lastGood offset2 fileSize)
          else
            (case unmarshalRecord payload of
               None \<Rightarrow> ([], recoverOrCorrupt rest2 lastGood offset2 fileSize)
             | Some r \<Rightarrow>
                 (case replayLoop rest2 offset2 offset2 fileSize of
                    (rs, res) \<Rightarrow> (r # rs, res))))"
  by pat_completeness auto
termination
  by (relation "measure (\<lambda>(rest, _). length rest)") (auto simp: recordHdrSize_def)

declare replayLoop.simps [simp del]

definition replay :: "bytes \<Rightarrow> wrec list \<times> nat res" where
  "replay file = replayLoop (drop walHeaderSize file) walHeaderSize walHeaderSize (length file)"

definition initWAL :: "bytes \<Rightarrow> bytes \<times> wrec list \<times> nat res" where
  \<comment> \<open>the file after a header was written to an empty one, the records replayed, \<open>lastGood\<close>\<close>
  "initWAL file =
     (if length file = 0 then (writeWALHeader, [], Inr walHeaderSize)
      else if length file < walHeaderSize then (file, [], Inl ErrWALMagic)
      else
        (case readWALHeader file of
           Inl e \<Rightarrow> (file, [], Inl e)
         | Inr _ \<Rightarrow> (file, replay file)))"


section \<open>Unmarshalling inverts marshalling\<close>

definition recKeysOk :: "wrec \<Rightarrow> bool" where
  "recKeysOk r \<longleftrightarrow> list_all (\<lambda>op. valid_utf8 (opKey op)) (recOps r)"

definition recordOk :: "wrec \<Rightarrow> bool" where
  \<comment> \<open>the records that survive a round trip through the log\<close>
  "recordOk r \<longleftrightarrow> recKeysOk r \<and> length (marshalRecord r) \<le> unat maxRecordSize"

lemma isField_table:
  "isField ''key'' ''key''" "\<not> isField ''key'' ''value''" "\<not> isField ''key'' ''delete''"
  "isField ''value'' ''value''" "\<not> isField ''value'' ''delete''" "isField ''delete'' ''delete''"
  "isField ''version'' ''version''" "\<not> isField ''version'' ''ops''" "isField ''ops'' ''ops''"
  by code_simp+

lemma valid_utf8_names [simp]:
  "valid_utf8 ''key''" "valid_utf8 ''value''" "valid_utf8 ''delete''" "valid_utf8 ''version''"
  "valid_utf8 ''ops''"
  by (simp_all add: valid_utf8_ascii)

lemma valid_utf8_b64 [simp]: "valid_utf8 (b64enc bs)"
  by (rule valid_utf8_ascii) (rule b64enc_ascii)

lemma json_ok_opJson: "valid_utf8 (opKey op) \<Longrightarrow> d < 9999 \<Longrightarrow> json_ok d (opJson op)"
  by (simp add: opJson_def maxNestingDepth_def)

lemma json_ok_recordJson: "recKeysOk r \<Longrightarrow> json_ok 0 (recordJson r)"
  by (auto simp: recordJson_def maxNestingDepth_def int_lit_num_lit formatNat_int_lit recKeysOk_def list_all_iff
    json_ok_opJson)

lemma unmarshal_opJson: "unmarshalOp zeroOperation (opJson op) = Some op"
  by (simp add: unmarshalOp_def opJson_def opField_def isField_table zeroOperation_def)

lemma unmarshal_ops: "unmarshalOps [] (map opJson ops) = Some ops"
  by (induction ops) (simp_all add: unmarshal_opJson)

lemma unmarshal_recordJson:
  "foldMembers recordField
     [(''version'', JNum (formatNat (unat (recVersion r)))), (''ops'', JArr (map opJson (recOps r)))]
     zeroRecord = Some r"
proof -
  have "parseUint 64 (formatNat (unat (recVersion r))) = Some (unat (recVersion r))"
    using unsigned_less [where ?'a = nat, of "recVersion r"] by (intro parseUint_format) simp
  then show ?thesis
    by (simp add: recordField_def isField_table zeroRecord_def unmarshal_ops)
qed

lemma unmarshal_marshal: "recKeysOk r \<Longrightarrow> unmarshalRecord (marshalRecord r) = Some r"
  using json_parse_print [OF json_ok_recordJson] unmarshal_recordJson [of r]
  by (simp add: unmarshalRecord_def marshalRecord_def recordJson_def)

lemma marshal_nonempty [simp]: "marshalRecord r \<noteq> []"
  by (simp add: marshalRecord_def recordJson_def)


section \<open>One step of the replay\<close>

lemma payload_size:
  "recordOk r \<Longrightarrow> unat (of_nat (length (marshalRecord r)) :: u32) = length (marshalRecord r)"
  by (simp add: recordOk_def maxRecordSize_def unat_of_nat32)

lemma frame_size_ok:
  assumes "recordOk r"
  shows "(of_nat (length (marshalRecord r)) :: u32) \<noteq> 0"
    "\<not> maxRecordSize < (of_nat (length (marshalRecord r)) :: u32)"
proof -
  show "(of_nat (length (marshalRecord r)) :: u32) \<noteq> 0"
    using payload_size [OF assms] by (metis length_0_conv marshal_nonempty unsigned_0)
  show "\<not> maxRecordSize < (of_nat (length (marshalRecord r)) :: u32)"
    using payload_size [OF assms] assms by (simp add: recordOk_def word_less_nat_alt)
qed

lemma length_encodeRecord: "length (encodeRecord r) = 8 + length (marshalRecord r)"
  by (simp add: encodeRecord_def Let_def)

lemma header_fields:
  assumes "rest = putUint32 sz @ putUint32 crc @ body"
  shows "\<not> length rest < recordHdrSize" "uint32 (take 4 rest) = sz"
    "uint32 (slice 4 4 rest) = crc" "drop recordHdrSize rest = body"
    "slice recordHdrSize n rest = take n body" "length rest = 8 + length body"
  unfolding assms by (simp_all add: recordHdrSize_def slice_def)

text \<open>One turn of the replay loop, and one of the search, on a frame split into its fields.\<close>

lemma replayLoop_step:
  assumes "rest = putUint32 sz @ putUint32 crc @ body"
  shows "replayLoop rest lastGood offset fileSize =
    (if sz = 0 \<or> sz > maxRecordSize then
       ([], recoverOrCorrupt body lastGood (offset + 8) fileSize)
     else if length body < unat sz then ([], Inr lastGood)
     else if crc32 (take (unat sz) body) \<noteq> crc then
       ([], recoverOrCorrupt (drop (unat sz) body) lastGood (offset + 8 + unat sz) fileSize)
     else
       (case unmarshalRecord (take (unat sz) body) of
          None \<Rightarrow>
            ([], recoverOrCorrupt (drop (unat sz) body) lastGood (offset + 8 + unat sz) fileSize)
        | Some r \<Rightarrow>
            (case replayLoop (drop (unat sz) body) (offset + 8 + unat sz) (offset + 8 + unat sz) fileSize of
               (rs, res) \<Rightarrow> (r # rs, res))))"
  unfolding replayLoop.simps [of rest] header_fields [OF assms] Let_def
  unfolding recordHdrSize_def by simp

lemma hasValidRecord_step:
  assumes "rest = putUint32 sz @ putUint32 crc @ body"
  shows "hasValidRecord rest =
    (if sz = 0 \<or> sz > maxRecordSize then hasValidRecord (drop 1 rest)
     else if length body < unat sz then False
     else if crc32 (take (unat sz) body) \<noteq> crc then hasValidRecord (drop 1 rest)
     else if unmarshalRecord (take (unat sz) body) = None then hasValidRecord (drop 1 rest)
     else True)"
  unfolding hasValidRecord.simps [of rest] header_fields [OF assms] Let_def
  by (simp add: recordHdrSize_def)

lemma encodeRecord_split:
  "encodeRecord r @ t =
    putUint32 (of_nat (length (marshalRecord r))) @ putUint32 (crc32 (marshalRecord r))
      @ marshalRecord r @ t"
  by (simp add: encodeRecord_def Let_def)

lemma replayLoop_frame:
  assumes "recordOk r"
  shows "replayLoop (encodeRecord r @ t) lastGood offset fileSize =
    (case replayLoop t (offset + length (encodeRecord r)) (offset + length (encodeRecord r)) fileSize of
       (rs, res) \<Rightarrow> (r # rs, res))"
proof -
  have ks: "recKeysOk r" using assms by (simp add: recordOk_def)
  show ?thesis
    using frame_size_ok [OF assms] payload_size [OF assms] unmarshal_marshal [OF ks]
    by (simp add: replayLoop_step [OF encodeRecord_split] length_encodeRecord add.assoc)
qed

lemma hasValidRecord_frame: "recordOk r \<Longrightarrow> hasValidRecord (encodeRecord r @ t)"
  using frame_size_ok [of r] payload_size [of r] unmarshal_marshal [of r]
  by (simp add: hasValidRecord_step [OF encodeRecord_split] recordOk_def)

abbreviation frames :: "wrec list \<Rightarrow> bytes" where
  "frames rs \<equiv> concat (map encodeRecord rs)"

lemma replayLoop_frames:
  "list_all recordOk rs \<Longrightarrow>
   replayLoop (frames rs @ t) lastGood offset fileSize =
     (case replayLoop t (if rs = [] then lastGood else offset + length (frames rs))
             (offset + length (frames rs)) fileSize of
        (rs', res) \<Rightarrow> (rs @ rs', res))"
proof (induction rs arbitrary: lastGood offset)
  case Nil
  then show ?case by simp
next
  case (Cons r rs)
  let ?o = "offset + length (encodeRecord r)"
  have "replayLoop (frames (r # rs) @ t) lastGood offset fileSize =
    (case replayLoop (frames rs @ t) ?o ?o fileSize of (rs, res) \<Rightarrow> (r # rs, res))"
    using Cons.prems by (simp add: replayLoop_frame)
  also have "\<dots> = (case replayLoop t (?o + length (frames rs)) (?o + length (frames rs)) fileSize of
      (rs', res) \<Rightarrow> ((r # rs) @ rs', res))"
    using Cons.prems by (simp add: Cons.IH split: prod.splits)
  finally show ?case by (simp add: add.assoc)
qed

lemma replayLoop_end:
  assumes "list_all recordOk rs" "replayLoop t off off fileSize = ([], res)"
    "off = offset + length (frames rs)"
  shows "replayLoop (frames rs @ t) offset offset fileSize = (rs, res)"
  using assms by (cases "rs = []") (simp_all add: replayLoop_frames)

lemma frame_cases:
  assumes "8 \<le> length rest"
  obtains sz crc body where "rest = putUint32 sz @ putUint32 crc @ body"
proof
  have "rest = take 4 rest @ take 4 (drop 4 rest) @ drop 8 rest"
    by (metis append_take_drop_id drop_drop numeral_Bit0 add.commute)
  then show "rest = putUint32 (uint32 (take 4 rest)) @ putUint32 (uint32 (take 4 (drop 4 rest)))
      @ drop 8 rest"
    using assms by (simp add: putUint32_get)
qed

lemma replayLoop_bad_crc:
  assumes "recordOk r" "length body = length (marshalRecord r)" "crc32 body \<noteq> crc32 (marshalRecord r)"
  shows "replayLoop (take 8 (encodeRecord r) @ body @ tl') off off fs =
    ([], recoverOrCorrupt tl' off (off + 8 + length body) fs)"
proof -
  have eq: "take 8 (encodeRecord r) @ body @ tl' =
      putUint32 (of_nat (length (marshalRecord r))) @ putUint32 (crc32 (marshalRecord r)) @ body @ tl'"
    by (simp add: encodeRecord_def Let_def)
  show ?thesis
    unfolding replayLoop_step [OF eq] payload_size [OF assms(1)]
    using frame_size_ok [OF assms(1)] assms(2,3) by simp
qed

lemma recoverOrCorrupt_Inr: "recoverOrCorrupt b lg e fs = Inr lg' \<Longrightarrow> lg' = lg"
  by (auto simp: recoverOrCorrupt_def split: if_splits)

lemma replayLoop_short: "length rest < 8 \<Longrightarrow> replayLoop rest lg off fs = ([], Inr lg)"
  by (subst replayLoop.simps) (simp add: recordHdrSize_def)

text \<open>
  What a successful replay says about any content: \<open>lastGood\<close> lies within the file, and the file
  cut there replays to the same records without a tail.
\<close>

lemma replayLoop_truncated:
  assumes "replayLoop rest off off fs = (rs, Inr lg)"
  shows "off \<le> lg \<and> lg \<le> off + length rest \<and> replayLoop (take (lg - off) rest) off off fs' = (rs, Inr lg)"
  using assms
proof (induction "length rest" arbitrary: rest off rs rule: less_induct)
  case less
  show ?case
  proof (cases "length rest < 8")
    case True
    with less.prems show ?thesis by (simp add: replayLoop_short)
  next
    case False
    then obtain sz crc body where rest: "rest = putUint32 sz @ putUint32 crc @ body"
      by (metis frame_cases not_less)
    note step = replayLoop_step [OF rest, of off off fs]
    show ?thesis
    proof (cases rs)
      case Nil
      have "lg = off"
        using less.prems Nil unfolding step
        by (auto dest: recoverOrCorrupt_Inr split: if_splits option.splits prod.splits)
      with Nil show ?thesis by (simp add: replayLoop_short)
    next
      case (Cons r rs')
      let ?n = "unat sz" and ?off2 = "off + 8 + unat sz"
      have fr: "\<not> (sz = 0 \<or> sz > maxRecordSize)" "\<not> length body < ?n" "crc32 (take ?n body) = crc"
        "unmarshalRecord (take ?n body) = Some r"
        "replayLoop (drop ?n body) ?off2 ?off2 fs = (rs', Inr lg)"
        using less.prems Cons unfolding step by (auto split: if_splits option.splits prod.splits)
      have IH: "?off2 \<le> lg" "lg \<le> ?off2 + length (drop ?n body)"
        "replayLoop (take (lg - ?off2) (drop ?n body)) ?off2 ?off2 fs' = (rs', Inr lg)"
        using less.hyps [OF _ fr(5)] rest by simp_all
      let ?body' = "take (?n + (lg - ?off2)) body"
      have "take (lg - off) rest = putUint32 sz @ putUint32 crc @ ?body'"
        using IH(1) by (simp add: rest add.commute)
      moreover have "take ?n ?body' = take ?n body" "drop ?n ?body' = take (lg - ?off2) (drop ?n body)"
        "\<not> length ?body' < ?n"
        using fr(2) by (simp_all add: min_def take_drop add.commute)
      ultimately have "replayLoop (take (lg - off) rest) off off fs' = (rs, Inr lg)"
        using fr IH(3) Cons by (simp add: replayLoop_step)
      then show ?thesis using IH(1,2) fr(2) by (simp add: rest)
    qed
  qed
qed

lemma length_writeWALHeader [simp]: "length writeWALHeader = 16"
  by (simp add: writeWALHeader_def walMagic_def)

lemma replay_header:
  "replay (writeWALHeader @ t) = replayLoop t 16 16 (16 + length t)"
  by (simp add: replay_def walHeaderSize_def)

lemma readWALHeader_written [simp]: "readWALHeader (writeWALHeader @ t) = Inr ()"
  by (simp add: readWALHeader_def writeWALHeader_def walHeaderSize_def walMagic_def slice_def)


lemma replay_then:
  assumes "list_all recordOk rs"
    and "replayLoop t (16 + length (frames rs)) (16 + length (frames rs)) (16 + length (frames rs) + length t) = ([], res)"
  shows "replay (writeWALHeader @ frames rs @ t) = (rs, res)"
  using replayLoop_end [OF assms(1) assms(2), of 16] by (simp add: replay_header add.assoc)

lemma replayLoop_cut_payload:
  assumes "recordOk r" "8 \<le> n" "n + length t < length (encodeRecord r)"
  shows "replayLoop (take n (encodeRecord r) @ t) lg off fs = ([], Inr lg)"
proof -
  let ?p = "marshalRecord r"
  have eq: "take n (encodeRecord r) @ t =
      putUint32 (of_nat (length ?p)) @ putUint32 (crc32 ?p) @ take (n - 8) ?p @ t"
    using assms(2) by (simp add: encodeRecord_def Let_def)
  have "n - 8 + length t < length ?p"
    using assms(2,3) by (simp add: length_encodeRecord)
  then show ?thesis
    unfolding replayLoop_step [OF eq] payload_size [OF assms(1)] using frame_size_ok [OF assms(1)] by simp
qed

lemma replayLoop_torn:
  assumes "recordOk r" "n < length (encodeRecord r)"
  shows "replayLoop (take n (encodeRecord r)) lg off fs = ([], Inr lg)"
  using assms replayLoop_cut_payload [OF assms(1), of n "[]"]
  by (cases "n < 8") (simp_all add: replayLoop_short)


section \<open>Properties of the log\<close>

definition sampleRecord :: wrec where
  "sampleRecord = \<lparr>recVersion = 1, recOps = [\<lparr>opKey = ''k'', opValue = ''v'', opDelete = False\<rparr>]\<rparr>"

abbreviation samplePayload :: bytes where
  "samplePayload \<equiv> marshalRecord sampleRecord"

lemma length_samplePayload: "length samplePayload = 48"
  by code_simp

lemma sampleRecord_ok: "recordOk sampleRecord"
proof -
  have "recKeysOk sampleRecord" by (simp add: recKeysOk_def sampleRecord_def valid_utf8_ascii)
  then show ?thesis by (simp add: recordOk_def maxRecordSize_def length_samplePayload)
qed

lemma sample_payload_head: "samplePayload = [] @ CHR ''{'' # tl samplePayload"
  by (simp add: marshalRecord_def recordJson_def)

text \<open>
  C16. A log that consists of the file header and the frames of records that fit (at most 64 MiB of
  JSON each, keys in UTF-8) replays to exactly these records, and \<open>lastGood\<close> is the end of the file.
\<close>

theorem replay_complete:
  assumes "list_all recordOk rs"
  shows "replay (writeWALHeader @ frames rs) = (rs, Inr (16 + length (frames rs)))"
  using replay_then [OF assms, of "[]"] by (simp add: replayLoop_short)

theorem replay_complete_witness:
  "replay (writeWALHeader @ frames [sampleRecord]) = ([sampleRecord], Inr (16 + length (frames [sampleRecord])))"
  using sampleRecord_ok by (intro replay_complete) simp

text \<open>
  C17. Torn tail: when the last frame is cut anywhere, also inside its header, replay returns the
  records before it and the offset where they end; the torn frame is neither applied nor an error.
\<close>

theorem replay_torn_tail:
  assumes "list_all recordOk rs" "recordOk r" "n < length (encodeRecord r)"
  shows "replay (writeWALHeader @ frames rs @ take n (encodeRecord r)) =
    (rs, Inr (16 + length (frames rs)))"
  using replay_then [OF assms(1), of "take n (encodeRecord r)"] replayLoop_torn [OF assms(2,3)] by simp

theorem replay_torn_tail_witness:
  "replay (writeWALHeader @ frames [sampleRecord] @ take 11 (encodeRecord sampleRecord)) =
    ([sampleRecord], Inr (16 + length (frames [sampleRecord])))"
proof -
  have "11 < length (encodeRecord sampleRecord)" by (simp add: length_encodeRecord length_samplePayload)
  then show ?thesis using sampleRecord_ok by (intro replay_torn_tail) simp_all
qed

text \<open>
  C18. A damaged byte is never replayed: if one payload byte of the last record changes, the CRC
  tells, and recovery keeps exactly the records before it.
\<close>

theorem replay_damaged_tail:
  assumes "list_all recordOk rs" "recordOk r" "marshalRecord r = xs @ a # ys" "b \<noteq> a"
  shows "replay (writeWALHeader @ frames rs @ take 8 (encodeRecord r) @ xs @ b # ys) =
    (rs, Inr (16 + length (frames rs)))"
proof -
  let ?t = "take 8 (encodeRecord r) @ xs @ b # ys" and ?off = "16 + length (frames rs)"
  let ?fs = "16 + length (frames rs @ ?t)"
  have "replayLoop ?t ?off ?off ?fs =
      ([], recoverOrCorrupt [] ?off (?off + 8 + length (xs @ b # ys)) ?fs)"
    using replayLoop_bad_crc [OF assms(2), of "xs @ b # ys" "[]"]
      crc32_single_byte [OF assms(4), of xs ys] assms(3) by simp
  also have "\<dots> = ([], Inr ?off)" by (simp add: recoverOrCorrupt_def length_encodeRecord)
  finally show ?thesis
    using replayLoop_end [OF assms(1), of ?t ?off ?fs "Inr ?off" 16] by (simp add: replay_header)
qed

theorem replay_damaged_tail_witness:
  "replay (writeWALHeader @ frames [sampleRecord]
      @ take 8 (encodeRecord sampleRecord) @ [] @ CHR ''['' # tl samplePayload) =
    ([sampleRecord], Inr (16 + length (frames [sampleRecord])))"
  using sampleRecord_ok by (intro replay_damaged_tail [OF _ _ sample_payload_head]) simp_all

text \<open>
  C19. The same damage in the middle of the log, with an intact record behind it, makes the open
  fail with \<open>ErrWALCorrupt\<close> instead of dropping committed records.
\<close>

theorem replay_damaged_middle:
  assumes "list_all recordOk rs" "recordOk r" "marshalRecord r = xs @ a # ys" "b \<noteq> a" "recordOk r'"
  shows "replay (writeWALHeader @ frames rs @ (take 8 (encodeRecord r) @ xs @ b # ys)
      @ encodeRecord r' @ t) = (rs, Inl ErrWALCorrupt)"
proof -
  let ?u = "(take 8 (encodeRecord r) @ xs @ b # ys) @ encodeRecord r' @ t"
  let ?off = "16 + length (frames rs)" and ?fs = "16 + length (frames rs @
      (take 8 (encodeRecord r) @ xs @ b # ys) @ encodeRecord r' @ t)"
  have "replayLoop ?u ?off ?off ?fs =
      ([], recoverOrCorrupt (encodeRecord r' @ t) ?off (?off + 8 + length (xs @ b # ys)) ?fs)"
    using replayLoop_bad_crc [OF assms(2), of "xs @ b # ys" "encodeRecord r' @ t"]
      crc32_single_byte [OF assms(4), of xs ys] assms(3) by simp
  also have "\<dots> = ([], Inl ErrWALCorrupt)"
    using hasValidRecord_frame [OF assms(5)] by (simp add: recoverOrCorrupt_def length_encodeRecord)
  finally show ?thesis
    using replayLoop_end [OF assms(1), of ?u ?off ?fs "Inl ErrWALCorrupt" 16]
    by (simp add: replay_header)
qed

theorem replay_damaged_middle_witness:
  "replay (writeWALHeader @ frames [sampleRecord]
      @ (take 8 (encodeRecord sampleRecord) @ [] @ CHR ''['' # tl samplePayload)
      @ encodeRecord sampleRecord @ []) = ([sampleRecord], Inl ErrWALCorrupt)"
  using sampleRecord_ok by (intro replay_damaged_middle [OF _ _ sample_payload_head]) simp_all

text \<open>
  C20. Recovery is idempotent on every content: what open keeps after truncating at \<open>lastGood\<close> lies
  within the file and replays to the same records, with nothing left to truncate.
\<close>

theorem replay_truncate_idempotent:
  assumes "16 \<le> length file" "replay file = (rs, Inr lg)"
  shows "lg \<le> length file \<and> replay (take lg file) = (rs, Inr lg) \<and> length (take lg file) = lg"
proof -
  have "replayLoop (drop 16 file) 16 16 (length file) = (rs, Inr lg)"
    using assms(2) by (simp add: replay_def walHeaderSize_def)
  from replayLoop_truncated [OF this, of lg] assms(1)
  have "16 \<le> lg" "lg \<le> length file" "replayLoop (take (lg - 16) (drop 16 file)) 16 16 lg = (rs, Inr lg)"
    by simp_all
  then show ?thesis by (simp add: replay_def walHeaderSize_def drop_take min.absorb2)
qed

theorem replay_truncate_idempotent_witness:
  "replay (take 16 (writeWALHeader @ ''torn'')) = ([], Inr 16)"
proof -
  have "replay (writeWALHeader @ ''torn'') = ([], Inr 16)" by (simp add: replay_header replayLoop_short)
  from replay_truncate_idempotent [OF _ this] show ?thesis by simp
qed

text \<open>
  C35. The guard against losing committed records has a gap: when the damage hits the length field of
  a frame and the new length is plausible but runs past the end of the file, replay returns without an
  error and the intact records behind the damaged frame are cut off.
\<close>

theorem replay_damaged_length_drops_records:
  assumes "list_all recordOk rs" "list_all recordOk rs'" "sz \<noteq> 0" "sz \<le> maxRecordSize"
    and "length (marshalRecord r) + length (frames rs') < unat sz"
  shows "replay (writeWALHeader @ frames rs @ putUint32 sz @ drop 4 (encodeRecord r) @ frames rs') =
    (rs, Inr (16 + length (frames rs)))"
proof -
  let ?u = "putUint32 sz @ drop 4 (encodeRecord r) @ frames rs'" and ?off = "16 + length (frames rs)"
  let ?fs = "16 + length (frames rs @ ?u)" and ?p = "marshalRecord r"
  have u: "?u = putUint32 sz @ putUint32 (crc32 ?p) @ ?p @ frames rs'"
    by (simp add: encodeRecord_def Let_def)
  have "replayLoop ?u ?off ?off ?fs = ([], Inr ?off)"
    using assms(3,5) leD [OF assms(4)] by (simp add: replayLoop_step [OF u])
  then show ?thesis
    using replayLoop_end [OF assms(1), of ?u ?off ?fs "Inr ?off" 16] by (simp add: replay_header)
qed

theorem replay_damaged_length_drops_records_witness:
  "replay (writeWALHeader @ frames [] @ putUint32 65536 @ drop 4 (encodeRecord sampleRecord)
      @ frames [sampleRecord]) = ([], Inr (16 + length (frames [])))"
proof -
  have "length samplePayload + length (frames [sampleRecord]) < unat (65536 :: u32)"
    "(65536 :: u32) \<le> maxRecordSize"
    by (simp_all add: length_encodeRecord length_samplePayload maxRecordSize_def)
  then show ?thesis
    using sampleRecord_ok by (intro replay_damaged_length_drops_records) simp_all
qed

text \<open>
  C36. The append does not enforce the limit that replay enforces: a record whose JSON exceeds 64 MiB is
  written without an error, and the next open applies neither it nor anything behind it.
\<close>

theorem oversized_record_not_replayed:
  assumes "list_all recordOk rs" "unat maxRecordSize < length (marshalRecord r)"
    and "length (marshalRecord r) < 2 ^ 32"
  shows "appendRecord file r WriteOk = (file @ encodeRecord r, None)
    \<and> fst (replay (writeWALHeader @ frames rs @ encodeRecord r @ t)) = rs"
proof -
  let ?u = "encodeRecord r @ t" and ?off = "16 + length (frames rs)" and ?p = "marshalRecord r"
  let ?fs = "16 + length (frames rs @ ?u)"
  have "unat (of_nat (length ?p) :: u32) = length ?p" using assms(3) by (simp add: unat_of_nat32)
  then have "maxRecordSize < of_nat (length ?p)" using assms(2) by (simp add: word_less_nat_alt)
  then have "replayLoop ?u ?off ?off ?fs =
      ([], recoverOrCorrupt (?p @ t) ?off (?off + 8) ?fs)"
    by (simp add: replayLoop_step [OF encodeRecord_split])
  then have "replayLoop (frames rs @ ?u) 16 16 ?fs = (rs, recoverOrCorrupt (?p @ t) ?off (?off + 8) ?fs)"
    by (intro replayLoop_end [OF assms(1)]) auto
  then show ?thesis by (simp add: replay_header appendRecord_def)
qed

abbreviation oversizedRecord :: wrec where
  "oversizedRecord \<equiv> \<lparr>recVersion = 1, recOps = replicate 7000000 zeroOperation\<rparr>"

lemma length_jjoin: "xs \<noteq> [] \<Longrightarrow> Suc (length (jjoin xs)) = sum_list (map length xs) + length xs"
  by (induction xs rule: jjoin.induct) simp_all

lemma oversized_length: "length (marshalRecord oversizedRecord) = 77000021"
proof -
  let ?ops = "replicate 7000000 (json_print (opJson zeroOperation))"
  have "length (json_print (opJson zeroOperation)) = 10" by code_simp
  then have "Suc (length (jjoin ?ops)) = 77000000"
    using length_jjoin [of ?ops] by (simp add: sum_list_replicate)
  moreover have "length (json_quote ''version'') = 9" "length (json_quote ''ops'') = 5"
    "length (formatNat (unat (1 :: u64))) = 1" by code_simp+
  ultimately show ?thesis
    unfolding marshalRecord_def recordJson_def by (simp add: map_replicate)
qed

theorem oversized_record_not_replayed_witness:
  "fst (replay (writeWALHeader @ frames [sampleRecord] @ encodeRecord oversizedRecord @ encodeRecord sampleRecord))
    = [sampleRecord]"
  using oversized_record_not_replayed [of "[sampleRecord]" oversizedRecord "[]" "encodeRecord sampleRecord"]
    sampleRecord_ok oversized_length by (simp add: maxRecordSize_def)

end
