(* ===== verification/Keys.thy ===== *)
theory Keys
  imports Strconv
begin

text \<open>
  The storage keys of \<open>keys.go\<close>: the reserved key space, the keys of catalog entries and rows,
  and the textual encoding of primary keys with its decoder. \<open>PathEscape\<close> and \<open>PathUnescape\<close>
  are those of Go's \<open>net/url\<close>. The lemmas show that decoding inverts encoding, that keys of
  different rows differ, and that row keys and catalog keys never meet.
\<close>

definition reservedPrefix :: string where
  "reservedPrefix = ''__rdb__/''"

abbreviation hasPrefix :: "string \<Rightarrow> string \<Rightarrow> bool" where
  \<comment> \<open>\<open>strings.HasPrefix(s, p)\<close>\<close>
  "hasPrefix s p \<equiv> prefix p s"

definition isReservedKey :: "string \<Rightarrow> bool" where
  "isReservedKey key \<longleftrightarrow> hasPrefix key reservedPrefix"

definition catalogTableKey :: "string \<Rightarrow> string" where
  "catalogTableKey name = reservedPrefix @ ''meta/tables/'' @ name"

definition catalogTablePrefix :: string where
  "catalogTablePrefix = reservedPrefix @ ''meta/tables/''"

definition rowKey :: "string \<Rightarrow> string \<Rightarrow> string" where
  "rowKey tbl pkEncoded = reservedPrefix @ ''t/'' @ tbl @ ''/r/'' @ pkEncoded"

definition rowKeyPrefix :: "string \<Rightarrow> string" where
  "rowKeyPrefix tbl = reservedPrefix @ ''t/'' @ tbl @ ''/r/''"


section \<open>Path segments of \<open>net/url\<close>\<close>

definition unescaped :: "char \<Rightarrow> bool" where
  \<comment> \<open>the characters that \<open>shouldEscape\<close> leaves alone in a path segment\<close>
  "unescaped c \<longleftrightarrow>
     (let n = (of_char c :: nat) in
      (97 \<le> n \<and> n \<le> 122) \<or> (65 \<le> n \<and> n \<le> 90) \<or> (48 \<le> n \<and> n \<le> 57)
      \<or> c \<in> set ''-_.~$&+:=@'')"

definition upperhex :: "nat \<Rightarrow> char" where
  "upperhex d = (if d < 10 then char_of (48 + d) else char_of (55 + d))"

definition unhex :: "char \<Rightarrow> nat option" where
  "unhex c =
     (let n = (of_char c :: nat) in
      if 48 \<le> n \<and> n \<le> 57 then Some (n - 48)
      else if 97 \<le> n \<and> n \<le> 102 then Some (n - 87)
      else if 65 \<le> n \<and> n \<le> 70 then Some (n - 55)
      else None)"

fun pathEscape :: "string \<Rightarrow> string" where
  "pathEscape [] = []"
| "pathEscape (c # cs) =
     (if unescaped c then [c]
      else [CHR ''%'', upperhex (of_char c div 16), upperhex (of_char c mod 16)]) @ pathEscape cs"

fun pathUnescape :: "string \<Rightarrow> string res" where
  "pathUnescape [] = Inr []"
| "pathUnescape (c # cs) =
     (if c = CHR ''%'' then
        (case cs of
           a # b # ds \<Rightarrow>
             (case (unhex a, unhex b) of
                (Some x, Some y) \<Rightarrow>
                  ebind (pathUnescape ds) (\<lambda>t. Inr (char_of (x * 16 + y) # t))
              | _ \<Rightarrow> Inl ErrParse)
         | _ \<Rightarrow> Inl ErrParse)
      else ebind (pathUnescape cs) (\<lambda>t. Inr (c # t)))"


section \<open>Primary keys as text\<close>

definition encodePKString :: "string \<Rightarrow> string" where
  "encodePKString s = ''s:'' @ pathEscape s"

definition encodePKInt :: "i64 \<Rightarrow> string" where
  "encodePKInt v = ''i:'' @ formatInt v"

definition decodePK :: "string \<Rightarrow> (bool \<times> i64 \<times> string) res" where
  \<comment> \<open>\<open>isInt\<close>, \<open>i\<close>, \<open>s\<close>\<close>
  "decodePK encoded =
     (if hasPrefix encoded ''i:'' then
        (case parseInt (drop 2 encoded) of
           None \<Rightarrow> Inl ErrParse
         | Some v \<Rightarrow> Inr (True, v, []))
      else if hasPrefix encoded ''s:'' then
        ebind (pathUnescape (drop 2 encoded)) (\<lambda>raw. Inr (False, 0, raw))
      else Inl (ErrSQL ''bad primary key encoding''))"

definition parseRowKey :: "string \<Rightarrow> string \<Rightarrow> string option" where
  "parseRowKey tbl key =
     (let p = rowKeyPrefix tbl in
      if \<not> hasPrefix key p then None else Some (drop (length p) key))"


section \<open>Decoding inverts encoding\<close>

lemma of_char_upperhex:
  "d < 16 \<Longrightarrow> (of_char (upperhex d) :: nat) = (if d < 10 then 48 + d else 55 + d)"
  by (simp add: upperhex_def of_char_of)

lemma unhex_upperhex [simp]: "d < 16 \<Longrightarrow> unhex (upperhex d) = Some d"
  by (simp add: unhex_def of_char_upperhex)

lemma of_char_less_256: "(of_char c :: nat) < 256"
  by (simp add: of_char_def)

lemma nibbles [simp]:
  "(of_char c :: nat) div 16 < 16" "char_of ((of_char c :: nat) div 16 * 16 + of_char c mod 16) = c"
  using of_char_less_256 [of c] by (simp_all add: div_less_iff_less_mult)

lemma percent_escaped [simp]: "\<not> unescaped (CHR ''%'')"
  by code_simp

lemma pathUnescape_escape [simp]: "pathUnescape (pathEscape s) = Inr s"
  by (induction s) auto

lemma pathEscape_inj: "pathEscape s = pathEscape t \<longleftrightarrow> s = t"
  by (metis pathUnescape_escape sum.inject(2))

lemma decodePK_int [simp]: "decodePK (encodePKInt v) = Inr (True, v, [])"
  by (simp add: decodePK_def encodePKInt_def parseInt_formatInt)

lemma decodePK_string [simp]: "decodePK (encodePKString s) = Inr (False, 0, s)"
  by (simp add: decodePK_def encodePKString_def)

lemma rowKey_split: "rowKey tbl pk = rowKeyPrefix tbl @ pk"
  by (simp add: rowKey_def rowKeyPrefix_def)

lemma parseRowKey_rowKey [simp]: "parseRowKey tbl (rowKey tbl pk) = Some pk"
  by (simp add: parseRowKey_def rowKey_split)

lemma parseRowKey_Some: "parseRowKey tbl key = Some pk \<longleftrightarrow> key = rowKey tbl pk"
  by (auto simp: parseRowKey_def rowKey_split prefix_def Let_def)

lemma rowKey_reserved [simp]: "isReservedKey (rowKey tbl pk)"
  by (simp add: isReservedKey_def rowKey_def)

lemma catalogTableKey_reserved [simp]: "isReservedKey (catalogTableKey name)"
  by (simp add: isReservedKey_def catalogTableKey_def)

lemma rowKey_not_catalog [simp]:
  "rowKey tbl pk \<noteq> catalogTableKey name" "\<not> prefix catalogTablePrefix (rowKey tbl pk)"
  by (simp_all add: rowKey_def catalogTableKey_def catalogTablePrefix_def)

lemma table_name_unique:
  assumes "a @ ''/r/'' @ x = b @ ''/r/'' @ y" "CHR ''/'' \<notin> set a" "CHR ''/'' \<notin> set b"
  shows "a = b \<and> x = y"
proof -
  have split: "takeWhile (\<lambda>c. c \<noteq> CHR ''/'') (u @ ''/r/'' @ z) = u" if "CHR ''/'' \<notin> set u" for u z :: string
    using that by (induction u) auto
  from assms have "a = b" by (metis split)
  with assms(1) show ?thesis by simp
qed

lemma rowKey_table_unique:
  assumes "CHR ''/'' \<notin> set a" "CHR ''/'' \<notin> set b"
  shows "rowKey a x = rowKey b y \<longleftrightarrow> a = b \<and> x = y"
    and "prefix (rowKeyPrefix a) (rowKey b y) \<longleftrightarrow> a = b"
proof -
  show "rowKey a x = rowKey b y \<longleftrightarrow> a = b \<and> x = y"
    using table_name_unique [of a x b y] assms by (auto simp: rowKey_def)
  show "prefix (rowKeyPrefix a) (rowKey b y) \<longleftrightarrow> a = b"
    using table_name_unique [of b y a] assms by (auto simp: rowKey_def rowKeyPrefix_def prefix_def)
qed

end
