(* ===== verification/Db.thy ===== *)
theory Db
  imports Wal Keys
begin

text \<open>
  The multi-version store and its transactions: \<open>db.go\<close>, \<open>tx.go\<close>, \<open>scan.go\<close> and \<open>options.go\<close>.

  A database keeps for every key the list of its committed versions. A transaction is a handle (a
  number, the model of its address) with a read version and a map of pending writes. Every operation
  that takes the lock \<open>db.mu\<close> is one function on the state; operations that run concurrently are
  sequences of these. What the operating system answers to a write, a sync or a close is an argument.
\<close>

record valueVersion =
  vvVersion :: u64
  vvValue :: bytes
  vvDeleted :: bool

record db =
  dbFile :: bytes
  fileOpen :: bool
  history :: "(string, valueVersion list) fmap"
  version :: u64
  dbClosed :: bool
  active :: "(nat, u64) fmap"
  nextTx :: nat
  reads :: u64
  commits :: u64
  conflicts :: u64
  compactions :: u64

record tx =
  txId :: nat
  readVersion :: u64
  writable :: bool
  writes :: "(string, operation) fmap"
  txClosed :: bool

record metrics =
  mVersion :: u64
  mReads :: u64
  mCommits :: u64
  mConflicts :: u64
  mCompactions :: u64
  mCheckpoints :: u64
  mWALBytes :: nat
  mKeys :: nat

record options =
  autoCheckpoint :: bool
  checkpointEveryCommit :: u64
  checkpointMinBytes :: i64

definition DefaultOptions :: options where
  "DefaultOptions =
     \<lparr>autoCheckpoint = True, checkpointEveryCommit = 256, checkpointMinBytes = 1048576\<rparr>"


section \<open>The database\<close>

definition versionsOf :: "string \<Rightarrow> ('z) db_scheme \<Rightarrow> valueVersion list" where
  \<comment> \<open>\<open>db.history[key]\<close>, nil for a missing key\<close>
  "versionsOf key d = (case fmlookup (history d) key of None \<Rightarrow> [] | Some vs \<Rightarrow> vs)"

definition applyOp :: "u64 \<Rightarrow> ('z) db_scheme \<Rightarrow> operation \<Rightarrow> ('z) db_scheme" where
  "applyOp ver d op =
     d\<lparr>history := fmupd (opKey op)
         (versionsOf (opKey op) d @ [\<lparr>vvVersion = ver, vvValue = opValue op, vvDeleted = opDelete op\<rparr>])
         (history d)\<rparr>"

definition dbApply :: "('z) db_scheme \<Rightarrow> wrec \<Rightarrow> ('z) db_scheme" where
  "dbApply d rec =
     (let d1 = foldl (applyOp (recVersion rec)) d (recOps rec) in
      if recVersion rec > version d1 then d1\<lparr>version := recVersion rec\<rparr> else d1)"

definition emptyDb :: "bytes \<Rightarrow> db" where
  "emptyDb f =
     \<lparr>dbFile = f, fileOpen = True, history = fmempty, version = 0, dbClosed = False, active = fmempty,
      nextTx = 0, reads = 0, commits = 0, conflicts = 0, compactions = 0\<rparr>"

definition openStore :: "bytes \<Rightarrow> db res" where
  \<comment> \<open>\<open>OpenWithOptions\<close> up to the rebuild of the SQL state: replay, truncate at \<open>lastGood\<close>\<close>
  "openStore f =
     (case initWAL f of (f1, rs, r) \<Rightarrow>
        ebind r (\<lambda>lastGood.
          let d = foldl dbApply (emptyDb f1) rs in
          Inr (if length f1 \<noteq> lastGood then d\<lparr>dbFile := take lastGood f1\<rparr> else d)))"

definition dbBegin :: "bool \<Rightarrow> ('z) db_scheme \<Rightarrow> tx res \<times> ('z) db_scheme" where
  "dbBegin wr d =
     (if dbClosed d then (Inl ErrClosed, d)
      else
        let t = \<lparr>txId = nextTx d, readVersion = version d, writable = wr, writes = fmempty,
                 txClosed = False\<rparr>
        in (Inr t, d\<lparr>active := fmupd (txId t) (readVersion t) (active d), nextTx := Suc (nextTx d)\<rparr>))"

definition unregister :: "tx \<Rightarrow> ('z) db_scheme \<Rightarrow> ('z) db_scheme" where
  "unregister t d = d\<lparr>active := fmdrop (txId t) (active d)\<rparr>"

definition oldestReadVersion :: "('z) db_scheme \<Rightarrow> u64" where
  \<comment> \<open>the least of the registered versions; the order of the iteration does not matter\<close>
  "oldestReadVersion d =
     (case fmkeys (active d) of
        [] \<Rightarrow> version d
      | i # is \<Rightarrow> foldl (\<lambda>oldest j. let v = the (fmlookup (active d) j) in if v < oldest then v else oldest)
                   (the (fmlookup (active d) i)) is)"

definition liveKey :: "valueVersion list \<Rightarrow> bool" where
  "liveKey vs \<longleftrightarrow> vs \<noteq> [] \<and> \<not> vvDeleted (last vs)"

definition dbMetrics :: "u64 \<Rightarrow> ('z) db_scheme \<Rightarrow> metrics" where
  \<comment> \<open>the first argument is the counter of the checkpoint worker, 0 when there is none\<close>
  "dbMetrics ckpts d =
     \<lparr>mVersion = version d, mReads = reads d, mCommits = commits d, mConflicts = conflicts d,
      mCompactions = compactions d, mCheckpoints = ckpts,
      mWALBytes = (if fileOpen d then length (dbFile d) else 0),
      mKeys = length (filter (\<lambda>k. liveKey (versionsOf k d)) (fmkeys (history d)))\<rparr>"

definition dbClose :: "bool \<Rightarrow> ('z) db_scheme \<Rightarrow> err option \<times> ('z) db_scheme" where
  \<comment> \<open>the first argument says whether closing an open file succeeds\<close>
  "dbClose ok d =
     (if dbClosed d then (None, d)
      else (if ok \<and> fileOpen d then None else Some ErrIO, d\<lparr>dbClosed := True, fileOpen := False\<rparr>))"


section \<open>Transactions\<close>

definition latestAt :: "u64 \<Rightarrow> valueVersion list \<Rightarrow> valueVersion option" where
  \<comment> \<open>the loop from the newest version down to one that is not newer than the snapshot\<close>
  "latestAt rv vs = List.find (\<lambda>v. vvVersion v \<le> rv) (rev vs)"

definition txGet :: "string \<Rightarrow> tx \<Rightarrow> ('z) db_scheme \<Rightarrow> bytes option \<times> ('z) db_scheme" where
  "txGet key t d =
     (if txClosed t then (None, d)
      else
        (case fmlookup (writes t) key of
           Some op \<Rightarrow> (if opDelete op then None else Some (opValue op), d\<lparr>reads := reads d + 1\<rparr>)
         | None \<Rightarrow>
             ((case latestAt (readVersion t) (versionsOf key d) of
                 None \<Rightarrow> None
               | Some v \<Rightarrow> if vvDeleted v then None else Some (vvValue v)),
              d\<lparr>reads := reads d + 1\<rparr>)))"

definition txPut :: "string \<Rightarrow> bytes \<Rightarrow> tx \<Rightarrow> err option \<times> tx" where
  "txPut key val t =
     (if txClosed t then (Some ErrTxClosed, t)
      else if \<not> writable t then (Some ErrReadOnly, t)
      else (None, t\<lparr>writes := fmupd key \<lparr>opKey = key, opValue = val, opDelete = False\<rparr> (writes t)\<rparr>))"

definition txDel :: "string \<Rightarrow> tx \<Rightarrow> err option \<times> tx" where
  "txDel key t =
     (if txClosed t then (Some ErrTxClosed, t)
      else if \<not> writable t then (Some ErrReadOnly, t)
      else (None, t\<lparr>writes := fmupd key \<lparr>opKey = key, opValue = [], opDelete = True\<rparr> (writes t)\<rparr>))"

definition txSet :: "string \<Rightarrow> bytes \<Rightarrow> tx \<Rightarrow> err option \<times> tx" where
  "txSet key val t = (if isReservedKey key then (Some ErrReservedKey, t) else txPut key val t)"

definition txDelete :: "string \<Rightarrow> tx \<Rightarrow> err option \<times> tx" where
  "txDelete key t = (if isReservedKey key then (Some ErrReservedKey, t) else txDel key t)"

definition conflicting :: "tx \<Rightarrow> ('z) db_scheme \<Rightarrow> string \<Rightarrow> bool" where
  "conflicting t d key \<longleftrightarrow>
     (let vs = versionsOf key d in vs \<noteq> [] \<and> vvVersion (last vs) > readVersion t)"

definition appendTo :: "wrec \<Rightarrow> writeOutcome \<Rightarrow> ('z) db_scheme \<Rightarrow> err option \<times> ('z) db_scheme" where
  \<comment> \<open>\<open>appendRecord(db.file, rec)\<close>; a file that is no longer open refuses the write\<close>
  "appendTo rec out d =
     (if fileOpen d then (case appendRecord (dbFile d) rec out of (f, e) \<Rightarrow> (e, d\<lparr>dbFile := f\<rparr>))
      else (Some ErrIO, d))"

definition commitRecord :: "tx \<Rightarrow> ('z) db_scheme \<Rightarrow> wrec" where
  "commitRecord t d =
     \<lparr>recVersion = version d + 1, recOps = map (\<lambda>k. the (fmlookup (writes t) k)) (fmkeys (writes t))\<rparr>"

definition txCommit :: "writeOutcome \<Rightarrow> tx \<Rightarrow> ('z) db_scheme \<Rightarrow> err option \<times> tx \<times> ('z) db_scheme" where
  "txCommit out t d =
     (if txClosed t then (Some ErrTxClosed, t, d)
      else
        let t1 = t\<lparr>txClosed := True\<rparr> in
        if \<not> writable t then (None, t1, unregister t d)
        else if dbClosed d then (Some ErrClosed, t1, unregister t d)
        else
          let keys = fmkeys (writes t) in
          if list_ex (conflicting t d) keys then
            (Some ErrConflict, t1, unregister t (d\<lparr>conflicts := conflicts d + 1\<rparr>))
          else if keys = [] then (None, t1, unregister t d)
          else
            let rec = commitRecord t d in
            (case appendTo rec out d of
               (Some e, d1) \<Rightarrow> (Some e, t1, unregister t d1)
             | (None, d1) \<Rightarrow>
                 let d2 = dbApply d1 rec in
                 (None, t1, unregister t (d2\<lparr>commits := commits d2 + 1\<rparr>))))"

definition txRollback :: "tx \<Rightarrow> ('z) db_scheme \<Rightarrow> tx \<times> ('z) db_scheme" where
  "txRollback t d =
     (if txClosed t then (t, d)
      else (t\<lparr>txClosed := True, writes := fmempty\<rparr>, unregister t d))"

text \<open>
  A function passed to \<open>View\<close> or \<open>Update\<close> also sets variables of its caller; they are the second
  component of its result, and the first argument holds their values before the call.
\<close>

definition dbView :: "'a \<Rightarrow> (tx \<Rightarrow> ('z) db_scheme \<Rightarrow> err option \<times> 'a \<times> tx \<times> ('z) db_scheme) \<Rightarrow> ('z) db_scheme
    \<Rightarrow> err option \<times> 'a \<times> ('z) db_scheme" where
  "dbView vars fn d =
     (case dbBegin False d of
        (Inl e, d1) \<Rightarrow> (Some e, vars, d1)
      | (Inr t, d1) \<Rightarrow> (case fn t d1 of (e, x, t2, d2) \<Rightarrow> (e, x, snd (txRollback t2 d2))))"

definition dbUpdate :: "writeOutcome \<Rightarrow> 'a \<Rightarrow> (tx \<Rightarrow> ('z) db_scheme \<Rightarrow> err option \<times> 'a \<times> tx \<times> ('z) db_scheme)
    \<Rightarrow> ('z) db_scheme \<Rightarrow> err option \<times> 'a \<times> ('z) db_scheme" where
  "dbUpdate out vars fn d =
     (case dbBegin True d of
        (Inl e, d1) \<Rightarrow> (Some e, vars, d1)
      | (Inr t, d1) \<Rightarrow>
          (case fn t d1 of
             (Some e, x, t2, d2) \<Rightarrow> (Some e, x, snd (txRollback t2 d2))
           | (None, x, t2, d2) \<Rightarrow>
               (case txCommit out t2 d2 of (e, t3, d3) \<Rightarrow> (e, x, snd (txRollback t3 d3)))))"


section \<open>Prefix scans\<close>

type_synonym scanState = "string list \<times> (string \<times> bytes) list"  \<comment> \<open>\<open>seen\<close>, \<open>out\<close>\<close>

definition scanAdd :: "string \<Rightarrow> string \<Rightarrow> bytes \<Rightarrow> bool \<Rightarrow> scanState \<Rightarrow> scanState" where
  "scanAdd pre key val deleted s =
     (case s of (seen, out) \<Rightarrow>
        if \<not> hasPrefix key pre then (seen, out)
        else if key \<in> set seen then (seen, out)
        else if deleted then (key # seen, out)
        else (key # seen, out @ [(key, val)]))"

definition scanWrites :: "string \<Rightarrow> tx \<Rightarrow> scanState \<Rightarrow> scanState" where
  "scanWrites pre t s =
     foldl (\<lambda>s key. let op = the (fmlookup (writes t) key) in scanAdd pre key (opValue op) (opDelete op) s)
       s (fmkeys (writes t))"

definition scanKey :: "string \<Rightarrow> tx \<Rightarrow> ('z) db_scheme \<Rightarrow> scanState \<Rightarrow> string \<Rightarrow> scanState" where
  \<comment> \<open>one turn of the loop over the history\<close>
  "scanKey pre t d s key =
     (if key \<in> set (fst s) then s
      else if \<not> hasPrefix key pre then s
      else (case latestAt (readVersion t) (versionsOf key d) of
              None \<Rightarrow> s
            | Some v \<Rightarrow> scanAdd pre key (vvValue v) (vvDeleted v) s))"

definition scanHistory :: "string \<Rightarrow> tx \<Rightarrow> ('z) db_scheme \<Rightarrow> scanState \<Rightarrow> scanState" where
  "scanHistory pre t d s = foldl (scanKey pre t d) s (fmkeys (history d))"

definition scanPrefix :: "string \<Rightarrow> tx \<Rightarrow> ('z) db_scheme \<Rightarrow> (string \<times> bytes) list \<times> ('z) db_scheme" where
  "scanPrefix pre t d =
     (if txClosed t then ([], d)
      else
        (case scanHistory pre t d (scanWrites pre t ([], [])) of (seen, out) \<Rightarrow>
           (sort_key fst out, d\<lparr>reads := reads d + of_nat (length out)\<rparr>)))"


section \<open>What a snapshot reads\<close>

definition readAt :: "u64 \<Rightarrow> valueVersion list \<Rightarrow> bytes option" where
  \<comment> \<open>what a snapshot with this read version sees of a key with these versions\<close>
  "readAt rv vs =
     (case latestAt rv vs of None \<Rightarrow> None | Some v \<Rightarrow> if vvDeleted v then None else Some (vvValue v))"

definition current :: "('z) db_scheme \<Rightarrow> string \<Rightarrow> bytes option" where
  \<comment> \<open>the value a transaction begun now would read\<close>
  "current d k = readAt (version d) (versionsOf k d)"

lemma latestAt_append:
  "latestAt rv (xs @ ys) = (case latestAt rv ys of None \<Rightarrow> latestAt rv xs | Some v \<Rightarrow> Some v)"
proof -
  have "List.find P (xs @ ys) = (case List.find P xs of None \<Rightarrow> List.find P ys | Some v \<Rightarrow> Some v)"
    for P :: "valueVersion \<Rightarrow> bool" and xs ys
    by (induction xs) auto
  then show ?thesis unfolding latestAt_def by simp
qed

lemma latestAt_Nil [simp]: "latestAt rv [] = None"
  by (simp add: latestAt_def)

lemma latestAt_single [simp]: "latestAt rv [v] = (if vvVersion v \<le> rv then Some v else None)"
  by (simp add: latestAt_def)

lemma latestAt_None: "latestAt rv vs = None \<longleftrightarrow> (\<forall>v\<in>set vs. \<not> vvVersion v \<le> rv)"
  by (auto simp: latestAt_def find_None_iff)

lemma readAt_simps [simp]:
  "readAt rv [] = None"
  "readAt rv (vs @ [v]) =
     (if vvVersion v \<le> rv then if vvDeleted v then None else Some (vvValue v) else readAt rv vs)"
  by (simp_all add: readAt_def latestAt_append)

definition viewOf :: "tx \<Rightarrow> ('z) db_scheme \<Rightarrow> string \<Rightarrow> bytes option" where
  \<comment> \<open>what an open transaction sees: its own writes over its snapshot\<close>
  "viewOf t d k =
     (case fmlookup (writes t) k of
        Some op \<Rightarrow> if opDelete op then None else Some (opValue op)
      | None \<Rightarrow> readAt (readVersion t) (versionsOf k d))"

lemma txGet_view: "\<not> txClosed t \<Longrightarrow> txGet k t d = (viewOf t d k, d\<lparr>reads := reads d + 1\<rparr>)"
  by (auto simp: txGet_def viewOf_def readAt_def split: option.splits)

lemma versionsOf_applyOp:
  "versionsOf k (applyOp ver d op) =
     versionsOf k d @ (if opKey op = k then [\<lparr>vvVersion = ver, vvValue = opValue op, vvDeleted = opDelete op\<rparr>] else [])"
  by (simp add: applyOp_def versionsOf_def)

lemma applyOp_fields [simp]:
  "version (applyOp ver d op) = version d" "active (applyOp ver d op) = active d"
  "nextTx (applyOp ver d op) = nextTx d" "fileOpen (applyOp ver d op) = fileOpen d"
  "dbClosed (applyOp ver d op) = dbClosed d" "dbFile (applyOp ver d op) = dbFile d"
  by (simp_all add: applyOp_def)

lemma foldl_applyOp:
  "versionsOf k (foldl (applyOp ver) d ops) = versionsOf k d
     @ map (\<lambda>op. \<lparr>vvVersion = ver, vvValue = opValue op, vvDeleted = opDelete op\<rparr>) (filter (\<lambda>op. opKey op = k) ops)"
  "version (foldl (applyOp ver) d ops) = version d" "active (foldl (applyOp ver) d ops) = active d"
  "nextTx (foldl (applyOp ver) d ops) = nextTx d" "fileOpen (foldl (applyOp ver) d ops) = fileOpen d"
  "dbClosed (foldl (applyOp ver) d ops) = dbClosed d" "dbFile (foldl (applyOp ver) d ops) = dbFile d"
  by (induction ops arbitrary: d) (simp_all add: versionsOf_applyOp)

lemma versionsOf_update [simp]:
  "versionsOf k (d\<lparr>version := v\<rparr>) = versionsOf k d" "versionsOf k (d\<lparr>dbFile := f\<rparr>) = versionsOf k d"
  "versionsOf k (d\<lparr>active := ac\<rparr>) = versionsOf k d" "versionsOf k (d\<lparr>nextTx := n\<rparr>) = versionsOf k d"
  "versionsOf k (d\<lparr>reads := r\<rparr>) = versionsOf k d" "versionsOf k (d\<lparr>commits := r\<rparr>) = versionsOf k d"
  "versionsOf k (d\<lparr>conflicts := r\<rparr>) = versionsOf k d" "versionsOf k (d\<lparr>compactions := r\<rparr>) = versionsOf k d"
  "versionsOf k (d\<lparr>fileOpen := b\<rparr>) = versionsOf k d" "versionsOf k (d\<lparr>dbClosed := b\<rparr>) = versionsOf k d"
  by (simp_all add: versionsOf_def)

lemma dbApply_versions:
  "versionsOf k (dbApply d r) = versionsOf k d
     @ map (\<lambda>op. \<lparr>vvVersion = recVersion r, vvValue = opValue op, vvDeleted = opDelete op\<rparr>)
         (filter (\<lambda>op. opKey op = k) (recOps r))"
  by (simp add: dbApply_def Let_def foldl_applyOp)

lemma dbApply_fields [simp]:
  "version (dbApply d r) = max (version d) (recVersion r)" "active (dbApply d r) = active d"
  "nextTx (dbApply d r) = nextTx d" "fileOpen (dbApply d r) = fileOpen d"
  "dbClosed (dbApply d r) = dbClosed d" "dbFile (dbApply d r) = dbFile d"
  by (auto simp: dbApply_def Let_def foldl_applyOp max_def not_less intro: antisym)

lemma fmkeys_filter_key: "filter (\<lambda>j. j = k) (fmkeys m) = (if fmlookup m k = None then [] else [k])"
proof -
  have "filter (\<lambda>j. j = k) xs = (if k \<in> set xs then [k] else [])" if "distinct xs" for xs
    using that by (induction xs) auto
  then show ?thesis using distinct_fmkeys [of m] by (simp add: fmdom_lookup)
qed

definition writesKeyed :: "tx \<Rightarrow> bool" where
  \<comment> \<open>every pending operation is stored under its own key\<close>
  "writesKeyed t \<longleftrightarrow> (\<forall>k op. fmlookup (writes t) k = Some op \<longrightarrow> opKey op = k)"

lemma commitRecord_ops:
  assumes "writesKeyed t"
  shows "filter (\<lambda>op. opKey op = k) (recOps (commitRecord t d)) =
    (case fmlookup (writes t) k of None \<Rightarrow> [] | Some op \<Rightarrow> [op])"
proof -
  have "opKey (the (fmlookup (writes t) j)) = j" if "j \<in> set (fmkeys (writes t))" for j
    using assms that by (auto simp: writesKeyed_def fmdom_lookup)
  then have "filter (\<lambda>j. opKey (the (fmlookup (writes t) j)) = k) (fmkeys (writes t)) = filter (\<lambda>j. j = k) (fmkeys (writes t))"
    by (intro filter_cong) simp_all
  then show ?thesis
    by (auto simp: commitRecord_def filter_map comp_def fmkeys_filter_key split: option.splits)
qed


section \<open>What a scan returns\<close>

lemma scanWrites_result:
  "scanWrites pre t ([], []) =
     (rev (filter (prefix pre) (fmkeys (writes t))),
      map (\<lambda>k. (k, opValue (the (fmlookup (writes t) k))))
        (filter (\<lambda>k. prefix pre k \<and> \<not> opDelete (the (fmlookup (writes t) k))) (fmkeys (writes t))))"
proof -
  have "distinct ks \<Longrightarrow> set ks \<inter> set seen = {} \<Longrightarrow>
      foldl (\<lambda>s key. let op = the (fmlookup (writes t) key) in scanAdd pre key (opValue op) (opDelete op) s) (seen, out) ks
    = (rev (filter (prefix pre) ks) @ seen,
       out @ map (\<lambda>k. (k, opValue (the (fmlookup (writes t) k))))
         (filter (\<lambda>k. prefix pre k \<and> \<not> opDelete (the (fmlookup (writes t) k))) ks))" for ks seen out
    by (induction ks arbitrary: seen out) (auto simp: scanAdd_def Let_def)
  then show ?thesis by (simp add: scanWrites_def)
qed

definition scanned :: "string \<Rightarrow> tx \<Rightarrow> ('z) db_scheme \<Rightarrow> string list \<Rightarrow> string \<Rightarrow> bool" where
  "scanned pre t d seen k \<longleftrightarrow>
     k \<notin> set seen \<and> prefix pre k \<and> readAt (readVersion t) (versionsOf k d) \<noteq> None"

lemma scanKey_result:
  "\<exists>seen'. scanKey pre t d (seen, out) k =
     (seen', out @ (if scanned pre t d seen k then [(k, the (readAt (readVersion t) (versionsOf k d)))] else []))
     \<and> (seen' = seen \<or> seen' = k # seen)"
  by (cases "k \<in> set seen"; cases "prefix pre k"; cases "latestAt (readVersion t) (versionsOf k d)")
    (simp_all add: scanKey_def scanAdd_def scanned_def readAt_def)

lemma scanHistory_keys:
  "distinct ks \<Longrightarrow>
   snd (foldl (scanKey pre t d) (seen, out) ks) =
     out @ map (\<lambda>k. (k, the (readAt (readVersion t) (versionsOf k d)))) (filter (scanned pre t d seen) ks)"
proof (induction ks arbitrary: seen out)
  case (Cons k ks)
  from scanKey_result [of pre t d seen out k] obtain seen' where s:
    "scanKey pre t d (seen, out) k =
       (seen', out @ (if scanned pre t d seen k then [(k, the (readAt (readVersion t) (versionsOf k d)))] else []))"
    "seen' = seen \<or> seen' = k # seen" by blast
  have "filter (scanned pre t d seen') ks = filter (scanned pre t d seen) ks"
    using s(2) Cons.prems by (intro filter_cong) (auto simp: scanned_def)
  then show ?case using Cons by (simp add: s(1))
qed simp

lemma scanHistory_result:
  "snd (scanHistory pre t d (seen, out)) = out @
     map (\<lambda>k. (k, the (readAt (readVersion t) (versionsOf k d)))) (filter (scanned pre t d seen) (fmkeys (history d)))"
  by (simp add: scanHistory_def scanHistory_keys)

lemma sorted_pairs_unique:
  assumes "distinct (map fst out)" "set out = (\<lambda>k. (k, f k)) ` set ks" "sorted ks" "distinct ks"
  shows "sort_key fst out = map (\<lambda>k. (k, f k)) ks"
proof -
  have k: "map fst (sort_key fst out) = ks"
  proof (rule sorted_distinct_set_unique)
    show "sorted (map fst (sort_key fst out))" by simp
    show "distinct (map fst (sort_key fst out))"
      using assms(1) by (simp add: distinct_map)
    show "set (map fst (sort_key fst out)) = set ks" using assms(2) by force
  qed (use assms in simp_all)
  have "sort_key fst out = map (\<lambda>p. (fst p, f (fst p))) (sort_key fst out)"
    using assms(2) by (intro map_idI [symmetric]) auto
  also have "\<dots> = map (\<lambda>k. (k, f k)) (map fst (sort_key fst out))" by simp
  finally show ?thesis by (simp only: k)
qed

lemma scanPrefix_view:
  assumes "\<not> txClosed t" "sorted ks" "distinct ks"
    and ks: "\<And>k. k \<in> set ks \<longleftrightarrow> prefix pre k \<and> viewOf t d k \<noteq> None"
  shows "fst (scanPrefix pre t d) = map (\<lambda>k. (k, the (viewOf t d k))) ks"
proof -
  let ?W = "fmkeys (writes t)" and ?H = "fmkeys (history d)"
  let ?wr = "\<lambda>k. the (fmlookup (writes t) k)" and ?rd = "\<lambda>k. readAt (readVersion t) (versionsOf k d)"
  let ?ws = "filter (\<lambda>k. prefix pre k \<and> \<not> opDelete (?wr k)) ?W"
  let ?hs = "filter (scanned pre t d (rev (filter (prefix pre) ?W))) ?H"
  define out where "out = map (\<lambda>k. (k, opValue (?wr k))) ?ws @ map (\<lambda>k. (k, the (?rd k))) ?hs"
  have res: "fst (scanPrefix pre t d) = sort_key fst out"
    using assms(1) scanHistory_result [of pre t d "rev (filter (prefix pre) ?W)" "map (\<lambda>k. (k, opValue (?wr k))) ?ws"]
    by (cases "scanHistory pre t d (scanWrites pre t ([], []))")
      (simp add: scanPrefix_def scanWrites_result out_def)
  have inW: "k \<in> set ?W \<longleftrightarrow> fmlookup (writes t) k \<noteq> None" for k by (simp add: fmdom_lookup)
  have inH: "?rd k \<noteq> None \<Longrightarrow> k \<in> set ?H" for k
    by (cases "fmlookup (history d) k") (auto simp: fmdom_lookup versionsOf_def)
  have ws: "map (\<lambda>k. (k, opValue (?wr k))) ?ws = map (\<lambda>k. (k, the (viewOf t d k))) ?ws"
    using inW by (auto simp: viewOf_def)
  have hs: "map (\<lambda>k. (k, the (?rd k))) ?hs = map (\<lambda>k. (k, the (viewOf t d k))) ?hs"
    using inW by (auto simp: viewOf_def scanned_def split: option.splits)
  have out: "out = map (\<lambda>k. (k, the (viewOf t d k))) (?ws @ ?hs)" by (simp only: out_def ws hs map_append)
  have mem: "k \<in> set (?ws @ ?hs) \<longleftrightarrow> prefix pre k \<and> viewOf t d k \<noteq> None" for k
    using inW [of k] inH [of k] by (cases "fmlookup (writes t) k") (auto simp: viewOf_def scanned_def)
  have "set (?ws @ ?hs) = set ks" using mem ks by blast
  then have "set out = (\<lambda>k. (k, the (viewOf t d k))) ` set ks" unfolding out by (simp only: set_map)
  moreover have "distinct (?ws @ ?hs)" by (auto simp: scanned_def)
  then have "distinct (map fst out)" unfolding out by (simp add: comp_def)
  ultimately show ?thesis
    unfolding res using assms(2,3) by (intro sorted_pairs_unique)
qed

end
