(* ===== verification/Mvcc.thy ===== *)
theory Mvcc
  imports Compact
begin

text \<open>
  Interleaved transactions. The system is a database with the transactions that were begun on it; a
  step is one call of the API, made by any client, or a compaction. The specification is snapshot
  isolation in its textbook form: a current map, a copy of it for every transaction, a map of pending
  writes, and a stamp per key that tells when it was last written. The main result is that the
  multi-version store gives the same answers as the specification in every interleaving.
\<close>

section \<open>The system\<close>

record sys =
  sdb :: db
  txs :: "(nat, tx) fmap"

datatype event =
    EvBegin bool
  | EvGet nat string
  | EvScan nat string
  | EvSet nat string bytes
  | EvDelete nat string
  | EvPut nat string bytes    \<comment> \<open>the internal \<open>tx.put\<close>, also for reserved keys\<close>
  | EvDel nat string          \<comment> \<open>the internal \<open>tx.del\<close>\<close>
  | EvCommit nat writeOutcome
  | EvRollback nat
  | EvCompact compactOutcome
  | EvClose bool

datatype response =
    RTx nat
  | RVal "bytes option"
  | RPairs "(string \<times> bytes) list"
  | RErr "err option"
  | RNoTx                     \<comment> \<open>there is no such transaction\<close>

definition txWrite :: "nat \<Rightarrow> (tx \<Rightarrow> err option \<times> tx) \<Rightarrow> sys \<Rightarrow> sys \<times> response" where
  "txWrite i f s =
     (case fmlookup (txs s) i of
        None \<Rightarrow> (s, RNoTx)
      | Some t \<Rightarrow> (case f t of (e, t1) \<Rightarrow> (s\<lparr>txs := fmupd i t1 (txs s)\<rparr>, RErr e)))"

fun sysStep :: "sys \<Rightarrow> event \<Rightarrow> sys \<times> response" where
  "sysStep s (EvBegin wr) =
     (case dbBegin wr (sdb s) of
        (Inl e, d) \<Rightarrow> (s\<lparr>sdb := d\<rparr>, RErr (Some e))
      | (Inr t, d) \<Rightarrow> (\<lparr>sdb = d, txs = fmupd (txId t) t (txs s)\<rparr>, RTx (txId t)))"
| "sysStep s (EvGet i k) =
     (case fmlookup (txs s) i of
        None \<Rightarrow> (s, RNoTx)
      | Some t \<Rightarrow> (case txGet k t (sdb s) of (v, d) \<Rightarrow> (s\<lparr>sdb := d\<rparr>, RVal v)))"
| "sysStep s (EvScan i p) =
     (case fmlookup (txs s) i of
        None \<Rightarrow> (s, RNoTx)
      | Some t \<Rightarrow> (case scanPrefix p t (sdb s) of (ps, d) \<Rightarrow> (s\<lparr>sdb := d\<rparr>, RPairs ps)))"
| "sysStep s (EvSet i k v) = txWrite i (txSet k v) s"
| "sysStep s (EvDelete i k) = txWrite i (txDelete k) s"
| "sysStep s (EvPut i k v) = txWrite i (txPut k v) s"
| "sysStep s (EvDel i k) = txWrite i (txDel k) s"
| "sysStep s (EvCommit i out) =
     (case fmlookup (txs s) i of
        None \<Rightarrow> (s, RNoTx)
      | Some t \<Rightarrow> (case txCommit out t (sdb s) of (e, t1, d) \<Rightarrow> (\<lparr>sdb = d, txs = fmupd i t1 (txs s)\<rparr>, RErr e)))"
| "sysStep s (EvRollback i) =
     (case fmlookup (txs s) i of
        None \<Rightarrow> (s, RNoTx)
      | Some t \<Rightarrow> (case txRollback t (sdb s) of (t1, d) \<Rightarrow> (\<lparr>sdb = d, txs = fmupd i t1 (txs s)\<rparr>, RErr None)))"
| "sysStep s (EvCompact out) = (case compact out (sdb s) of (e, d) \<Rightarrow> (s\<lparr>sdb := d\<rparr>, RErr e))"
| "sysStep s (EvClose ok) = (case dbClose ok (sdb s) of (e, d) \<Rightarrow> (s\<lparr>sdb := d\<rparr>, RErr e))"

definition initSys :: "db \<Rightarrow> sys" where
  "initSys d = \<lparr>sdb = d, txs = fmempty\<rparr>"


section \<open>The specification: snapshot isolation\<close>

record spectx =
  sSnap :: "(string, bytes) fmap"
  sStart :: nat
  sWritable :: bool
  sWrites :: "(string, bytes option) fmap"
  sOpen :: bool

record spec =
  sCur :: "(string, bytes) fmap"
  sVer :: nat
  sStamp :: "(string, nat) fmap"
  sTxs :: "(nat, spectx) fmap"
  sNext :: nat
  sClosed :: bool
  sStorage :: bool  \<comment> \<open>the log file is open\<close>

definition overlay :: "(string, bytes) fmap \<Rightarrow> (string, bytes option) fmap \<Rightarrow> (string, bytes) fmap" where
  "overlay m w =
     foldr (\<lambda>k m. case fmlookup w k of Some (Some v) \<Rightarrow> fmupd k v m | _ \<Rightarrow> fmdrop k m) (fmkeys w) m"

definition stampOf :: "string \<Rightarrow> spec \<Rightarrow> nat" where
  "stampOf k a = (case fmlookup (sStamp a) k of None \<Rightarrow> 0 | Some n \<Rightarrow> n)"

lemma stampOf_update [simp]:
  "stampOf k (a\<lparr>sClosed := b\<rparr>) = stampOf k a" "stampOf k (a\<lparr>sStorage := b\<rparr>) = stampOf k a"
  by (simp_all add: stampOf_def)

definition pairsOf :: "string \<Rightarrow> (string, bytes) fmap \<Rightarrow> (string \<times> bytes) list" where
  "pairsOf p m = map (\<lambda>k. (k, the (fmlookup m k))) (filter (prefix p) (fmkeys m))"

definition specWrite :: "nat \<Rightarrow> string \<Rightarrow> bytes option \<Rightarrow> bool \<Rightarrow> spec \<Rightarrow> spec \<times> response" where
  "specWrite i k v user a =
     (case fmlookup (sTxs a) i of
        None \<Rightarrow> (a, RNoTx)
      | Some t \<Rightarrow>
          if user \<and> isReservedKey k then (a, RErr (Some ErrReservedKey))
          else if \<not> sOpen t then (a, RErr (Some ErrTxClosed))
          else if \<not> sWritable t then (a, RErr (Some ErrReadOnly))
          else (a\<lparr>sTxs := fmupd i (t\<lparr>sWrites := fmupd k v (sWrites t)\<rparr>) (sTxs a)\<rparr>, RErr None))"

definition specEnd :: "nat \<Rightarrow> spectx \<Rightarrow> spec \<Rightarrow> spec" where
  "specEnd i t a = a\<lparr>sTxs := fmupd i (t\<lparr>sOpen := False\<rparr>) (sTxs a)\<rparr>"

definition specCommit :: "nat \<Rightarrow> spectx \<Rightarrow> writeOutcome \<Rightarrow> spec \<Rightarrow> spec \<times> response" where
  "specCommit i t out a =
     (if \<not> sOpen t then (a, RErr (Some ErrTxClosed))
      else if \<not> sWritable t then (specEnd i t a, RErr None)
      else if sClosed a then (specEnd i t a, RErr (Some ErrClosed))
      else if list_ex (\<lambda>k. sStart t < stampOf k a) (fmkeys (sWrites t)) then
        (specEnd i t a, RErr (Some ErrConflict))
      else if fmkeys (sWrites t) = [] then (specEnd i t a, RErr None)
      else if \<not> sStorage a \<or> out \<noteq> WriteOk then (specEnd i t a, RErr (Some ErrIO))
      else
        (specEnd i t
           (a\<lparr>sCur := overlay (sCur a) (sWrites t), sVer := sVer a + 1,
              sStamp := foldr (\<lambda>k. fmupd k (sVer a + 1)) (fmkeys (sWrites t)) (sStamp a)\<rparr>),
         RErr None))"

definition specCompact :: "compactOutcome \<Rightarrow> spec \<Rightarrow> spec \<times> response" where
  \<comment> \<open>a compaction changes nothing that a transaction can see; it may lose the log file\<close>
  "specCompact out a =
     (if sClosed a then (a, RErr (Some ErrClosed))
      else
        case out of
          TmpFails \<Rightarrow> (a, RErr (Some ErrIO))
        | CloseFails \<Rightarrow> (a\<lparr>sStorage := False\<rparr>, RErr (Some ErrIO))
        | RenameFails ok \<Rightarrow> (a\<lparr>sStorage := sStorage a \<and> ok\<rparr>, RErr (Some ErrIO))
        | ReopenFails \<Rightarrow> (if sStorage a then a\<lparr>sStorage := False, sClosed := True\<rparr> else a, RErr (Some ErrIO))
        | CompactOk \<Rightarrow> (a, RErr (if sStorage a then None else Some ErrIO)))"

fun specStep :: "spec \<Rightarrow> event \<Rightarrow> spec \<times> response" where
  "specStep a (EvBegin wr) =
     (if sClosed a then (a, RErr (Some ErrClosed))
      else
        (a\<lparr>sTxs := fmupd (sNext a) \<lparr>sSnap = sCur a, sStart = sVer a, sWritable = wr, sWrites = fmempty,
             sOpen = True\<rparr> (sTxs a), sNext := Suc (sNext a)\<rparr>, RTx (sNext a)))"
| "specStep a (EvGet i k) =
     (case fmlookup (sTxs a) i of
        None \<Rightarrow> (a, RNoTx)
      | Some t \<Rightarrow> (a, RVal (if sOpen t then fmlookup (overlay (sSnap t) (sWrites t)) k else None)))"
| "specStep a (EvScan i p) =
     (case fmlookup (sTxs a) i of
        None \<Rightarrow> (a, RNoTx)
      | Some t \<Rightarrow> (a, RPairs (if sOpen t then pairsOf p (overlay (sSnap t) (sWrites t)) else [])))"
| "specStep a (EvSet i k v) = specWrite i k (Some v) True a"
| "specStep a (EvDelete i k) = specWrite i k None True a"
| "specStep a (EvPut i k v) = specWrite i k (Some v) False a"
| "specStep a (EvDel i k) = specWrite i k None False a"
| "specStep a (EvCommit i out) =
     (case fmlookup (sTxs a) i of None \<Rightarrow> (a, RNoTx) | Some t \<Rightarrow> specCommit i t out a)"
| "specStep a (EvRollback i) =
     (case fmlookup (sTxs a) i of
        None \<Rightarrow> (a, RNoTx)
      | Some t \<Rightarrow>
          (if sOpen t then specEnd i (t\<lparr>sWrites := fmempty\<rparr>) a else a, RErr None))"
| "specStep a (EvCompact out) = specCompact out a"
| "specStep a (EvClose ok) =
     (if sClosed a then (a, RErr None)
      else (a\<lparr>sClosed := True, sStorage := False\<rparr>, RErr (if ok \<and> sStorage a then None else Some ErrIO)))"

definition initSpec :: spec where
  "initSpec =
     \<lparr>sCur = fmempty, sVer = 0, sStamp = fmempty, sTxs = fmempty, sNext = 0, sClosed = False, sStorage = True\<rparr>"

lemma overlay_lookup:
  "fmlookup (overlay m w) k = (case fmlookup w k of None \<Rightarrow> fmlookup m k | Some v \<Rightarrow> v)"
proof -
  have "fmlookup (foldr (\<lambda>k m. case fmlookup w k of Some (Some v) \<Rightarrow> fmupd k v m | _ \<Rightarrow> fmdrop k m) ks m) k
      = (if k \<in> set ks then (case fmlookup w k of None \<Rightarrow> None | Some v \<Rightarrow> v) else fmlookup m k)" for ks
    by (induction ks) (auto split: option.splits)
  then show ?thesis by (auto simp: overlay_def fmdom_lookup split: option.splits)
qed

lemma stamp_foldr:
  "fmlookup (foldr (\<lambda>k. fmupd k n) ks m) k = (if k \<in> set ks then Some n else fmlookup m k)"
  by (induction ks) auto


section \<open>The simulation relation\<close>

definition opView :: "operation \<Rightarrow> bytes option" where
  "opView op = (if opDelete op then None else Some (opValue op))"

definition storeRel :: "db \<Rightarrow> spec \<Rightarrow> bool" where
  \<comment> \<open>the store holds the current map, and the last version of a key carries its stamp; a key without
      versions was last written before every open snapshot\<close>
  "storeRel d a \<longleftrightarrow>
     sVer a = unat (version d) \<and> sClosed a = dbClosed d \<and> sStorage a = fileOpen d \<and> sNext a = nextTx d
     \<and> (\<forall>k. fmlookup (sCur a) k = readAt (version d) (versionsOf k d))
     \<and> (\<forall>k. \<forall>v\<in>set (versionsOf k d). vvVersion v \<le> version d)
     \<and> (\<forall>k. stampOf k a \<le> sVer a)
     \<and> (\<forall>k. versionsOf k d \<noteq> [] \<longrightarrow> stampOf k a = unat (vvVersion (last (versionsOf k d))))
     \<and> (\<forall>k i rv. versionsOf k d = [] \<longrightarrow> fmlookup (active d) i = Some rv \<longrightarrow> stampOf k a \<le> unat rv)
     \<and> (\<forall>i rv. fmlookup (active d) i = Some rv \<longrightarrow> rv \<le> version d)"

definition txRel :: "db \<Rightarrow> nat \<Rightarrow> tx \<Rightarrow> spectx \<Rightarrow> bool" where
  "txRel d i t st \<longleftrightarrow>
     txId t = i \<and> writesKeyed t \<and> sStart st = unat (readVersion t) \<and> sWritable st = writable t
     \<and> sOpen st = (\<not> txClosed t)
     \<and> (\<forall>k. fmlookup (sWrites st) k = map_option opView (fmlookup (writes t) k))
     \<and> (\<not> txClosed t \<longrightarrow> readVersion t \<le> version d \<and> fmlookup (active d) i = Some (readVersion t)
          \<and> (\<forall>k. fmlookup (sSnap st) k = readAt (readVersion t) (versionsOf k d)))"

definition sysRel :: "sys \<Rightarrow> spec \<Rightarrow> bool" where
  "sysRel s a \<longleftrightarrow>
     storeRel (sdb s) a
     \<and> (\<forall>i. rel_option (txRel (sdb s) i) (fmlookup (txs s) i) (fmlookup (sTxs a) i))
     \<and> (\<forall>i. nextTx (sdb s) \<le> i \<longrightarrow> fmlookup (txs s) i = None)"

definition sysSim :: "nat \<Rightarrow> sys \<Rightarrow> spec \<Rightarrow> bool" where
  \<comment> \<open>the version counter has room for the given number of further commits\<close>
  "sysSim n s a \<longleftrightarrow> sysRel s a \<and> unat (version (sdb s)) + n < 2 ^ 64"

definition step_ok :: "nat \<Rightarrow> sys \<times> response \<Rightarrow> spec \<times> response \<Rightarrow> bool" where
  "step_ok n c a \<longleftrightarrow> snd c = snd a \<and> sysSim n (fst c) (fst a)"

lemma sysSim_weaken: "sysSim (Suc n) s a \<Longrightarrow> sysSim n s a"
  by (simp add: sysSim_def)

lemma sysRel_tx:
  assumes "sysRel s a"
  obtains (none) "fmlookup (txs s) i = None" "fmlookup (sTxs a) i = None"
  | (tx) t st where "fmlookup (txs s) i = Some t" "fmlookup (sTxs a) i = Some st" "txRel (sdb s) i t st"
proof -
  from assms have "rel_option (txRel (sdb s) i) (fmlookup (txs s) i) (fmlookup (sTxs a) i)" by (simp add: sysRel_def)
  then show thesis by (cases rule: option.rel_cases) (use none tx in auto)
qed

text \<open>A step that leaves the versions and the registered snapshots alone, but for one transaction.\<close>

lemma sysRel_update:
  assumes "sysRel s a" "fmlookup (txs s) i = Some t0" "storeRel d' a'"
    and "sTxs a' = fmupd i st (sTxs a)" "txRel d' i t st" "nextTx d' = nextTx (sdb s)"
    and other: "\<And>j u su. j \<noteq> i \<Longrightarrow> txRel (sdb s) j u su \<Longrightarrow> txRel d' j u su"
  shows "sysRel \<lparr>sdb = d', txs = fmupd i t (txs s)\<rparr> a'"
proof -
  have "rel_option (txRel d' j) (fmlookup (fmupd i t (txs s)) j) (fmlookup (sTxs a') j)" for j
  proof (cases "j = i")
    case False
    then show ?thesis
      using assms(1,4) other [OF False] by (auto simp: sysRel_def intro: option.rel_mono_strong)
  qed (simp add: assms(4,5))
  moreover have "fmlookup (fmupd i t (txs s)) j = None" if "nextTx d' \<le> j" for j
  proof -
    have "fmlookup (txs s) j = None" using assms(1,6) that by (simp add: sysRel_def)
    then show ?thesis using assms(2) by auto
  qed
  ultimately show ?thesis using assms(3) by (simp add: sysRel_def)
qed

text \<open>Ending a transaction removes its snapshot from the active ones.\<close>

lemma storeRel_cong:
  assumes "storeRel d a" "version d' = version d" "history d' = history d" "nextTx d' = nextTx d"
    "fileOpen d' = fileOpen d" "dbClosed d' = dbClosed d"
    "\<And>i rv. fmlookup (active d') i = Some rv \<Longrightarrow> fmlookup (active d) i = Some rv"
    "sVer a' = sVer a" "sCur a' = sCur a" "sStamp a' = sStamp a" "sNext a' = sNext a" "sClosed a' = sClosed a"
    "sStorage a' = sStorage a"
  shows "storeRel d' a'"
proof -
  have eq: "versionsOf k d' = versionsOf k d" "stampOf k a' = stampOf k a" for k
    using assms by (simp_all add: versionsOf_def stampOf_def)
  show ?thesis
    using assms(1,7) unfolding storeRel_def eq assms(2,4-6,8-13) by blast
qed

lemma txRel_cong:
  assumes "txRel d i t st" "version d \<le> version d'" "\<not> txClosed t \<Longrightarrow> fmlookup (active d') i = fmlookup (active d) i"
    "\<And>k. \<not> txClosed t \<Longrightarrow> readAt (readVersion t) (versionsOf k d') = readAt (readVersion t) (versionsOf k d)"
  shows "txRel d' i t st"
  using assms unfolding txRel_def by (metis order_trans)


lemma sys_txs: "s\<lparr>txs := m\<rparr> = \<lparr>sdb = sdb s, txs = m\<rparr>"
  by simp

lemma sysRel_store:
  assumes "sysRel s a" "storeRel d' a'" "sTxs a' = sTxs a" "nextTx d' = nextTx (sdb s)"
    and "\<And>j t st. txRel (sdb s) j t st \<Longrightarrow> txRel d' j t st"
  shows "sysRel (s\<lparr>sdb := d'\<rparr>) a'"
  using assms by (auto simp: sysRel_def intro: option.rel_mono_strong)

lemma storeRel_reads: "storeRel d a \<Longrightarrow> storeRel (d\<lparr>reads := r\<rparr>) a"
  by (rule storeRel_cong) simp_all

lemma txRel_reads: "txRel d i t st \<Longrightarrow> txRel (d\<lparr>reads := r\<rparr>) i t st"
  by (rule txRel_cong) simp_all

lemma sysSim_reads: "sysSim n s a \<Longrightarrow> sysSim n (s\<lparr>sdb := (sdb s)\<lparr>reads := r\<rparr>\<rparr>) a"
  by (auto simp: sysSim_def intro!: sysRel_store storeRel_reads txRel_reads) (simp add: sysRel_def)


section \<open>One step of each kind\<close>

lemma view_overlay:
  assumes "txRel d i t st" "\<not> txClosed t"
  shows "fmlookup (overlay (sSnap st) (sWrites st)) k = viewOf t d k"
  using assms by (simp add: overlay_lookup viewOf_def txRel_def opView_def split: option.splits)

lemma step_get:
  assumes "sysSim (Suc n) s a"
  shows "step_ok n (sysStep s (EvGet i k)) (specStep a (EvGet i k))"
proof -
  have sim: "sysSim n s a" using assms by (rule sysSim_weaken)
  then have "sysRel s a" by (simp add: sysSim_def)
  then show ?thesis
  proof (cases rule: sysRel_tx [where i = i])
    case (tx t st)
    then have op: "sOpen st = (\<not> txClosed t)" by (simp add: txRel_def)
    show ?thesis
    proof (cases "txClosed t")
      case True
      then show ?thesis using sim tx op by (simp add: step_ok_def txGet_def)
    next
      case False
      then show ?thesis
        using tx op sysSim_reads [OF sim] view_overlay [OF tx(3) False] by (simp add: step_ok_def txGet_view)
    qed
  qed (use sim in \<open>simp add: step_ok_def\<close>)
qed

lemma scan_pairs:
  assumes "txRel d i t st" "\<not> txClosed t"
  shows "fst (scanPrefix p t d) = pairsOf p (overlay (sSnap st) (sWrites st))"
proof -
  let ?m = "overlay (sSnap st) (sWrites st)" let ?ks = "filter (prefix p) (fmkeys ?m)"
  have v: "fmlookup ?m k = viewOf t d k" for k using view_overlay [OF assms] .
  have "fst (scanPrefix p t d) = map (\<lambda>k. (k, the (viewOf t d k))) ?ks"
    using assms(2) v by (intro scanPrefix_view) (auto simp: sorted_wrt_filter fmdom_lookup)
  then show ?thesis by (simp add: pairsOf_def v)
qed

lemma step_scan:
  assumes "sysSim (Suc n) s a"
  shows "step_ok n (sysStep s (EvScan i p)) (specStep a (EvScan i p))"
proof -
  have sim: "sysSim n s a" using assms by (rule sysSim_weaken)
  then have "sysRel s a" by (simp add: sysSim_def)
  then show ?thesis
  proof (cases rule: sysRel_tx [where i = i])
    case (tx t st)
    then have op: "sOpen st = (\<not> txClosed t)" by (simp add: txRel_def)
    show ?thesis
    proof (cases "txClosed t")
      case True
      then show ?thesis using sim tx op by (simp add: step_ok_def scanPrefix_def)
    next
      case False
      obtain r where "snd (scanPrefix p t (sdb s)) = (sdb s)\<lparr>reads := r\<rparr>"
        using False
        by (cases "scanHistory p t (sdb s) (scanWrites p t ([], []))") (auto simp: scanPrefix_def)
      then show ?thesis
        using False tx op sysSim_reads [OF sim] scan_pairs [OF tx(3) False, of p]
        by (cases "scanPrefix p t (sdb s)") (simp add: step_ok_def)
    qed
  qed (use sim in \<open>simp add: step_ok_def\<close>)
qed

text \<open>The four ways to record a write differ in the guard for reserved keys and in the operation.\<close>

definition writeOp :: "string \<Rightarrow> bytes option \<Rightarrow> bool \<Rightarrow> tx \<Rightarrow> err option \<times> tx" where
  "writeOp k v user t =
     (if user \<and> isReservedKey k then (Some ErrReservedKey, t)
      else case v of None \<Rightarrow> txDel k t | Some b \<Rightarrow> txPut k b t)"

lemma writeOp_cases:
  "txSet k b = writeOp k (Some b) True" "txPut k b = writeOp k (Some b) False"
  "txDelete k = writeOp k None True" "txDel k = writeOp k None False"
  by (auto simp: writeOp_def txSet_def txDelete_def fun_eq_iff)

lemma txRel_write:
  assumes "txRel d i t st" "opKey op = k"
  shows "txRel d i (t\<lparr>writes := fmupd k op (writes t)\<rparr>) (st\<lparr>sWrites := fmupd k (opView op) (sWrites st)\<rparr>)"
  using assms by (auto simp: txRel_def writesKeyed_def)

lemma step_write:
  assumes "sysSim (Suc n) s a"
  shows "step_ok n (txWrite i (writeOp k v user) s) (specWrite i k v user a)"
proof -
  have sim: "sysSim n s a" using assms by (rule sysSim_weaken)
  then have rel: "sysRel s a" by (simp add: sysSim_def)
  then show ?thesis
  proof (cases rule: sysRel_tx [where i = i])
    case (tx t st)
    then have st: "sOpen st = (\<not> txClosed t)" "sWritable st = writable t" by (simp_all add: txRel_def)
    have same: "fmupd i t (txs s) = txs s"
      using tx(1) by (intro fmap_ext) auto
    let ?op = "\<lparr>opKey = k, opValue = (case v of None \<Rightarrow> [] | Some b \<Rightarrow> b), opDelete = (v = None)\<rparr>"
    have v: "opView ?op = v" by (cases v) (simp_all add: opView_def)
    show ?thesis
    proof (cases "user \<and> isReservedKey k \<or> txClosed t \<or> \<not> writable t")
      case True
      then show ?thesis
        using sim tx st same
        by (cases v) (auto simp: step_ok_def txWrite_def specWrite_def writeOp_def txPut_def txDel_def)
    next
      case False
      let ?t = "t\<lparr>writes := fmupd k ?op (writes t)\<rparr>" and ?st = "st\<lparr>sWrites := fmupd k v (sWrites st)\<rparr>"
      have "writeOp k v user t = (None, ?t)"
        using False by (cases v) (auto simp: writeOp_def txPut_def txDel_def)
      moreover have "sysRel (s\<lparr>txs := fmupd i ?t (txs s)\<rparr>) (a\<lparr>sTxs := fmupd i ?st (sTxs a)\<rparr>)"
      proof (rule sysRel_update [OF rel tx(1), where d' = "sdb s", folded sys_txs])
        show "storeRel (sdb s) (a\<lparr>sTxs := fmupd i ?st (sTxs a)\<rparr>)"
          using rel by (auto simp: sysRel_def intro: storeRel_cong)
        show "txRel (sdb s) i ?t ?st" using txRel_write [OF tx(3), of ?op k] v by simp
      qed simp_all
      ultimately show ?thesis
        using False tx st sim by (simp add: step_ok_def txWrite_def specWrite_def sysSim_def)
    qed
  qed (use sim in \<open>simp add: step_ok_def txWrite_def specWrite_def\<close>)
qed


text \<open>The end of a transaction: its snapshot is unregistered, nothing else changes.\<close>

lemma sysRel_end:
  assumes "sysRel s a" "fmlookup (txs s) i = Some t" "txRel (sdb s) i t st"
    and d: "version d = version (sdb s)" "history d = history (sdb s)" "nextTx d = nextTx (sdb s)"
      "fileOpen d = fileOpen (sdb s)" "dbClosed d = dbClosed (sdb s)" "active d = active (sdb s)"
    and t1: "txId t1 = i" "readVersion t1 = readVersion t" "writable t1 = writable t" "txClosed t1" "writesKeyed t1"
      "\<And>k. fmlookup (sWrites st1) k = map_option opView (fmlookup (writes t1) k)"
      "sStart st1 = sStart st" "sWritable st1 = sWritable st"
  shows "sysRel \<lparr>sdb = unregister t d, txs = fmupd i t1 (txs s)\<rparr> (specEnd i st1 a)"
proof (rule sysRel_update [OF assms(1,2)])
  have id: "txId t = i" using assms(3) by (simp add: txRel_def)
  show "storeRel (unregister t d) (specEnd i st1 a)"
    by (rule storeRel_cong [of "sdb s" a])
      (use assms(1) d in \<open>auto simp: sysRel_def unregister_def specEnd_def split: if_splits\<close>)
  show "txRel (unregister t d) i t1 (st1\<lparr>sOpen := False\<rparr>)"
    using assms(3) t1 by (simp add: txRel_def)
  show "txRel (unregister t d) j u su" if "j \<noteq> i" "txRel (sdb s) j u su" for j u su
    using that(2)
  proof (rule txRel_cong)
    show "readAt (readVersion u) (versionsOf k (unregister t d)) = readAt (readVersion u) (versionsOf k (sdb s))" for k
      using d(2) by (simp add: versionsOf_def unregister_def)
  qed (use that id d in \<open>simp_all add: unregister_def\<close>)
qed (use d in \<open>simp_all add: specEnd_def unregister_def\<close>)

lemma step_rollback:
  assumes "sysSim (Suc n) s a"
  shows "step_ok n (sysStep s (EvRollback i)) (specStep a (EvRollback i))"
proof -
  have sim: "sysSim n s a" using assms by (rule sysSim_weaken)
  then have rel: "sysRel s a" by (simp add: sysSim_def)
  then show ?thesis
  proof (cases rule: sysRel_tx [where i = i])
    case (tx t st)
    then have op: "sOpen st = (\<not> txClosed t)" "txId t = i" by (simp_all add: txRel_def)
    have same: "\<lparr>sdb = sdb s, txs = fmupd i t (txs s)\<rparr> = s"
      using tx(1) by (cases s) (auto intro!: fmap_ext)
    let ?t1 = "t\<lparr>txClosed := True, writes := fmempty\<rparr>" and ?st1 = "st\<lparr>sWrites := fmempty\<rparr>"
    have "sysRel \<lparr>sdb = unregister t (sdb s), txs = fmupd i ?t1 (txs s)\<rparr> (specEnd i ?st1 a)"
      by (rule sysRel_end [OF rel tx(1,3)]) (use op in \<open>simp_all add: writesKeyed_def\<close>)
    then show ?thesis
      using sim tx op same by (auto simp: step_ok_def txRollback_def sysSim_def unregister_def)
  qed (use sim in \<open>simp add: step_ok_def\<close>)
qed

lemma step_begin:
  assumes "sysSim (Suc n) s a"
  shows "step_ok n (sysStep s (EvBegin wr)) (specStep a (EvBegin wr))"
proof -
  have sim: "sysSim n s a" using assms by (rule sysSim_weaken)
  then have rel: "sysRel s a" and st: "storeRel (sdb s) a" by (simp_all add: sysSim_def sysRel_def)
  show ?thesis
  proof (cases "dbClosed (sdb s)")
    case True
    then show ?thesis using sim st by (simp add: step_ok_def dbBegin_def storeRel_def)
  next
    case False
    let ?i = "nextTx (sdb s)"
    let ?t = "\<lparr>txId = ?i, readVersion = version (sdb s), writable = wr, writes = fmempty, txClosed = False\<rparr>"
    let ?d = "(sdb s)\<lparr>active := fmupd ?i (version (sdb s)) (active (sdb s)), nextTx := Suc ?i\<rparr>"
    let ?st = "\<lparr>sSnap = sCur a, sStart = sVer a, sWritable = wr, sWrites = fmempty, sOpen = True\<rparr>"
    let ?a = "a\<lparr>sTxs := fmupd ?i ?st (sTxs a), sNext := Suc ?i\<rparr>"
    have new: "txRel ?d ?i ?t ?st" using st by (simp add: txRel_def storeRel_def writesKeyed_def)
    have "storeRel ?d ?a" using st by (auto simp: storeRel_def stampOf_def)
    moreover have "rel_option (txRel ?d j) (fmlookup (fmupd ?i ?t (txs s)) j) (fmlookup (sTxs ?a) j)" for j
    proof (cases "j = ?i")
      case False
      have "txRel ?d j u su" if "txRel (sdb s) j u su" for u su
        using that False by (intro txRel_cong [OF that]) simp_all
      then show ?thesis using rel False by (auto simp: sysRel_def intro: option.rel_mono_strong)
    qed (use new in simp)
    ultimately have "sysRel \<lparr>sdb = ?d, txs = fmupd ?i ?t (txs s)\<rparr> ?a"
      using rel by (auto simp: sysRel_def)
    moreover have "sClosed a = dbClosed (sdb s)" "sNext a = ?i" using st by (simp_all add: storeRel_def)
    ultimately show ?thesis
      using False sim by (simp add: step_ok_def dbBegin_def Let_def sysSim_def)
  qed
qed


section \<open>Commit\<close>

lemma fmkeys_cong: "(\<And>k. (fmlookup m k = None) = (fmlookup m' k = None)) \<Longrightarrow> fmkeys m = fmkeys m'"
proof -
  assume "\<And>k. (fmlookup m k = None) = (fmlookup m' k = None)"
  then have "fmdom m = fmdom m'" by (auto simp: fmdom_lookup intro!: fset_eqI)
  then show ?thesis by (simp add: fmkeys_def)
qed

lemma readAt_later:
  assumes "\<forall>v\<in>set vs. vvVersion v \<le> rv" "rv \<le> rv'"
  shows "readAt rv' vs = readAt rv vs"
proof (cases vs rule: rev_cases)
  case (snoc ys y)
  then have "vvVersion y \<le> rv" "vvVersion y \<le> rv'" using assms order_trans by auto
  then show ?thesis using snoc by simp
qed simp

lemma same_conflicts:
  assumes "storeRel d a" "txRel d i t st" "\<not> txClosed t"
  shows "list_ex (\<lambda>k. sStart st < stampOf k a) (fmkeys (sWrites st)) = list_ex (conflicting t d) (fmkeys (writes t))"
    and "fmkeys (sWrites st) = fmkeys (writes t)"
proof -
  show keys: "fmkeys (sWrites st) = fmkeys (writes t)"
    using assms(2) by (intro fmkeys_cong) (simp add: txRel_def)
  have "sStart st < stampOf k a \<longleftrightarrow> conflicting t d k" for k
  proof (cases "versionsOf k d = []")
    case True
    then have "stampOf k a \<le> sStart st" using assms by (auto simp: storeRel_def txRel_def)
    then show ?thesis using True by (simp add: conflicting_def)
  next
    case False
    then have "stampOf k a = unat (vvVersion (last (versionsOf k d)))" using assms(1) by (simp add: storeRel_def)
    then show ?thesis using False assms(2) by (simp add: conflicting_def Let_def txRel_def word_less_nat_alt)
  qed
  then show "list_ex (\<lambda>k. sStart st < stampOf k a) (fmkeys (sWrites st)) = list_ex (conflicting t d) (fmkeys (writes t))"
    by (simp add: keys list_ex_iff)
qed

definition newVersions :: "tx \<Rightarrow> u64 \<Rightarrow> string \<Rightarrow> valueVersion list" where
  "newVersions t ver k =
     (case fmlookup (writes t) k of
        None \<Rightarrow> []
      | Some op \<Rightarrow> [\<lparr>vvVersion = ver, vvValue = opValue op, vvDeleted = opDelete op\<rparr>])"

lemma commit_versions:
  assumes "writesKeyed t"
  shows "versionsOf k (dbApply d (commitRecord t d0)) = versionsOf k d @ newVersions t (version d0 + 1) k"
  unfolding dbApply_versions commitRecord_ops [OF assms]
  by (simp add: commitRecord_def newVersions_def split: option.splits)

lemma next_version:
  assumes "unat (v :: u64) + Suc n < 2 ^ 64"
  shows "unat (v + 1) = Suc (unat v)" "v < v + 1" "max v (v + 1) = v + 1"
proof -
  show u: "unat (v + 1) = Suc (unat v)" using assms by (simp add: unat_word_ariths)
  then show "v < v + 1" by (simp add: word_less_nat_alt)
  then show "max v (v + 1) = v + 1" by (simp add: max_def less_imp_le)
qed

lemma storeRel_stamp:
  "storeRel d a \<Longrightarrow> versionsOf k d = [] \<Longrightarrow> fmlookup (active d) i = Some rv \<Longrightarrow> stampOf k a \<le> unat rv"
  unfolding storeRel_def by blast

lemma storeRel_commit:
  assumes st: "storeRel d a" and t: "txRel d i t st" and room: "unat (version d) + Suc n < 2 ^ 64"
    and d': "version d' = version d + 1" "\<And>k. versionsOf k d' = versionsOf k d @ newVersions t (version d + 1) k"
      "nextTx d' = nextTx d" "fileOpen d' = fileOpen d" "dbClosed d' = dbClosed d"
      "\<And>j rv. fmlookup (active d') j = Some rv \<Longrightarrow> fmlookup (active d) j = Some rv"
    and a': "sCur a' = overlay (sCur a) (sWrites st)" "sVer a' = sVer a + 1"
      "sStamp a' = foldr (\<lambda>k. fmupd k (sVer a + 1)) (fmkeys (sWrites st)) (sStamp a)"
      "sNext a' = sNext a" "sClosed a' = sClosed a" "sStorage a' = sStorage a"
  shows "storeRel d' a'"
proof -
  note nv = next_version [OF room]
  have w: "fmlookup (sWrites st) k = map_option opView (fmlookup (writes t) k)" for k
    using t by (simp add: txRel_def)
  have le: "\<forall>v\<in>set (versionsOf k d). vvVersion v \<le> version d" for k using st by (simp add: storeRel_def)
  have stamp: "stampOf k a' = (if fmlookup (writes t) k = None then stampOf k a else Suc (sVer a))" for k
    using w [of k] a'(3) by (simp add: stampOf_def stamp_foldr fmdom_lookup)
  have cur: "fmlookup (sCur a') k = readAt (version d') (versionsOf k d')" for k
  proof (cases "fmlookup (writes t) k")
    case None
    then show ?thesis
      using w [of k] st readAt_later [OF le [of k], of "version d + 1"] nv(2)
      by (simp add: a'(1) overlay_lookup d'(1,2) newVersions_def storeRel_def less_imp_le)
  next
    case (Some op)
    then show ?thesis
      using w [of k] by (simp add: a'(1) overlay_lookup d'(1,2) newVersions_def opView_def)
  qed
  have le': "\<forall>v\<in>set (versionsOf k d'). vvVersion v \<le> version d'" for k
    using le [of k] nv(2) by (auto simp: d'(1,2) newVersions_def split: option.splits)
  have s1: "stampOf k a' \<le> sVer a'" for k
    using st by (auto simp: stamp a'(2) storeRel_def le_SucI)
  have s2: "stampOf k a' = unat (vvVersion (last (versionsOf k d')))" if "versionsOf k d' \<noteq> []" for k
    using that st nv(1) by (auto simp: stamp d'(2) newVersions_def storeRel_def split: option.splits)
  have s3: "stampOf k a' \<le> unat rv" if "versionsOf k d' = []" "fmlookup (active d') j = Some rv" for k j rv
  proof -
    have "versionsOf k d = []" "fmlookup (writes t) k = None"
      using that(1) by (auto simp: d'(2) newVersions_def split: option.splits)
    then show ?thesis using storeRel_stamp [OF st _ d'(6) [OF that(2)]] stamp by simp
  qed
  have ac: "rv \<le> version d'" if "fmlookup (active d') j = Some rv" for j rv
  proof -
    have "rv \<le> version d" using d'(6) [OF that] st unfolding storeRel_def by blast
    then show ?thesis using nv(2) by (simp add: d'(1))
  qed
  show ?thesis
    unfolding storeRel_def using cur le' s1 s2 s3 ac st nv(1) d'(1,3-5) a'(2,4-6)
    by (simp add: storeRel_def)
qed

lemma txRel_commit:
  assumes "txRel d j u su" "unat (version d) + Suc n < 2 ^ 64"
    and d': "version d' = version d + 1" "\<And>k. versionsOf k d' = versionsOf k d @ newVersions t (version d + 1) k"
      "fmlookup (active d') j = fmlookup (active d) j"
  shows "txRel d' j u su"
proof (rule txRel_cong [OF assms(1)])
  note nv = next_version [OF assms(2)]
  show "version d \<le> version d'" using nv(2) by (simp add: d'(1))
  show "readAt (readVersion u) (versionsOf k d') = readAt (readVersion u) (versionsOf k d)" if "\<not> txClosed u" for k
  proof -
    have "readVersion u \<le> version d" using assms(1) that by (simp add: txRel_def)
    then have "\<not> version d + 1 \<le> readVersion u" using nv(2) by (simp add: not_le le_less_trans)
    then show ?thesis by (simp add: d'(2) newVersions_def split: option.splits)
  qed
qed (use d' in simp)


lemma commit_end:
  assumes "sysSim (Suc n) s a" "fmlookup (txs s) i = Some t" "txRel (sdb s) i t st"
    and "version d = version (sdb s)" "history d = history (sdb s)" "nextTx d = nextTx (sdb s)"
      "fileOpen d = fileOpen (sdb s)" "dbClosed d = dbClosed (sdb s)" "active d = active (sdb s)"
  shows "sysSim n \<lparr>sdb = unregister t d, txs = fmupd i (t\<lparr>txClosed := True\<rparr>) (txs s)\<rparr> (specEnd i st a)"
proof -
  have "sysRel \<lparr>sdb = unregister t d, txs = fmupd i (t\<lparr>txClosed := True\<rparr>) (txs s)\<rparr> (specEnd i st a)"
    by (rule sysRel_end [OF _ assms(2-9)])
      (use assms(1,3) in \<open>auto simp: sysSim_def txRel_def writesKeyed_def\<close>)
  then show ?thesis using assms(1,4) by (simp add: sysSim_def unregister_def)
qed

lemma commit_applies:
  assumes sim: "sysSim (Suc n) s a" and tx: "fmlookup (txs s) i = Some t" "txRel (sdb s) i t st"
  shows "sysSim n \<lparr>sdb = unregister t ((dbApply ((sdb s)\<lparr>dbFile := f\<rparr>) (commitRecord t (sdb s)))\<lparr>commits := c\<rparr>),
       txs = fmupd i (t\<lparr>txClosed := True\<rparr>) (txs s)\<rparr>
     (specEnd i st (a\<lparr>sCur := overlay (sCur a) (sWrites st), sVer := sVer a + 1,
        sStamp := foldr (\<lambda>k. fmupd k (sVer a + 1)) (fmkeys (sWrites st)) (sStamp a)\<rparr>))"
    (is "sysSim n \<lparr>sdb = ?d, txs = ?txs\<rparr> (specEnd i st ?a)")
proof -
  have rel: "sysRel s a" and st: "storeRel (sdb s) a" and room: "unat (version (sdb s)) + Suc n < 2 ^ 64"
    using sim by (simp_all add: sysSim_def sysRel_def)
  note nv = next_version [OF room]
  have t: "txId t = i" "writesKeyed t" using tx(2) by (simp_all add: txRel_def)
  have d: "version ?d = version (sdb s) + 1" "nextTx ?d = nextTx (sdb s)" "fileOpen ?d = fileOpen (sdb s)"
    "dbClosed ?d = dbClosed (sdb s)" "active ?d = fmdrop i (active (sdb s))"
    using nv(3) t(1) by (simp_all add: unregister_def commitRecord_def)
  have vs: "versionsOf k ?d = versionsOf k (sdb s) @ newVersions t (version (sdb s) + 1) k" for k
    by (simp add: unregister_def commit_versions [OF t(2)])
  have "sysRel \<lparr>sdb = ?d, txs = ?txs\<rparr> (specEnd i st ?a)"
  proof (rule sysRel_update [OF rel tx(1)])
    show "storeRel ?d (specEnd i st ?a)"
      by (rule storeRel_commit [OF st tx(2) room d(1) vs d(2-4)])
        (simp_all add: d(5) specEnd_def split: if_splits)
    show "txRel ?d i (t\<lparr>txClosed := True\<rparr>) (st\<lparr>sOpen := False\<rparr>)"
      using tx(2) by (simp add: txRel_def writesKeyed_def)
    show "txRel ?d j u su" if "j \<noteq> i" "txRel (sdb s) j u su" for j u su
      by (rule txRel_commit [OF that(2) room d(1) vs]) (use that(1) d(5) in simp)
  qed (use d in \<open>simp_all add: specEnd_def\<close>)
  then show ?thesis using room d(1) nv(1) by (simp add: sysSim_def)
qed

lemma append_fails:
  assumes "\<not> (fileOpen d \<and> out = WriteOk)"
  obtains f where "appendTo r out d = (Some ErrIO, d\<lparr>dbFile := f\<rparr>)"
proof -
  have "d = d\<lparr>dbFile := dbFile d\<rparr>" by simp
  then have "\<exists>f. d = d\<lparr>dbFile := f\<rparr>" by blast
  then have "\<exists>f. appendTo r out d = (Some ErrIO, d\<lparr>dbFile := f\<rparr>)"
    using assms by (cases out) (auto simp: appendTo_def appendRecord_def)
  then show thesis using that by blast
qed

text \<open>The commit of an open, writable transaction of an open store: a conflict, no writes, a failed write or a new version.\<close>

lemma step_commit_live:
  assumes sim: "sysSim (Suc n) s a" and tx: "fmlookup (txs s) i = Some t" "fmlookup (sTxs a) i = Some st" "txRel (sdb s) i t st"
    and live: "\<not> txClosed t" "writable t" "\<not> dbClosed (sdb s)"
  shows "step_ok n (sysStep s (EvCommit i out)) (specStep a (EvCommit i out))"
proof -
  let ?d = "sdb s" and ?t1 = "t\<lparr>txClosed := True\<rparr>"
  have store: "storeRel ?d a" using sim by (simp add: sysSim_def sysRel_def)
  have st: "sOpen st = (\<not> txClosed t)" "sWritable st = writable t" using tx(3) by (simp_all add: txRel_def)
  have a: "sClosed a = dbClosed ?d" "sStorage a = fileOpen ?d" using store by (simp_all add: storeRel_def)
  note ended = commit_end [OF sim tx(1,3)] and c = same_conflicts [OF store tx(3) live(1)]
  note unfolded = step_ok_def txCommit_def specCommit_def Let_def
  consider (conflict) "list_ex (conflicting t ?d) (fmkeys (writes t))"
    | (noWrites) "\<not> list_ex (conflicting t ?d) (fmkeys (writes t))" "fmkeys (writes t) = []"
    | (io) "\<not> list_ex (conflicting t ?d) (fmkeys (writes t))" "fmkeys (writes t) \<noteq> []" "\<not> (fileOpen ?d \<and> out = WriteOk)"
    | (success) "\<not> list_ex (conflicting t ?d) (fmkeys (writes t))" "fmkeys (writes t) \<noteq> []" "fileOpen ?d" "out = WriteOk"
    by blast
  then show ?thesis
  proof cases
    case conflict
    have e: "sysSim n \<lparr>sdb = unregister t (?d\<lparr>conflicts := x\<rparr>), txs = fmupd i ?t1 (txs s)\<rparr> (specEnd i st a)" for x by (rule ended; simp)
    show ?thesis using conflict live c tx st a e by (simp add: unfolded)
  next
    case noWrites
    have e: "sysSim n \<lparr>sdb = unregister t ?d, txs = fmupd i ?t1 (txs s)\<rparr> (specEnd i st a)" by (rule ended; simp)
    show ?thesis using noWrites live c tx st a e by (simp add: unfolded)
  next
    case io
    obtain f where f: "appendTo (commitRecord t ?d) out ?d = (Some ErrIO, ?d\<lparr>dbFile := f\<rparr>)" by (rule append_fails [OF io(3)])
    have e: "sysSim n \<lparr>sdb = unregister t (?d\<lparr>dbFile := f\<rparr>), txs = fmupd i ?t1 (txs s)\<rparr> (specEnd i st a)" by (rule ended; simp)
    show ?thesis using f live c tx st a io e by (auto simp: unfolded)
  next
    case success
    then show ?thesis
      using live c tx st a commit_applies [OF sim tx(1,3)] by (simp add: unfolded appendTo_def appendRecord_def)
  qed
qed

lemma step_commit:
  assumes "sysSim (Suc n) s a"
  shows "step_ok n (sysStep s (EvCommit i out)) (specStep a (EvCommit i out))"
proof -
  have sim: "sysSim n s a" using assms by (rule sysSim_weaken)
  then have rel: "sysRel s a" and store: "storeRel (sdb s) a" by (simp_all add: sysSim_def sysRel_def)
  show ?thesis
    using rel
  proof (cases rule: sysRel_tx [where i = i])
    case (tx t st)
    let ?d = "sdb s"
    have st: "sOpen st = (\<not> txClosed t)" "sWritable st = writable t" using tx(3) by (simp_all add: txRel_def)
    have a: "sClosed a = dbClosed ?d" using store by (simp add: storeRel_def)
    consider (closed) "txClosed t" | (readonly) "\<not> txClosed t" "\<not> writable t \<or> dbClosed ?d"
      | (live) "\<not> txClosed t" "writable t" "\<not> dbClosed ?d" by blast
    then show ?thesis
    proof cases
      case closed
      have "\<lparr>sdb = ?d, txs = fmupd i t (txs s)\<rparr> = s" using tx(1) by (cases s) (auto intro!: fmap_ext)
      then show ?thesis using closed sim tx st by (simp add: step_ok_def txCommit_def specCommit_def)
    next
      case readonly
      have "sysSim n \<lparr>sdb = unregister t ?d, txs = fmupd i (t\<lparr>txClosed := True\<rparr>) (txs s)\<rparr> (specEnd i st a)"
        by (rule commit_end [OF assms tx(1,3)]) simp_all
      then show ?thesis
        using readonly tx st a by (cases "writable t") (simp_all add: step_ok_def txCommit_def specCommit_def Let_def)
    next
      case live
      then show ?thesis by (rule step_commit_live [OF assms tx])
    qed
  qed (use sim in \<open>simp add: step_ok_def\<close>)
qed

lemma step_close:
  assumes "sysSim (Suc n) s a"
  shows "step_ok n (sysStep s (EvClose ok)) (specStep a (EvClose ok))"
proof -
  have sim: "sysSim n s a" using assms by (rule sysSim_weaken)
  then have rel: "sysRel s a" and st: "storeRel (sdb s) a" by (simp_all add: sysSim_def sysRel_def)
  have "storeRel ((sdb s)\<lparr>dbClosed := True, fileOpen := False\<rparr>) (a\<lparr>sClosed := True, sStorage := False\<rparr>)"
    using st by (clarsimp simp: storeRel_def)
  then have "sysRel (s\<lparr>sdb := (sdb s)\<lparr>dbClosed := True, fileOpen := False\<rparr>\<rparr>) (a\<lparr>sClosed := True, sStorage := False\<rparr>)"
    using rel by (intro sysRel_store) (auto intro: txRel_cong)
  then show ?thesis
    using sim st by (auto simp: step_ok_def dbClose_def sysSim_def storeRel_def)
qed


section \<open>Compaction is invisible\<close>

lemma storeRel_prune:
  assumes "storeRel d a" and d: "version d' = version d" "\<And>k. versionsOf k d' = pruneVersions (versionsOf k d) (oldestReadVersion d)"
    "active d' = active d" "nextTx d' = nextTx d" "fileOpen d' = sStorage a'" "dbClosed d' = sClosed a'"
    and a: "sVer a' = sVer a" "sCur a' = sCur a" "sStamp a' = sStamp a" "sNext a' = sNext a"
  shows "storeRel d' a'"
proof -
  let ?r = "oldestReadVersion d"
  have le: "?r \<le> version d"
    using assms(1) by (intro oldestReadVersion_current) (auto simp: storeRel_def)
  have stamp: "stampOf k a' = stampOf k a" for k by (simp add: stampOf_def a(3))
  have none: "stampOf k a \<le> unat rv" if "versionsOf k d' = []" "fmlookup (active d) i = Some rv" for k i rv
  proof (cases "versionsOf k d = []")
    case True
    then show ?thesis using storeRel_stamp [OF assms(1) _ that(2)] by blast
  next
    case False
    then have "vvVersion (last (versionsOf k d)) \<le> ?r" using pruneVersions_dropped that(1) d(2) by metis
    also have "?r \<le> rv" using oldestReadVersion_le [OF that(2)] .
    finally show ?thesis using False assms(1) by (simp add: storeRel_def word_le_nat_alt)
  qed
  have last: "stampOf k a = unat (vvVersion (last (versionsOf k d')))" if "versionsOf k d' \<noteq> []" for k
  proof -
    have "versionsOf k d \<noteq> []" using that by (auto simp: d(2) pruneVersions_def)
    then show ?thesis using that assms(1) by (simp add: d(2) pruneVersions_last storeRel_def)
  qed
  have "\<forall>v\<in>set (versionsOf k d'). vvVersion v \<le> version d" for k
    using assms(1) pruneVersions_subset [of "versionsOf k d" ?r] unfolding d(2) storeRel_def by blast
  moreover have "readAt (version d) (versionsOf k d') = readAt (version d) (versionsOf k d)" for k
    unfolding d(2) using le by (rule readAt_prune)
  ultimately show ?thesis
    using assms(1) none last unfolding storeRel_def stamp d(1,3-6) a(1,2,4) by clarsimp
qed

lemma txRel_prune:
  assumes "txRel d j u su" "version d' = version d" "active d' = active d"
    and "\<And>k. versionsOf k d' = pruneVersions (versionsOf k d) (oldestReadVersion d)"
  shows "txRel d' j u su"
proof (rule txRel_cong [OF assms(1)])
  show "readAt (readVersion u) (versionsOf k d') = readAt (readVersion u) (versionsOf k d)" if "\<not> txClosed u" for k
    unfolding assms(4) using assms(1) that
    by (intro readAt_prune oldestReadVersion_le [of d j]) (simp add: txRel_def)
qed (use assms in simp_all)

lemma step_compact:
  assumes "sysSim (Suc n) s a"
  shows "step_ok n (sysStep s (EvCompact out)) (specStep a (EvCompact out))"
proof -
  have sim: "sysSim n s a" using assms by (rule sysSim_weaken)
  then have rel: "sysRel s a" and st: "storeRel (sdb s) a" by (simp_all add: sysSim_def sysRel_def)
  let ?d1 = "pruneHistory (oldestReadVersion (sdb s)) (sdb s)"
  have d1: "version ?d1 = version (sdb s)" "active ?d1 = active (sdb s)" "nextTx ?d1 = nextTx (sdb s)"
    "fileOpen ?d1 = fileOpen (sdb s)" "dbClosed ?d1 = dbClosed (sdb s)"
    by (simp_all add: pruneHistory_def Let_def)
  have a: "sClosed a = dbClosed (sdb s)" "sStorage a = fileOpen (sdb s)" using st by (simp_all add: storeRel_def)
  have pruned: "sysSim n (s\<lparr>sdb := d'\<rparr>) a'"
    if "version d' = version ?d1" "active d' = active ?d1" "nextTx d' = nextTx ?d1" "history d' = history ?d1"
      "fileOpen d' = sStorage a'" "dbClosed d' = sClosed a'"
      "sVer a' = sVer a" "sCur a' = sCur a" "sStamp a' = sStamp a" "sNext a' = sNext a" "sTxs a' = sTxs a" for d' a'
  proof -
    have vs: "versionsOf k d' = pruneVersions (versionsOf k (sdb s)) (oldestReadVersion (sdb s))" for k
      using that(4) versionsOf_prune [of k "oldestReadVersion (sdb s)" "sdb s"] by (simp add: versionsOf_def)
    have "sysRel (s\<lparr>sdb := d'\<rparr>) a'"
    proof (rule sysRel_store [OF rel])
      show "storeRel d' a'" by (rule storeRel_prune [OF st _ vs]) (use that d1 in simp_all)
      show "txRel d' j t su" if "txRel (sdb s) j t su" for j t su
        by (rule txRel_prune [OF that _ _ vs]) (use \<open>version d' = version ?d1\<close> \<open>active d' = active ?d1\<close> d1 in simp_all)
    qed (use that d1 in simp_all)
    then show ?thesis using sim that(1) d1(1) by (simp add: sysSim_def)
  qed
  show ?thesis
  proof (cases "dbClosed (sdb s)")
    case True
    then show ?thesis using sim a by (simp add: step_ok_def compact_def specCompact_def)
  next
    case False
    then show ?thesis
      using a d1 by (cases out) (auto simp: step_ok_def compact_def specCompact_def Let_def intro!: pruned)
  qed
qed


section \<open>Snapshot isolation\<close>

interpretation mvcc: simulation sysStep specStep sysSim
proof
  fix n s a e
  assume sim: "sysSim (Suc n) s a"
  have "step_ok n (sysStep s e) (specStep a e)"
  proof (cases e)
    case (EvBegin wr)
    show ?thesis unfolding EvBegin by (rule step_begin [OF sim])
  next
    case (EvGet i k)
    show ?thesis unfolding EvGet by (rule step_get [OF sim])
  next
    case (EvScan i p)
    show ?thesis unfolding EvScan by (rule step_scan [OF sim])
  next
    case (EvCommit i out)
    show ?thesis unfolding EvCommit by (rule step_commit [OF sim])
  next
    case (EvRollback i)
    show ?thesis unfolding EvRollback by (rule step_rollback [OF sim])
  next
    case (EvCompact out)
    show ?thesis unfolding EvCompact by (rule step_compact [OF sim])
  next
    case (EvClose ok)
    show ?thesis unfolding EvClose by (rule step_close [OF sim])
  next
    case (EvSet i k v)
    show ?thesis unfolding EvSet sysStep.simps specStep.simps writeOp_cases by (rule step_write [OF sim])
  next
    case (EvDelete i k)
    show ?thesis unfolding EvDelete sysStep.simps specStep.simps writeOp_cases by (rule step_write [OF sim])
  next
    case (EvPut i k v)
    show ?thesis unfolding EvPut sysStep.simps specStep.simps writeOp_cases by (rule step_write [OF sim])
  next
    case (EvDel i k)
    show ?thesis unfolding EvDel sysStep.simps specStep.simps writeOp_cases by (rule step_write [OF sim])
  qed
  then show "\<exists>s' a' r. sysStep s e = (s', r) \<and> specStep a e = (a', r) \<and> sysSim n s' a'"
    by (cases "sysStep s e"; cases "specStep a e") (simp add: step_ok_def)
qed

lemma openStore_new: "openStore [] = Inr (emptyDb writeWALHeader)"
  by (simp add: openStore_def initWAL_def walHeaderSize_def writeWALHeader_def walMagic_def)

lemma initSim: "m < 2 ^ 64 \<Longrightarrow> sysSim m (initSys (emptyDb f)) initSpec"
  by (simp add: sysSim_def sysRel_def storeRel_def initSys_def initSpec_def emptyDb_def versionsOf_def stampOf_def)

lemma reachable_sim:
  assumes "length es + n < 2 ^ 64"
  obtains a where "sysSim n (fst (runMachine sysStep (initSys (emptyDb f)) es)) a"
  using mvcc.sim_run [OF initSim, of n es f] assms by (auto simp: add.commute)


section \<open>What the other transactions cannot change\<close>

fun touches :: "nat \<Rightarrow> event \<Rightarrow> bool" where
  "touches i (EvSet j k v) \<longleftrightarrow> j = i"
| "touches i (EvDelete j k) \<longleftrightarrow> j = i"
| "touches i (EvPut j k v) \<longleftrightarrow> j = i"
| "touches i (EvDel j k) \<longleftrightarrow> j = i"
| "touches i (EvCommit j out) \<longleftrightarrow> j = i"
| "touches i (EvRollback j) \<longleftrightarrow> j = i"
| "touches i _ \<longleftrightarrow> False"

lemma specStep_others:
  assumes "\<not> touches i e" "i \<noteq> sNext a"
  shows "fmlookup (sTxs (fst (specStep a e))) i = fmlookup (sTxs a) i"
  using assms
  by (cases e) (auto simp: specWrite_def specCommit_def specEnd_def specCompact_def split: option.splits compactOutcome.splits)

lemma sysRel_fresh: "sysRel s a \<Longrightarrow> fmlookup (sTxs a) i = Some st \<Longrightarrow> i \<noteq> sNext a"
  by (cases rule: sysRel_tx [of s a i]) (auto simp: sysRel_def storeRel_def)

lemma run_others:
  assumes "sysSim (n + length es) s a" "list_all (\<lambda>e. \<not> touches i e) es" "fmlookup (sTxs a) i = Some st"
  shows "\<exists>a'. sysSim n (fst (runMachine sysStep s es)) a' \<and> fmlookup (sTxs a') i = Some st"
  using assms
proof (induction es arbitrary: s a)
  case (Cons e es)
  from mvcc.sim_step [of "n + length es" s a e] Cons.prems(1) obtain s1 a1 r where step:
    "sysStep s e = (s1, r)" "specStep a e = (a1, r)" "sysSim (n + length es) s1 a1" by auto
  have "i \<noteq> sNext a" using sysRel_fresh Cons.prems(1,3) by (auto simp: sysSim_def)
  then have "fmlookup (sTxs a1) i = Some st"
    using specStep_others [of i e a] Cons.prems(2,3) step(2) by simp
  from Cons.IH [OF step(3) _ this] show ?case
    using Cons.prems(2) step(1) by (auto split: prod.splits)
qed auto

lemma get_response:
  assumes "sysSim n s a"
  shows "snd (sysStep s (EvGet i k)) = snd (specStep a (EvGet i k))"
proof -
  have "sysRel s a" using assms by (simp add: sysSim_def)
  then show ?thesis
  proof (cases rule: sysRel_tx [where i = i])
    case (tx t st)
    then have "sOpen st = (\<not> txClosed t)" by (simp add: txRel_def)
    moreover have "txClosed t \<Longrightarrow> txGet k t (sdb s) = (None, sdb s)" by (simp add: txGet_def)
    ultimately show ?thesis
      using tx view_overlay [OF tx(3)] by (cases "txClosed t") (simp_all add: txGet_view)
  qed simp
qed


section \<open>Properties\<close>

text \<open>
  C1. Snapshot isolation: for every interleaving of transactions, commits, failed writes, compactions
  and closes on a new database, the store answers every call exactly as the specification does, in which
  a transaction reads the map that was current when it began under its own writes, a commit is refused
  exactly when one of its keys was written since, and a compaction changes nothing. The only bound is
  that the 64-bit version counter does not overflow.
\<close>

theorem mvcc_refines_snapshot_isolation:
  assumes "openStore [] = Inr d" "length es < 2 ^ 64"
  shows "snd (runMachine sysStep (initSys d) es) = snd (runMachine specStep initSpec es)"
proof -
  have d: "d = emptyDb writeWALHeader" using assms(1) openStore_new by simp
  show ?thesis unfolding d using mvcc.same_answers [OF initSim, of 0 es] assms(2) by simp
qed

theorem mvcc_refines_snapshot_isolation_witness:
  "snd (runMachine sysStep (initSys (emptyDb writeWALHeader))
      [EvBegin True, EvBegin False, EvSet 0 ''k'' ''v'', EvCommit 0 WriteOk, EvGet 1 ''k'']) =
    [RTx 0, RTx 1, RErr None, RErr None, RVal None]"
proof -
  let ?es = "[EvBegin True, EvBegin False, EvSet 0 ''k'' ''v'', EvCommit 0 WriteOk, EvGet 1 ''k'']"
  have "snd (runMachine specStep initSpec ?es) = [RTx 0, RTx 1, RErr None, RErr None, RVal None]" by code_simp
  moreover have "length ?es < 2 ^ 64" by simp
  ultimately show ?thesis using mvcc_refines_snapshot_isolation [OF openStore_new, of ?es] by metis
qed

text \<open>
  C12. Repeatable reads: whatever other clients do in between (begin, write, commit, roll back, compact,
  close), a transaction that does not itself write or end reads the same value of a key again.
\<close>

theorem repeatable_read:
  assumes "length es + length es' < 2 ^ 64" "list_all (\<lambda>e. \<not> touches i e) es'"
    and "fmlookup (txs (fst (runMachine sysStep (initSys (emptyDb f)) es))) i \<noteq> None"
  defines "s \<equiv> fst (runMachine sysStep (initSys (emptyDb f)) es)"
  shows "snd (sysStep (fst (runMachine sysStep s es')) (EvGet i k)) = snd (sysStep s (EvGet i k))"
proof -
  from reachable_sim [of es "length es'" f] assms(1) obtain a where a: "sysSim (0 + length es') s a"
    by (auto simp: s_def)
  then have "sysRel s a" by (simp add: sysSim_def)
  then obtain st where st: "fmlookup (sTxs a) i = Some st"
    using assms(3) by (cases rule: sysRel_tx [where i = i]) (auto simp: s_def)
  from run_others [OF a assms(2) st] obtain a' where
    "sysSim 0 (fst (runMachine sysStep s es')) a'" "fmlookup (sTxs a') i = Some st" by blast
  then show ?thesis using get_response [OF a, of i k] get_response [of 0 _ a' i k] st by simp
qed


theorem repeatable_read_witness:
  "snd (sysStep (fst (runMachine sysStep (fst (runMachine sysStep (initSys (emptyDb [])) [EvBegin False, EvBegin True]))
      [EvPut 1 ''k'' ''v'', EvCommit 1 WriteOk, EvCompact CompactOk])) (EvGet 0 ''k'')) = RVal None"
proof -
  let ?es = "[EvBegin False, EvBegin True]" and ?es' = "[EvPut 1 ''k'' ''v'', EvCommit 1 WriteOk, EvCompact CompactOk]"
  let ?s = "fst (runMachine sysStep (initSys (emptyDb [])) ?es)"
  have "fmlookup (txs ?s) 0 \<noteq> None" "snd (sysStep ?s (EvGet 0 ''k'')) = RVal None" by code_simp+
  moreover have "list_all (\<lambda>e. \<not> touches 0 e) ?es'" by code_simp
  ultimately show ?thesis using repeatable_read [of ?es ?es' 0 "[]" "''k''"] by simp
qed

lemma stamp_mono:
  assumes "\<forall>k. stampOf k a \<le> sVer a"
  shows "stampOf k a \<le> stampOf k (fst (specStep a e))"
proof (cases e)
  case (EvCommit i out)
  have "stampOf k a \<le> Suc (sVer a)" using assms by (simp add: le_SucI)
  then show ?thesis
    using EvCommit by (auto simp: specCommit_def specEnd_def stampOf_def stamp_foldr split: option.splits)
qed (auto simp: specWrite_def specEnd_def specCompact_def stampOf_def split: option.splits compactOutcome.splits)

lemma run_stamp:
  assumes "sysSim (n + length es) s a" "list_all (\<lambda>e. \<not> touches i e) es" "fmlookup (sTxs a) i = Some st"
    and "m \<le> stampOf k a"
  shows "\<exists>a'. sysSim n (fst (runMachine sysStep s es)) a' \<and> fmlookup (sTxs a') i = Some st \<and> m \<le> stampOf k a'"
  using assms
proof (induction es arbitrary: s a)
  case (Cons e es)
  from mvcc.sim_step [of "n + length es" s a e] Cons.prems(1) obtain s1 a1 r where step:
    "sysStep s e = (s1, r)" "specStep a e = (a1, r)" "sysSim (n + length es) s1 a1" by auto
  have "i \<noteq> sNext a" and le: "\<forall>k. stampOf k a \<le> sVer a"
    using sysRel_fresh Cons.prems(1,3) by (auto simp: sysSim_def sysRel_def storeRel_def)
  then have "fmlookup (sTxs a1) i = Some st"
    using specStep_others [of i e a] Cons.prems(2,3) step(2) by simp
  moreover have "m \<le> stampOf k a1" using stamp_mono [OF le, of k e] Cons.prems(4) step(2) by simp
  ultimately show ?case
    using Cons.IH [OF step(3)] Cons.prems(2) step(1) by (auto split: prod.splits)
qed auto

lemma commit_stamps:
  assumes "specCommit i t out a = (a1, RErr None)" "fmlookup (sWrites t) k \<noteq> None" "sWritable t"
  shows "stampOf k a1 = Suc (sVer a)" "j \<noteq> i \<Longrightarrow> fmlookup (sTxs a1) j = fmlookup (sTxs a) j"
proof -
  have "k \<in> set (fmkeys (sWrites t))" using assms(2) by (simp add: fmdom_lookup)
  then show "stampOf k a1 = Suc (sVer a)"
    using assms(1,3) by (auto simp: specCommit_def specEnd_def stampOf_def stamp_foldr split: if_splits)
  show "j \<noteq> i \<Longrightarrow> fmlookup (sTxs a1) j = fmlookup (sTxs a) j"
    using assms(1) by (auto simp: specCommit_def specEnd_def split: if_splits)
qed

lemma late_commit_fails:
  assumes "sOpen t" "sWritable t" "fmlookup (sWrites t) k \<noteq> None" "sStart t < stampOf k a"
  shows "snd (specCommit j t out a) = RErr (Some (if sClosed a then ErrClosed else ErrConflict))"
proof -
  have "list_ex (\<lambda>k. sStart t < stampOf k a) (fmkeys (sWrites t))"
    using assms(3,4) by (auto simp: list_ex_iff fmdom_lookup)
  then show ?thesis using assms(1,2) by (simp add: specCommit_def)
qed

text \<open>
  C6. First committer wins: when two transactions have written the same key and one of them commits,
  then whatever happens in between, a later commit of the other one fails, with \<open>ErrConflict\<close> (or with
  \<open>ErrClosed\<close> when the database was closed); no update is lost.
\<close>

theorem first_committer_wins:
  fixes f :: bytes
  assumes "length es + length es' + 2 < 2 ^ 64"
  defines "s \<equiv> fst (runMachine sysStep (initSys (emptyDb f)) es)"
  assumes "fmlookup (txs s) i = Some t" "fmlookup (txs s) j = Some u" "i \<noteq> j"
    and "\<not> txClosed t" "writable t" "fmlookup (writes t) k \<noteq> None"
    and "\<not> txClosed u" "writable u" "fmlookup (writes u) k \<noteq> None"
    and "sysStep s (EvCommit i out) = (s1, RErr None)"
    and "list_all (\<lambda>e. \<not> touches j e) es'"
  shows "snd (sysStep (fst (runMachine sysStep s1 es')) (EvCommit j out'))
    \<in> {RErr (Some ErrConflict), RErr (Some ErrClosed)}"
proof -
  from reachable_sim [of es "Suc (1 + length es')" f] assms(1) obtain a where
    a: "sysSim (Suc (1 + length es')) s a" by (auto simp: s_def)
  have store: "storeRel (sdb s) a" and rel: "sysRel s a" using a by (simp_all add: sysSim_def sysRel_def)
  obtain st where st: "fmlookup (sTxs a) i = Some st" "txRel (sdb s) i t st"
    using rel assms(3) by (cases rule: sysRel_tx [where i = i]) auto
  obtain su where su: "fmlookup (sTxs a) j = Some su" "txRel (sdb s) j u su"
    using rel assms(4) by (cases rule: sysRel_tx [where i = j]) auto
  from mvcc.sim_step [OF a, of "EvCommit i out"] assms(12) obtain a1 where a1:
    "specStep a (EvCommit i out) = (a1, RErr None)" "sysSim (1 + length es') s1 a1" by auto
  have w: "sWritable st" "fmlookup (sWrites st) k \<noteq> None" using st(2) assms(7,8) by (simp_all add: txRel_def)
  have "specCommit i st out a = (a1, RErr None)" using a1(1) st(1) by simp
  note c = commit_stamps [OF this w(2,1)]
  have su1: "fmlookup (sTxs a1) j = Some su" using c(2) [of j] assms(5) su(1) by simp
  from run_stamp [OF a1(2) assms(13) su1] c(1) obtain a2 where a2:
    "sysSim 1 (fst (runMachine sysStep s1 es')) a2" "fmlookup (sTxs a2) j = Some su" "Suc (sVer a) \<le> stampOf k a2"
    by (metis order_refl)
  have u: "sOpen su" "sWritable su" "fmlookup (sWrites su) k \<noteq> None" "sStart su \<le> sVer a"
    using su(2) store assms(9-11) by (auto simp: txRel_def storeRel_def word_le_nat_alt)
  have "snd (specStep a2 (EvCommit j out')) = RErr (Some (if sClosed a2 then ErrClosed else ErrConflict))"
    using late_commit_fails [OF u(1-3), of a2 j out'] u(4) a2(2,3) by simp
  then show ?thesis
    using mvcc.sim_step [of 0, OF a2(1) [unfolded One_nat_def], of "EvCommit j out'"] by auto
qed


theorem first_committer_wins_witness:
  "let s = fst (runMachine sysStep (initSys (emptyDb []))
        [EvBegin True, EvBegin True, EvPut 0 ''k'' ''a'', EvPut 1 ''k'' ''b''])
   in snd (sysStep (fst (runMachine sysStep (fst (sysStep s (EvCommit 0 WriteOk))) [EvBegin False])) (EvCommit 1 WriteOk))
      \<in> {RErr (Some ErrConflict), RErr (Some ErrClosed)}"
proof -
  let ?es = "[EvBegin True, EvBegin True, EvPut 0 ''k'' ''a'', EvPut 1 ''k'' ''b'']"
  let ?s = "fst (runMachine sysStep (initSys (emptyDb [])) ?es)"
  let ?t = "\<lambda>i v. \<lparr>txId = i, readVersion = 0, writable = True,
      writes = fmupd ''k'' \<lparr>opKey = ''k'', opValue = v, opDelete = False\<rparr> fmempty, txClosed = False\<rparr>"
  have t: "fmlookup (txs ?s) 0 = Some (?t 0 ''a'')" "fmlookup (txs ?s) 1 = Some (?t 1 ''b'')"
    by (simp_all add: initSys_def emptyDb_def dbBegin_def txWrite_def txPut_def)
  have "fmkeys (fmupd ''k'' op fmempty) = [''k'']" for op :: operation
    by (simp add: fmkeys_def sorted_list_of_fset.rep_eq)
  then have "snd (sysStep ?s (EvCommit 0 WriteOk)) = RErr None"
    using t(1) by (simp add: initSys_def emptyDb_def dbBegin_def txWrite_def txPut_def txCommit_def Let_def
      conflicting_def versionsOf_def appendTo_def appendRecord_def)
  then have c: "sysStep ?s (EvCommit 0 WriteOk) = (fst (sysStep ?s (EvCommit 0 WriteOk)), RErr None)"
    by (metis prod.collapse)
  show ?thesis
    unfolding Let_def
    by (rule first_committer_wins [OF _ t _ _ _ _ _ _ _ c, of "[EvBegin False]" "''k''"]) simp_all
qed

end
