(* ===== verification/Recovery.thy ===== *)
theory Recovery
  imports Mvcc
begin

text \<open>
  Durability: what the log holds of the committed data, in every run of the system of \<open>Mvcc\<close>. The
  invariant says that the file is a header followed by complete frames, and that applying their records
  rebuilds a store with the same current map. It is kept by commits that succeed and by compactions with
  any outcome; reopening the file then gives the current map back, also when the last commit was cut
  short by a crash.
\<close>

section \<open>The rewritten log rebuilds the pruned history\<close>

definition groupOps :: "(u64, operation list) fmap \<Rightarrow> u64 \<Rightarrow> operation list" where
  "groupOps m v = (case fmlookup m v of None \<Rightarrow> [] | Some ops \<Rightarrow> ops)"

definition versionOp :: "string \<Rightarrow> valueVersion \<Rightarrow> operation" where
  "versionOp key x = \<lparr>opKey = key, opValue = vvValue x, opDelete = vvDeleted x\<rparr>"

lemma groupAdd_fold:
  "groupOps (foldl (groupAdd key) m vs) v = groupOps m v @ map (versionOp key) (filter (\<lambda>x. vvVersion x = v) vs)"
  by (induction vs arbitrary: m) (auto simp: groupOps_def groupAdd_def versionOp_def)

lemma byVersion_fold:
  "groupOps (foldl (\<lambda>m key. foldl (groupAdd key) m (versionsOf key d)) m keys) v =
     groupOps m v @ concat (map (\<lambda>key. map (versionOp key) (filter (\<lambda>x. vvVersion x = v) (versionsOf key d))) keys)"
  by (induction keys arbitrary: m) (simp_all add: groupAdd_fold)

lemma groupAdd_nonempty:
  "(\<forall>v. fmlookup m v \<noteq> Some []) \<Longrightarrow> fmlookup (foldl (groupAdd key) m vs) v \<noteq> Some []"
  by (induction vs arbitrary: m) (auto simp: groupAdd_def)

lemma byVersion_nonempty: "fmlookup (byVersion d) v \<noteq> Some []"
proof -
  have "(\<forall>v. fmlookup m v \<noteq> Some []) \<Longrightarrow>
      fmlookup (foldl (\<lambda>m key. foldl (groupAdd key) m (versionsOf key d)) m keys) v \<noteq> Some []" for m keys v
    by (induction keys arbitrary: m) (auto simp: groupAdd_nonempty)
  then show ?thesis by (simp add: byVersion_def)
qed

lemma versionsOf_keys: "versionsOf k d \<noteq> [] \<Longrightarrow> k \<in> set (fmkeys (history d))"
  by (auto simp: versionsOf_def fmdom_lookup split: option.splits)

lemma byVersion_key:
  "filter (\<lambda>op. opKey op = k) (groupOps (byVersion d) v) =
     map (versionOp k) (filter (\<lambda>x. vvVersion x = v) (versionsOf k d))"
proof -
  let ?g = "\<lambda>key. map (versionOp key) (filter (\<lambda>x. vvVersion x = v) (versionsOf key d))"
  have one: "filter (\<lambda>op. opKey op = k) (?g key) = (if key = k then ?g k else [])" for key
    by (auto simp: versionOp_def filter_map comp_def filter_empty_conv)
  have "distinct keys \<Longrightarrow> filter (\<lambda>op. opKey op = k) (concat (map ?g keys)) = (if k \<in> set keys then ?g k else [])" for keys
    by (induction keys) (auto simp: one)
  then have "filter (\<lambda>op. opKey op = k) (groupOps (byVersion d) v) = (if k \<in> set (fmkeys (history d)) then ?g k else [])"
    by (simp add: byVersion_def byVersion_fold) (simp add: groupOps_def)
  then show ?thesis using versionsOf_keys [of k d] by (cases "versionsOf k d = []") auto
qed

lemma byVersion_mem: "x \<in> set (versionsOf k d) \<Longrightarrow> vvVersion x \<in> set (fmkeys (byVersion d))"
proof -
  assume "x \<in> set (versionsOf k d)"
  then have "filter (\<lambda>op. opKey op = k) (groupOps (byVersion d) (vvVersion x)) \<noteq> []"
    by (auto simp: byVersion_key filter_empty_conv)
  then have "groupOps (byVersion d) (vvVersion x) \<noteq> []" by auto
  then show ?thesis by (auto simp: groupOps_def fmdom_lookup split: option.splits)
qed

lemma byVersion_version: "v \<in> set (fmkeys (byVersion d)) \<Longrightarrow> \<exists>k x. x \<in> set (versionsOf k d) \<and> vvVersion x = v"
proof -
  assume "v \<in> set (fmkeys (byVersion d))"
  then have "groupOps (byVersion d) v \<noteq> []"
    using byVersion_nonempty [of d v] by (auto simp: groupOps_def fmdom_lookup)
  then obtain op where op: "op \<in> set (groupOps (byVersion d) v)" by (meson last_in_set)
  then have "op \<in> set (filter (\<lambda>q. opKey q = opKey op) (groupOps (byVersion d) v))" by simp
  then show ?thesis unfolding byVersion_key by auto
qed

lemma concat_by_version:
  assumes "sorted_wrt (<) (map vvVersion vs)" "sorted_wrt (<) ks" "vvVersion ` set vs \<subseteq> set ks"
  shows "concat (map (\<lambda>v. filter (\<lambda>x. vvVersion x = v) vs) ks) = vs"
  using assms
proof (induction ks arbitrary: vs)
  case (Cons v ks)
  show ?case
  proof (cases vs)
    case (Cons x xs)
    have later: "\<forall>y\<in>set xs. vvVersion x < vvVersion y" using Cons.prems(1) local.Cons by auto
    show ?thesis
    proof (cases "vvVersion x = v")
      case True
      have "filter (\<lambda>y. vvVersion y = v) xs = []" using later True by (auto simp: filter_empty_conv)
      moreover have "concat (map (\<lambda>w. filter (\<lambda>y. vvVersion y = w) vs) ks) = concat (map (\<lambda>w. filter (\<lambda>y. vvVersion y = w) xs) ks)"
        using Cons.prems(2) True local.Cons by (intro arg_cong [where f = concat] map_cong) auto
      moreover have "vvVersion ` set xs \<subseteq> set ks" using Cons.prems(3) later True local.Cons by fastforce
      ultimately show ?thesis using Cons.IH [of xs] Cons.prems(1,2) True local.Cons by simp
    next
      case False
      then have "v < vvVersion x" using Cons.prems(2,3) local.Cons by auto
      then have "\<forall>y\<in>set vs. v < vvVersion y" using later local.Cons by (auto intro: less_trans)
      then have "filter (\<lambda>y. vvVersion y = v) vs = []" "vvVersion ` set vs \<subseteq> set ks"
        using Cons.prems(3) by (auto simp: filter_empty_conv)
      then show ?thesis using Cons.IH [of vs] Cons.prems(1,2) by simp
    qed
  qed simp
qed simp

text \<open>The store that results from applying records to an empty one.\<close>

definition rebuild :: "wrec list \<Rightarrow> db" where
  "rebuild rs = foldl dbApply (emptyDb []) rs"

lemma foldl_dbApply_versions:
  "versionsOf k (foldl dbApply d rs) = versionsOf k d @ concat (map (\<lambda>r.
     map (\<lambda>op. \<lparr>vvVersion = recVersion r, vvValue = opValue op, vvDeleted = opDelete op\<rparr>)
       (filter (\<lambda>op. opKey op = k) (recOps r))) rs)"
  by (induction rs arbitrary: d) (simp_all add: dbApply_versions)

lemma foldl_dbApply_version: "version (foldl dbApply d rs) = foldl max (version d) (map recVersion rs)"
  by (induction rs arbitrary: d) simp_all

lemma foldl_max_bounds:
  fixes a :: "'b :: linorder"
  shows "a \<le> foldl max a xs" "x \<in> set xs \<Longrightarrow> x \<le> foldl max a xs" "foldl max a xs = a \<or> foldl max a xs \<in> set xs"
  by (induction xs arbitrary: a) (auto simp: max_def not_le intro: order_trans less_imp_le less_le_trans split: if_splits)

lemma versionsOf_empty [simp]: "versionsOf k (emptyDb f) = []" "version (emptyDb f) = 0"
  by (simp_all add: emptyDb_def versionsOf_def)

lemma rebuild_bound: "x \<in> set (versionsOf k (rebuild rs)) \<Longrightarrow> vvVersion x \<le> version (rebuild rs)"
  by (auto simp: rebuild_def foldl_dbApply_versions foldl_dbApply_version intro!: foldl_max_bounds(2))


definition storeOk :: "db \<Rightarrow> bool" where
  "storeOk d \<longleftrightarrow>
     (\<forall>k. sorted_wrt (<) (map vvVersion (versionsOf k d)) \<and> (\<forall>x\<in>set (versionsOf k d). vvVersion x \<le> version d))
     \<and> (\<forall>i rv. fmlookup (active d) i = Some rv \<longrightarrow> rv \<le> version d)"

definition represents :: "wrec list \<Rightarrow> db \<Rightarrow> bool" where
  "represents rs d \<longleftrightarrow> version (rebuild rs) \<le> version d \<and> (\<forall>k. current (rebuild rs) k = current d k)"

lemma current_last:
  assumes "storeOk d" "versionsOf k d = ys @ [y]"
  shows "current d k = (if vvDeleted y then None else Some (vvValue y))"
proof -
  have "y \<in> set (versionsOf k d)" using assms(2) by simp
  then have "vvVersion y \<le> version d" using assms(1) unfolding storeOk_def by blast
  then show ?thesis by (simp add: current_def assms(2))
qed

lemma snapshotOps_key:
  "filter (\<lambda>op. opKey op = k) (snapshotOps d) =
     (if versionsOf k d \<noteq> [] \<and> \<not> vvDeleted (last (versionsOf k d))
      then [\<lparr>opKey = k, opValue = vvValue (last (versionsOf k d)), opDelete = False\<rparr>] else [])"
proof -
  let ?P = "\<lambda>k. versionsOf k d \<noteq> [] \<and> \<not> vvDeleted (last (versionsOf k d))"
  have "filter (\<lambda>j. j = k \<and> ?P j) (fmkeys (history d)) = (if ?P k then [k] else [])"
  proof -
    have "filter (\<lambda>j. j = k \<and> ?P j) (fmkeys (history d)) = filter ?P (filter (\<lambda>j. j = k) (fmkeys (history d)))"
      by (simp add: conj_commute)
    then show ?thesis
      by (cases "fmlookup (history d) k") (auto simp: fmkeys_filter_key versionsOf_def)
  qed
  then show ?thesis by (simp add: snapshotOps_def filter_map comp_def conj_commute)
qed

lemma represents_snapshot:
  assumes "storeOk d"
  shows "represents (if snapshotOps d = [] then [] else [\<lparr>recVersion = version d, recOps = snapshotOps d\<rparr>]) d"
    (is "represents ?rs d")
proof -
  have vs: "versionsOf k (rebuild ?rs) = map (\<lambda>op. \<lparr>vvVersion = version d, vvValue = opValue op, vvDeleted = opDelete op\<rparr>)
      (filter (\<lambda>op. opKey op = k) (snapshotOps d))" for k
    by (simp add: rebuild_def foldl_dbApply_versions)
  have ver: "version (rebuild ?rs) = (if snapshotOps d = [] then 0 else version d)" by (simp add: rebuild_def)
  have "current (rebuild ?rs) k = current d k" for k
  proof (cases "versionsOf k d" rule: rev_cases)
    case Nil
    then show ?thesis unfolding current_def vs snapshotOps_key by simp
  next
    case (snoc ys y)
    have ne: "\<not> vvDeleted y \<Longrightarrow> snapshotOps d \<noteq> []" using snapshotOps_key [of k d] snoc by auto
    have "current (rebuild ?rs) k = (if vvDeleted y then None else Some (vvValue y))"
      using snoc ne unfolding current_def vs ver snapshotOps_key by (auto simp: readAt_def)
    then show ?thesis using current_last [OF assms snoc] by simp
  qed
  then show ?thesis using ver by (simp add: represents_def)
qed

lemma groups_versions:
  assumes "storeOk d"
  shows "versionsOf k (rebuild (map (\<lambda>v. \<lparr>recVersion = v, recOps = the (fmlookup (byVersion d) v)\<rparr>) (fmkeys (byVersion d)))) = versionsOf k d"
    (is "versionsOf k (rebuild ?rs) = _")
proof -
  let ?ks = "fmkeys (byVersion d)"
  have sorted: "sorted_wrt (<) ?ks" by (simp add: strict_sorted_iff)
  have group: "the (fmlookup (byVersion d) v) = groupOps (byVersion d) v" if "v \<in> set ?ks" for v
    using that by (auto simp: groupOps_def fmdom_lookup)
  have one: "map (\<lambda>op. \<lparr>vvVersion = v, vvValue = opValue op, vvDeleted = opDelete op\<rparr>)
      (filter (\<lambda>op. opKey op = k) (the (fmlookup (byVersion d) v))) = filter (\<lambda>x. vvVersion x = v) (versionsOf k d)"
    if "v \<in> set ?ks" for v
    unfolding group [OF that] byVersion_key by (simp add: comp_def) (rule map_idI, simp add: versionOp_def)
  have "versionsOf k (rebuild ?rs) = concat (map (\<lambda>v. filter (\<lambda>x. vvVersion x = v) (versionsOf k d)) ?ks)"
    unfolding rebuild_def foldl_dbApply_versions
    by (simp add: comp_def) (intro arg_cong [where f = concat] map_cong refl one)
  then show ?thesis
    using assms sorted byVersion_mem [of _ k d] concat_by_version [of "versionsOf k d" ?ks]
    by (auto simp: storeOk_def)
qed

lemma represents_groups:
  assumes "storeOk d"
  shows "represents (map (\<lambda>v. \<lparr>recVersion = v, recOps = the (fmlookup (byVersion d) v)\<rparr>) (fmkeys (byVersion d))) d"
    (is "represents ?rs d")
proof -
  let ?ks = "fmkeys (byVersion d)"
  note vs = groups_versions [OF assms]
  have "version (rebuild ?rs) = foldl max 0 ?ks"
    by (simp add: rebuild_def foldl_dbApply_version comp_def)
  moreover have "v \<le> version d" if "v \<in> set ?ks" for v
    using byVersion_version [OF that] assms by (auto simp: storeOk_def)
  ultimately have le: "version (rebuild ?rs) \<le> version d"
    using foldl_max_bounds(3) [of 0 ?ks] by auto
  have "current (rebuild ?rs) k = current d k" for k
    unfolding current_def vs using readAt_later [OF _ le] rebuild_bound [of _ k ?rs] vs by auto
  then show ?thesis using le by (simp add: represents_def)
qed

lemma represents_compact: "storeOk d \<Longrightarrow> represents (compactRecords retain d) d"
  using represents_snapshot represents_groups by (simp add: compactRecords_def Let_def)

lemma rebuild_compact_sorted:
  assumes "storeOk d"
  shows "sorted_wrt (<) (map vvVersion (versionsOf k (rebuild (compactRecords retain d))))"
proof (cases "retain = version d")
  case True
  then have "versionsOf k (rebuild (compactRecords retain d)) =
      map (\<lambda>op. \<lparr>vvVersion = version d, vvValue = opValue op, vvDeleted = opDelete op\<rparr>) (filter (\<lambda>op. opKey op = k) (snapshotOps d))"
    by (simp add: compactRecords_def rebuild_def foldl_dbApply_versions)
  then show ?thesis by (simp add: snapshotOps_key)
next
  case False
  then have "versionsOf k (rebuild (compactRecords retain d)) = versionsOf k d"
    using groups_versions [OF assms, of k] by (simp add: compactRecords_def Let_def)
  then show ?thesis using assms by (simp add: storeOk_def)
qed


section \<open>The durability invariant\<close>

definition durable :: "db \<Rightarrow> bool" where
  "durable d \<longleftrightarrow>
     storeOk d \<and> (\<exists>rs. dbFile d = writeWALHeader @ frames rs \<and> list_all recordOk rs \<and> represents rs d)"

definition durableSys :: "nat \<Rightarrow> sys \<Rightarrow> bool" where
  "durableSys n s \<longleftrightarrow>
     durable (sdb s) \<and> (\<forall>i t. fmlookup (txs s) i = Some t \<longrightarrow> writesKeyed t)
     \<and> unat (version (sdb s)) + n < 2 ^ 64"

fun goodEvent :: "sys \<Rightarrow> event \<Rightarrow> bool" where
  \<comment> \<open>writes to the log succeed, and what is written are records that fit\<close>
  "goodEvent s (EvCommit i out) \<longleftrightarrow>
     out = WriteOk \<and> (case fmlookup (txs s) i of None \<Rightarrow> True | Some t \<Rightarrow> recordOk (commitRecord t (sdb s)))"
| "goodEvent s (EvCompact out) \<longleftrightarrow>
     list_all recordOk (compactRecords (oldestReadVersion (sdb s)) (pruneHistory (oldestReadVersion (sdb s)) (sdb s)))"
| "goodEvent s _ \<longleftrightarrow> True"

fun goodRun :: "sys \<Rightarrow> event list \<Rightarrow> bool" where
  "goodRun s [] \<longleftrightarrow> True"
| "goodRun s (e # es) \<longleftrightarrow> goodEvent s e \<and> goodRun (fst (sysStep s e)) es"

lemma durable_cong:
  assumes "durable d" "dbFile d' = dbFile d" "history d' = history d" "version d' = version d"
    "\<And>i rv. fmlookup (active d') i = Some rv \<Longrightarrow> fmlookup (active d) i = Some rv \<or> rv = version d"
  shows "durable d'"
proof -
  have vs: "versionsOf k d' = versionsOf k d" for k using assms(3) by (simp add: versionsOf_def)
  have "storeOk d'" using assms(1,4,5) unfolding durable_def storeOk_def vs by (metis order_refl)
  then show ?thesis using assms(1,2,4) by (simp add: durable_def represents_def current_def vs)
qed

lemma storeOk_prune:
  assumes "storeOk d"
  shows "storeOk (pruneHistory retain d)" "retain \<le> version d \<Longrightarrow> current (pruneHistory retain d) k = current d k"
proof -
  have f: "version (pruneHistory retain d) = version d" "active (pruneHistory retain d) = active d"
    by (simp_all add: pruneHistory_def Let_def)
  have "sorted_wrt (<) (map vvVersion (pruneVersions (versionsOf k d) retain))" for k
  proof -
    have srt: "sorted_wrt (<) (map vvVersion (versionsOf k d))" using assms by (simp add: storeOk_def)
    show ?thesis
      using srt by (cases rule: pruneVersions_cases [of "versionsOf k d" retain]) (auto simp: sorted_wrt_append)
  qed
  then show "storeOk (pruneHistory retain d)"
    using assms pruneVersions_subset f unfolding storeOk_def by (metis subsetD versionsOf_prune)
  show "retain \<le> version d \<Longrightarrow> current (pruneHistory retain d) k = current d k"
    by (simp add: current_def f readAt_prune)
qed

lemma durable_compact:
  assumes "durable d" "list_all recordOk (compactRecords (oldestReadVersion d) (pruneHistory (oldestReadVersion d) d))"
  shows "durable (snd (compact out d))"
proof -
  let ?r = "oldestReadVersion d" let ?d1 = "pruneHistory ?r d"
  have ok: "storeOk d" using assms(1) by (simp add: durable_def)
  have le: "?r \<le> version d" using ok by (intro oldestReadVersion_current) (auto simp: storeOk_def)
  note p = storeOk_prune [OF ok, of ?r]
  have f: "version ?d1 = version d" "dbFile ?d1 = dbFile d" by (simp_all add: pruneHistory_def Let_def)
  have d1: "durable ?d1"
    using assms(1) p(1) p(2) [OF le] f by (simp add: durable_def represents_def)
  have "represents (compactRecords ?r ?d1) ?d1" using represents_compact [OF p(1)] .
  then have new: "durable (?d1\<lparr>dbFile := compactedFile ?r ?d1\<rparr>)"
    using assms(2) p(1) by (auto simp: durable_def storeOk_def represents_def current_def compactedFile_def)
  show ?thesis
  proof (cases "dbClosed d")
    case True
    then show ?thesis using assms(1) by (simp add: compact_def)
  next
    case False
    have old: "durable (?d1\<lparr>fileOpen := b\<rparr>)" for b by (rule durable_cong [OF d1]) simp_all
    have new1: "durable (?d1\<lparr>dbFile := compactedFile ?r ?d1, fileOpen := b, dbClosed := c\<rparr>)"
      and new2: "durable (?d1\<lparr>dbFile := compactedFile ?r ?d1, compactions := m\<rparr>)" for b c m
      by (rule durable_cong [OF new]; simp)+
    show ?thesis
      using False d1 old new1 new2 by (cases out) (simp_all add: compact_def Let_def)
  qed
qed

lemma durable_commit:
  assumes "durable d" "unat (version d) + Suc n < 2 ^ 64" "recordOk (commitRecord t d)" "writesKeyed t"
  shows "durable (dbApply (d\<lparr>dbFile := dbFile d @ encodeRecord (commitRecord t d)\<rparr>) (commitRecord t d))"
    (is "durable ?d")
proof -
  let ?r = "commitRecord t d"
  note nv = next_version [OF assms(2)]
  from assms(1) obtain rs where rs: "dbFile d = writeWALHeader @ frames rs" "list_all recordOk rs"
    "represents rs d" and ok: "storeOk d" by (auto simp: durable_def)
  have ver: "recVersion ?r = version d + 1" by (simp add: commitRecord_def)
  have v: "version ?d = version d + 1" using nv(3) by (simp add: ver)
  have vs: "versionsOf k ?d = versionsOf k d @ newVersions t (version d + 1) k" for k
    by (simp add: commit_versions [OF assms(4)])
  have lt: "x \<in> set (versionsOf k d) \<Longrightarrow> vvVersion x < version d + 1" for x k
    using ok nv(2) unfolding storeOk_def by (meson le_less_trans)
  have ac: "fmlookup (active d) i = Some rv \<Longrightarrow> rv \<le> version d + 1" for i rv
    using ok nv(2) unfolding storeOk_def by (meson le_less_trans less_imp_le)
  have "storeOk ?d"
    unfolding storeOk_def vs v using ok lt ac
    by (auto simp: storeOk_def newVersions_def sorted_wrt_append less_imp_le intro: order_trans split: option.splits)
  moreover have reb: "rebuild (rs @ [?r]) = dbApply (rebuild rs) ?r" by (simp add: rebuild_def)
  have le: "version (rebuild rs) \<le> version d" using rs(3) by (simp add: represents_def)
  then have vr: "version (rebuild (rs @ [?r])) = version d + 1"
    unfolding reb using le_less_trans [OF le nv(2)] by (simp add: ver max_def less_imp_le)
  have vsr: "versionsOf k (rebuild (rs @ [?r])) = versionsOf k (rebuild rs) @ newVersions t (version d + 1) k" for k
    unfolding reb by (simp add: commit_versions [OF assms(4)])
  have "current (rebuild (rs @ [?r])) k = current ?d k" for k
  proof (cases "fmlookup (writes t) k")
    case None
    have "readAt (version d + 1) (versionsOf k (rebuild rs)) = current (rebuild rs) k"
      unfolding current_def using rebuild_bound le nv(2) by (intro readAt_later) auto
    also have "\<dots> = current d k" using rs(3) by (simp add: represents_def)
    also have "\<dots> = readAt (version d + 1) (versionsOf k d)"
      unfolding current_def using ok nv(2) by (intro readAt_later [symmetric]) (auto simp: storeOk_def)
    finally show ?thesis unfolding current_def vr vsr v vs newVersions_def using None by simp
  next
    case (Some op)
    then show ?thesis unfolding current_def vr vsr v vs newVersions_def by simp
  qed
  then have "represents (rs @ [?r]) ?d" unfolding represents_def vr v by simp
  ultimately show ?thesis
    using rs(1,2) assms(3) by (auto simp: durable_def intro!: exI [of _ "rs @ [?r]"])
qed


lemma durable_unregister: "durable d \<Longrightarrow> durable (unregister t d)"
  by (rule durable_cong) (auto simp: unregister_def split: if_splits)

lemma writesKeyed_writeOp: "writesKeyed t \<Longrightarrow> writesKeyed (snd (writeOp k v user t))"
  by (auto simp: writeOp_def txPut_def txDel_def writesKeyed_def split: option.splits)

lemma durable_write:
  assumes "durableSys (Suc n) s"
  shows "durableSys n (fst (txWrite i (writeOp k v user) s))"
proof (cases "fmlookup (txs s) i")
  case (Some t)
  obtain r t1 where res: "writeOp k v user t = (r, t1)" by (cases "writeOp k v user t")
  moreover have "writesKeyed t" using assms Some by (simp add: durableSys_def)
  ultimately have "writesKeyed t1" using writesKeyed_writeOp [of t k v user] by simp
  then show ?thesis using assms Some res by (auto simp: txWrite_def durableSys_def)
qed (use assms in \<open>simp add: txWrite_def durableSys_def\<close>)

lemma durable_txCommit:
  assumes "durable d" "unat (version d) + Suc n < 2 ^ 64" "writesKeyed t" "recordOk (commitRecord t d)"
    and res: "txCommit WriteOk t d = (e, t', d')"
  shows "durable d'" "unat (version d') + n < 2 ^ 64" "writesKeyed t'"
proof -
  let ?app = "dbApply (d\<lparr>dbFile := dbFile d @ encodeRecord (commitRecord t d)\<rparr>) (commitRecord t d)"
  have app: "durable ?app" using durable_commit [OF assms(1,2,4,3)] .
  have vapp: "unat (version ?app) = Suc (unat (version d))"
    using next_version [OF assms(2)] by (simp add: commitRecord_def)
  have c: "durable (d\<lparr>conflicts := x\<rparr>)" "durable (?app\<lparr>commits := x\<rparr>)" for x
    using assms(1) app by (auto intro: durable_cong)
  show "durable d'" "unat (version d') + n < 2 ^ 64" "writesKeyed t'"
    using res assms(1-3) c vapp
    by (auto simp: txCommit_def Let_def appendTo_def appendRecord_def writesKeyed_def intro!: durable_unregister split: if_splits)
      (auto simp: unregister_def)
qed

lemma durable_step:
  assumes "durableSys (Suc n) s" "goodEvent s e"
  shows "durableSys n (fst (sysStep s e))"
proof -
  have d: "durable (sdb s)" and room: "unat (version (sdb s)) + Suc n < 2 ^ 64"
    and keyed: "\<And>i t. fmlookup (txs s) i = Some t \<Longrightarrow> writesKeyed t"
    using assms(1) by (auto simp: durableSys_def)
  have reads: "durable ((sdb s)\<lparr>reads := r\<rparr>)" for r by (rule durable_cong [OF d]) simp_all
  show ?thesis
  proof (cases e)
    case (EvBegin wr)
    have "durable ((sdb s)\<lparr>active := fmupd i (version (sdb s)) (active (sdb s)), nextTx := m\<rparr>)" for i m
      by (rule durable_cong [OF d]) (auto split: if_splits)
    then show ?thesis
      using EvBegin assms(1) d keyed room
      by (auto simp: dbBegin_def Let_def durableSys_def writesKeyed_def split: if_splits)
  next
    case (EvGet i k)
    then show ?thesis
      using assms(1) reads by (auto simp: txGet_def durableSys_def split: option.splits prod.splits if_splits)
  next
    case (EvScan i p)
    then show ?thesis
      using assms(1) reads by (auto simp: scanPrefix_def durableSys_def split: option.splits prod.splits if_splits)
  next
    case (EvCommit i out)
    show ?thesis
    proof (cases "fmlookup (txs s) i")
      case (Some t)
      obtain r t' d' where res: "txCommit WriteOk t (sdb s) = (r, t', d')" by (cases "txCommit WriteOk t (sdb s)")
      have "recordOk (commitRecord t (sdb s))" "out = WriteOk" using assms(2) EvCommit Some by auto
      then show ?thesis
        using durable_txCommit [OF d room keyed [OF Some] _ res] EvCommit Some res keyed
        by (auto simp: durableSys_def split: if_splits)
    qed (use assms(1) EvCommit in \<open>simp add: durableSys_def\<close>)
  next
    case (EvRollback i)
    then show ?thesis
      using d keyed room durable_unregister [OF d]
      by (auto simp: txRollback_def durableSys_def writesKeyed_def unregister_def split: option.splits if_splits)
  next
    case (EvCompact out)
    have "version (snd (compact out (sdb s))) = version (sdb s)"
      by (cases out) (simp_all add: compact_def pruneHistory_def Let_def)
    then show ?thesis
      using EvCompact durable_compact [OF d, of out] assms keyed room
      by (auto simp: durableSys_def split: prod.splits)
  next
    case (EvClose ok)
    have "durable ((sdb s)\<lparr>dbClosed := True, fileOpen := False\<rparr>)" by (rule durable_cong [OF d]) simp_all
    then show ?thesis using EvClose d keyed room by (auto simp: dbClose_def durableSys_def)
  next
    case (EvSet i k v)
    show ?thesis unfolding EvSet sysStep.simps writeOp_cases using durable_write [OF assms(1)] .
  next
    case (EvDelete i k)
    show ?thesis unfolding EvDelete sysStep.simps writeOp_cases using durable_write [OF assms(1)] .
  next
    case (EvPut i k v)
    show ?thesis unfolding EvPut sysStep.simps writeOp_cases using durable_write [OF assms(1)] .
  next
    case (EvDel i k)
    show ?thesis unfolding EvDel sysStep.simps writeOp_cases using durable_write [OF assms(1)] .
  qed
qed

lemma durable_run:
  "durableSys (n + length es) s \<Longrightarrow> goodRun s es \<Longrightarrow> durableSys n (fst (runMachine sysStep s es))"
proof (induction es arbitrary: s)
  case (Cons e es)
  then have "durableSys (n + length es) (fst (sysStep s e))" using durable_step by simp
  from Cons.IH [OF this] Cons.prems(2) show ?case
    by (cases "sysStep s e"; cases "runMachine sysStep (fst (sysStep s e)) es") simp
qed simp

lemma durable_init: "m < 2 ^ 64 \<Longrightarrow> durableSys m (initSys (emptyDb writeWALHeader))"
proof -
  have "storeOk (emptyDb writeWALHeader)" by (simp add: storeOk_def) (simp add: emptyDb_def)
  moreover have "represents [] (emptyDb writeWALHeader)" by (simp add: represents_def rebuild_def current_def)
  ultimately have "durable (emptyDb writeWALHeader)"
    by (auto simp: durable_def emptyDb_def intro!: exI [of _ "[]"])
  then show "m < 2 ^ 64 \<Longrightarrow> ?thesis" by (simp add: durableSys_def initSys_def)
qed


section \<open>Opening a log\<close>

lemma dbApply_file:
  fixes d :: "('z) db_scheme"
  shows "dbApply (d\<lparr>dbFile := f\<rparr>) r = (dbApply d r)\<lparr>dbFile := f\<rparr>"
proof -
  have "applyOp v (d\<lparr>dbFile := f\<rparr>) op = (applyOp v d op)\<lparr>dbFile := f\<rparr>" for v op and d :: "('z) db_scheme"
    by (cases d) (simp add: applyOp_def versionsOf_def)
  then have "foldl (applyOp v) (d\<lparr>dbFile := f\<rparr>) ops = (foldl (applyOp v) d ops)\<lparr>dbFile := f\<rparr>" for v ops
    by (induction ops arbitrary: d) simp_all
  then show ?thesis by (simp add: dbApply_def Let_def)
qed

lemma foldl_dbApply_file: "foldl dbApply (emptyDb f) rs = (rebuild rs)\<lparr>dbFile := f\<rparr>"
proof -
  have "foldl dbApply (d\<lparr>dbFile := f\<rparr>) rs = (foldl dbApply d rs)\<lparr>dbFile := f\<rparr>" for d
    by (induction rs arbitrary: d) (simp_all add: dbApply_file)
  from this [of "emptyDb []"] show ?thesis by (simp add: rebuild_def emptyDb_def)
qed

lemma openStore_tail:
  assumes "list_all recordOk rs"
    and "replayLoop t (16 + length (frames rs)) (16 + length (frames rs)) (16 + length (frames rs) + length t)
      = ([], Inr (16 + length (frames rs)))"
  shows "openStore (writeWALHeader @ frames rs @ t) = Inr ((rebuild rs)\<lparr>dbFile := writeWALHeader @ frames rs\<rparr>)"
proof -
  have "initWAL (writeWALHeader @ frames rs @ t) =
      (writeWALHeader @ frames rs @ t, rs, Inr (16 + length (frames rs)))"
    using replay_then [OF assms] by (simp add: initWAL_def walHeaderSize_def)
  then show ?thesis by (simp add: openStore_def foldl_dbApply_file Let_def)
qed

lemma openStore_frames:
  "list_all recordOk rs \<Longrightarrow>
   openStore (writeWALHeader @ frames rs) = Inr ((rebuild rs)\<lparr>dbFile := writeWALHeader @ frames rs\<rparr>)"
  using openStore_tail [of rs "[]"] by (simp add: replayLoop_short)

lemma openStore_current:
  assumes "represents rs d" "openStore f = Inr ((rebuild rs)\<lparr>dbFile := g\<rparr>)"
  shows "\<exists>e. openStore f = Inr e \<and> (\<forall>k. current e k = current d k)"
  using assms by (simp add: represents_def current_def)


section \<open>Properties\<close>

text \<open>
  C2. Durability: after any run on a new database in which the writes of commits succeed, with any
  interleaving of transactions and with compactions that succeed or fail in any way, reopening the log
  file gives a database in which every key has the value it had. The records that are written have valid
  UTF-8 keys and at most 64 MiB, which is what replay accepts.
\<close>

theorem reopen_restores:
  assumes "length es < 2 ^ 64" "goodRun (initSys (emptyDb writeWALHeader)) es"
  defines "d \<equiv> sdb (fst (runMachine sysStep (initSys (emptyDb writeWALHeader)) es))"
  shows "\<exists>e. openStore (dbFile d) = Inr e \<and> (\<forall>k. current e k = current d k)"
proof -
  have "durable d" using durable_run [of 0 es] durable_init assms by (simp add: durableSys_def)
  then obtain rs where "dbFile d = writeWALHeader @ frames rs" "list_all recordOk rs" "represents rs d"
    by (auto simp: durable_def)
  then show ?thesis using openStore_current openStore_frames by metis
qed

abbreviation writerEvents :: "event list" where
  "writerEvents \<equiv> [EvBegin True, EvPut 0 ''k'' ''v'']"

abbreviation writerTx :: tx where
  "writerTx \<equiv> \<lparr>txId = 0, readVersion = 0, writable = True,
     writes = fmupd ''k'' \<lparr>opKey = ''k'', opValue = ''v'', opDelete = False\<rparr> fmempty, txClosed = False\<rparr>"

definition writerSys :: sys where
  "writerSys = fst (runMachine sysStep (initSys (emptyDb writeWALHeader)) writerEvents)"

lemma writerSys_facts:
  "fmlookup (txs writerSys) 0 = Some writerTx" "fileOpen (sdb writerSys)" "\<not> dbClosed (sdb writerSys)"
  "version (sdb writerSys) = 0" "versionsOf k (sdb writerSys) = []"
  by (simp_all add: writerSys_def initSys_def emptyDb_def dbBegin_def txWrite_def txPut_def versionsOf_def)

lemma fmkeys_one: "fmkeys (fmupd k v fmempty) = [k]"
  by (simp add: fmkeys_def sorted_list_of_fset.rep_eq)

lemma writer_record: "commitRecord writerTx (sdb writerSys) = sampleRecord"
  by (simp add: commitRecord_def writerSys_facts(4) sampleRecord_def fmkeys_one)

theorem reopen_restores_witness:
  "\<exists>e. openStore (dbFile (sdb (fst (runMachine sysStep (initSys (emptyDb writeWALHeader)) (writerEvents @ [EvCommit 0 WriteOk]))))) = Inr e
    \<and> (\<forall>k. current e k = current (sdb (fst (runMachine sysStep (initSys (emptyDb writeWALHeader)) (writerEvents @ [EvCommit 0 WriteOk])))) k)"
proof (rule reopen_restores)
  have run: "goodRun s (es @ [e]) \<longleftrightarrow> goodRun s es \<and> goodEvent (fst (runMachine sysStep s es)) e" for s es e
    by (induction es arbitrary: s) (auto split: prod.splits)
  show "goodRun (initSys (emptyDb writeWALHeader)) (writerEvents @ [EvCommit 0 WriteOk])"
    unfolding run writerSys_def [symmetric] using writerSys_facts(1) writer_record sampleRecord_ok by simp
qed simp

lemma apply_current:
  assumes "storeOk d" "unat (version d) + Suc n < 2 ^ 64" "writesKeyed t"
  shows "current (dbApply (d\<lparr>dbFile := f\<rparr>) (commitRecord t d)) k =
    (case fmlookup (writes t) k of None \<Rightarrow> current d k | Some op \<Rightarrow> opView op)"
proof -
  let ?app = "dbApply (d\<lparr>dbFile := f\<rparr>) (commitRecord t d)"
  have "version ?app = version d + 1" using next_version(3) [OF assms(2)] by (simp add: commitRecord_def)
  moreover have "readAt (version d + 1) (versionsOf k d) = current d k"
    unfolding current_def using assms(1) next_version(2) [OF assms(2)]
    by (intro readAt_later) (auto simp: storeOk_def)
  ultimately show ?thesis
    unfolding current_def [of ?app] by (simp add: commit_versions [OF assms(3)] newVersions_def opView_def split: option.splits)
qed

text \<open>
  C4. Crash atomicity: take a run on a new database in which every append so far has succeeded with a
  record that replay accepts (valid UTF-8 keys, at most 64 MiB), and let the append of the next commit be the first to fail:
  cut short anywhere, or written and not synced. Reopening the file then shows all of that commit's writes
  if its whole frame is in the file and none of them otherwise; every other key has the value it had.
\<close>

theorem crash_atomic:
  assumes "length es + 1 < 2 ^ 64" "goodRun (initSys (emptyDb writeWALHeader)) es"
  defines "s \<equiv> fst (runMachine sysStep (initSys (emptyDb writeWALHeader)) es)"
  assumes "fmlookup (txs s) i = Some t" "recordOk (commitRecord t (sdb s))"
    and "txCommit out t (sdb s) = (Some ErrIO, t', d')"
  shows "\<exists>e. openStore (dbFile d') = Inr e
    \<and> (if dbFile d' = dbFile (sdb s) @ encodeRecord (commitRecord t (sdb s))
       then \<forall>k. current e k = (case fmlookup (writes t) k of None \<Rightarrow> current (sdb s) k | Some op \<Rightarrow> opView op)
       else \<forall>k. current e k = current (sdb s) k)"
proof -
  let ?d = "sdb s" and ?r = "commitRecord t (sdb s)"
  have dur: "durableSys 1 s" using durable_run [of 1 es] durable_init [of "1 + length es"] assms(1-3) by simp
  then have d: "durable ?d" and room: "unat (version ?d) + Suc 0 < 2 ^ 64" and keyed: "writesKeyed t"
    using assms(4) by (auto simp: durableSys_def)
  from d obtain rs where rs: "dbFile ?d = writeWALHeader @ frames rs" "list_all recordOk rs" "represents rs ?d"
    by (auto simp: durable_def)
  have cut: "dbFile d' = dbFile ?d \<or> (\<exists>n. dbFile d' = dbFile ?d @ take n (encodeRecord ?r)) \<or> dbFile d' = dbFile ?d @ encodeRecord ?r"
    using assms(6) by (cases out) (auto simp: txCommit_def Let_def appendTo_def appendRecord_def unregister_def split: if_splits)
  show ?thesis
  proof (cases "dbFile d' = dbFile ?d @ encodeRecord ?r")
    case True
    let ?app = "dbApply (?d\<lparr>dbFile := dbFile ?d @ encodeRecord ?r\<rparr>) ?r"
    have "durable ?app" using durable_commit [OF d room assms(5) keyed] .
    then obtain qs where qs: "dbFile ?d @ encodeRecord ?r = writeWALHeader @ frames qs" "list_all recordOk qs"
      "represents qs ?app" by (auto simp: durable_def)
    from openStore_current [OF qs(3) openStore_frames [OF qs(2)]] obtain e where
      e: "openStore (dbFile d') = Inr e" "\<And>k. current e k = current ?app k" using True qs(1) by metis
    moreover have "storeOk ?d" using d by (simp add: durable_def)
    ultimately show ?thesis using True apply_current [OF _ room keyed] by simp
  next
    case False
    then have "dbFile d' = dbFile ?d \<or> (\<exists>n. dbFile d' = dbFile ?d @ take n (encodeRecord ?r) \<and> n < length (encodeRecord ?r))"
      using cut by (metis leI take_all)
    then have "openStore (dbFile d') = Inr ((rebuild rs)\<lparr>dbFile := writeWALHeader @ frames rs\<rparr>)"
      using rs(1) openStore_frames [OF rs(2)] openStore_tail [OF rs(2)] replayLoop_torn [OF assms(5)] by auto
    then show ?thesis using openStore_current [OF rs(3)] False by auto
  qed
qed

theorem crash_atomic_witness:
  "\<exists>e. openStore (dbFile (snd (snd (txCommit SyncFails writerTx (sdb writerSys))))) = Inr e
    \<and> current (sdb writerSys) ''k'' = None \<and> current e ''k'' = Some ''v''"
proof -
  let ?c = "txCommit SyncFails writerTx (sdb writerSys)"
  have rec: "recordOk (commitRecord writerTx (sdb writerSys))" unfolding writer_record by (rule sampleRecord_ok)
  have "?c = (Some ErrIO, fst (snd ?c), snd (snd ?c))"
    and whole: "dbFile (snd (snd ?c)) = dbFile (sdb writerSys) @ encodeRecord (commitRecord writerTx (sdb writerSys))"
    using writerSys_facts
    by (simp_all add: txCommit_def Let_def fmkeys_one conflicting_def appendTo_def appendRecord_def unregister_def)
  from crash_atomic [of writerEvents, folded writerSys_def, OF _ _ writerSys_facts(1) rec this(1)]
  have "\<exists>e. openStore (dbFile (snd (snd ?c))) = Inr e
      \<and> (\<forall>k. current e k = (case fmlookup (writes writerTx) k of None \<Rightarrow> current (sdb writerSys) k | Some op \<Rightarrow> opView op))"
    using whole by simp
  moreover have "current (sdb writerSys) ''k'' = None" by (simp add: current_def writerSys_facts(5))
  ultimately show ?thesis by (auto simp: opView_def)
qed

text \<open>
  C37. A failed append is not undone. Let the log be in order, let the append of one commit be cut inside its
  payload, and let another transaction, open and without a conflict, commit next, with a record so short that
  the cut frame still promises more bytes than follow. That second commit succeeds and its
  writes are visible, but after reopening the file every key has the value from before both commits.
\<close>

theorem commit_after_failed_write_lost:
  assumes "length es + 1 < 2 ^ 64" "goodRun (initSys (emptyDb writeWALHeader)) es"
  defines "s \<equiv> fst (runMachine sysStep (initSys (emptyDb writeWALHeader)) es)"
  assumes "fmlookup (txs s) i = Some t" "recordOk (commitRecord t (sdb s))" "fileOpen (sdb s)"
    and "txCommit (WriteFails n) t (sdb s) = (Some ErrIO, t1, d1)" "8 \<le> n"
    and "fmlookup (txs s) j = Some u" "j \<noteq> i" "\<not> txClosed u" "writable u" "\<not> list_ex (conflicting u (sdb s)) (fmkeys (writes u))"
    and "fmlookup (writes u) k = Some op"
    and "n + length (encodeRecord (commitRecord u d1)) < length (encodeRecord (commitRecord t (sdb s)))"
  shows "\<exists>u1 d2 e. txCommit WriteOk u d1 = (None, u1, d2) \<and> current d2 k = opView op
    \<and> openStore (dbFile d2) = Inr e \<and> (\<forall>k. current e k = current (sdb s) k)"
proof -
  let ?d = "sdb s" and ?r = "commitRecord t (sdb s)" and ?q = "commitRecord u d1"
  have "durableSys 1 s" using durable_run [of 1 es] durable_init [of "1 + length es"] assms(1-3) by simp
  then have d: "durable ?d" and room: "unat (version ?d) + Suc 0 < 2 ^ 64" and keyed: "writesKeyed u"
    using assms(9) by (auto simp: durableSys_def)
  then obtain rs where rs: "dbFile ?d = writeWALHeader @ frames rs" "list_all recordOk rs" "represents rs ?d" "storeOk ?d"
    by (auto simp: durable_def)
  have d1: "d1 = unregister t (?d\<lparr>dbFile := dbFile ?d @ take n (encodeRecord ?r)\<rparr>)" "\<not> dbClosed ?d"
    using assms(6,7) by (auto simp: txCommit_def Let_def appendTo_def appendRecord_def split: if_splits)
  have same: "version d1 = version ?d" "versionsOf x d1 = versionsOf x ?d" "current d1 x = current ?d x" "fileOpen d1" "\<not> dbClosed d1"
    "dbFile d1 = dbFile ?d @ take n (encodeRecord ?r)" for x
    using d1 assms(6) by (simp_all add: unregister_def versionsOf_def current_def)
  have ok1: "storeOk d1" using rs(4) d1(1) by (auto simp: storeOk_def unregister_def versionsOf_def)
  have keys: "fmkeys (writes u) \<noteq> []" using assms(14) by (auto simp: fmlookup_dom_iff)
  have none: "\<not> list_ex (conflicting u d1) (fmkeys (writes u))" using assms(13) same(2) by (simp add: conflicting_def [abs_def])
  let ?app = "dbApply (d1\<lparr>dbFile := dbFile d1 @ encodeRecord ?q\<rparr>) ?q"
  let ?d2 = "unregister u (?app\<lparr>commits := commits ?app + 1\<rparr>)"
  have "txCommit WriteOk u d1 = (None, u\<lparr>txClosed := True\<rparr>, ?d2)"
    using assms(11,12) same(4,5) none keys by (simp add: txCommit_def Let_def appendTo_def appendRecord_def)
  moreover have "current ?d2 k = opView op"
  proof -
    have "current ?d2 k = current ?app k" by (simp add: unregister_def current_def versionsOf_def)
    then show ?thesis using apply_current [OF ok1 _ keyed, of 0] room same(1) assms(14) by simp
  qed
  moreover have "dbFile ?d2 = writeWALHeader @ frames rs @ take n (encodeRecord ?r) @ encodeRecord ?q"
    using same(6) rs(1) by (simp add: unregister_def)
  then have "openStore (dbFile ?d2) = Inr ((rebuild rs)\<lparr>dbFile := writeWALHeader @ frames rs\<rparr>)"
    using openStore_tail [OF rs(2), of "take n (encodeRecord ?r) @ encodeRecord ?q"] replayLoop_cut_payload [OF assms(5,8,15)] by simp
  ultimately show ?thesis using openStore_current [OF rs(3)] by blast
qed

abbreviation rivalEvents :: "event list" where
  "rivalEvents \<equiv> [EvBegin True, EvBegin True, EvPut 0 ''j'' (replicate 60 (CHR ''x'')), EvPut 1 ''k'' ''v'']"

definition rivalSys :: sys where
  "rivalSys = fst (runMachine sysStep (initSys (emptyDb writeWALHeader)) rivalEvents)"

abbreviation rivalTx :: tx where
  "rivalTx \<equiv> \<lparr>txId = 0, readVersion = 0, writable = True,
     writes = fmupd ''j'' \<lparr>opKey = ''j'', opValue = replicate 60 (CHR ''x''), opDelete = False\<rparr> fmempty, txClosed = False\<rparr>"

abbreviation rivalRecord :: wrec where
  "rivalRecord \<equiv> \<lparr>recVersion = 1, recOps = [\<lparr>opKey = ''j'', opValue = replicate 60 (CHR ''x''), opDelete = False\<rparr>]\<rparr>"

lemma rivalSys_facts:
  "fmlookup (txs rivalSys) 0 = Some rivalTx" "fmlookup (txs rivalSys) 1 = Some (writerTx\<lparr>txId := 1\<rparr>)"
  "fileOpen (sdb rivalSys)" "\<not> dbClosed (sdb rivalSys)" "version (sdb rivalSys) = 0" "versionsOf k (sdb rivalSys) = []"
  by (simp_all add: rivalSys_def initSys_def emptyDb_def dbBegin_def txWrite_def txPut_def versionsOf_def)

lemma rivalRecord_facts: "length (marshalRecord rivalRecord) = 124" "recordOk rivalRecord"
proof -
  show len: "length (marshalRecord rivalRecord) = 124" by code_simp
  have "recKeysOk rivalRecord" by (simp add: recKeysOk_def valid_utf8_ascii)
  then show "recordOk rivalRecord" by (simp add: recordOk_def len maxRecordSize_def)
qed

theorem commit_after_failed_write_lost_witness:
  "\<exists>t1 d1 u1 d2 e. txCommit (WriteFails 8) rivalTx (sdb rivalSys) = (Some ErrIO, t1, d1)
     \<and> txCommit WriteOk (writerTx\<lparr>txId := 1\<rparr>) d1 = (None, u1, d2) \<and> current d2 ''k'' = Some ''v''
     \<and> openStore (dbFile d2) = Inr e \<and> current e ''k'' = None"
proof -
  have rec: "commitRecord rivalTx (sdb rivalSys) = rivalRecord" by (simp add: commitRecord_def rivalSys_facts(5) fmkeys_one)
  obtain t1 d1 where c: "txCommit (WriteFails 8) rivalTx (sdb rivalSys) = (Some ErrIO, t1, d1)" "version d1 = 0"
    using rivalSys_facts by (simp add: txCommit_def Let_def fmkeys_one conflicting_def appendTo_def appendRecord_def unregister_def)
  have "commitRecord (writerTx\<lparr>txId := 1\<rparr>) d1 = sampleRecord" by (simp add: commitRecord_def c(2) sampleRecord_def fmkeys_one)
  then have len: "8 + length (encodeRecord (commitRecord (writerTx\<lparr>txId := 1\<rparr>) d1)) < length (encodeRecord (commitRecord rivalTx (sdb rivalSys)))"
    by (simp add: rec length_encodeRecord rivalRecord_facts(1) length_samplePayload)
  have "\<exists>u1 d2 e. txCommit WriteOk (writerTx\<lparr>txId := 1\<rparr>) d1 = (None, u1, d2) \<and> current d2 ''k'' = Some ''v''
      \<and> openStore (dbFile d2) = Inr e \<and> (\<forall>k. current e k = current (sdb rivalSys) k)"
    using commit_after_failed_write_lost [of rivalEvents, folded rivalSys_def, OF _ _ rivalSys_facts(1) _ rivalSys_facts(3) c(1) _ rivalSys_facts(2) _ _ _ _ _ len, of "''k''"]
      rivalRecord_facts(2) by (simp add: rec conflicting_def rivalSys_facts(6) fmkeys_one opView_def)
  moreover have "current (sdb rivalSys) ''k'' = None" by (simp add: current_def rivalSys_facts(6))
  ultimately show ?thesis using c(1) by auto
qed


lemma prune_current:
  assumes "vvVersion y \<le> retain"
  shows "pruneVersions (ys @ [y]) retain = (if vvDeleted y then [] else [y])"
proof -
  have "baseIndex retain (ys @ [y]) = Some (length ys)" using assms by (simp add: baseIndex_def)
  then show ?thesis by (simp add: pruneVersions_def Let_def)
qed

text \<open>
  C34. Compaction reclaims everything it may: without open transactions it leaves exactly one version of
  every live key, the newest, and no trace of deleted keys, whatever the file system answers.
\<close>

theorem compaction_minimal:
  assumes "storeOk d" "active d = fmempty" "\<not> dbClosed d"
  shows "versionsOf k (snd (compact out d)) = (if current d k = None then [] else [last (versionsOf k d)])"
proof -
  have retain: "oldestReadVersion d = version d" using assms(2) by (simp add: oldestReadVersion_def)
  have "versionsOf k (snd (compact out d)) = pruneVersions (versionsOf k d) (version d)"
    using assms(3) by (cases out) (simp_all add: compact_def Let_def retain)
  also have "\<dots> = (if current d k = None then [] else [last (versionsOf k d)])"
  proof (cases "versionsOf k d" rule: rev_cases)
    case Nil
    then show ?thesis by (simp add: pruneVersions_def current_def)
  next
    case (snoc ys y)
    then have "y \<in> set (versionsOf k d)" by simp
    then have "vvVersion y \<le> version d" using assms(1) unfolding storeOk_def by blast
    then show ?thesis using prune_current current_last [OF assms(1) snoc] snoc by simp
  qed
  finally show ?thesis .
qed

theorem compaction_minimal_witness:
  "versionsOf ''k'' (snd (compact CompactOk (rebuild [sampleRecord, \<lparr>recVersion = 2, recOps = [\<lparr>opKey = ''k'', opValue = ''w'', opDelete = False\<rparr>]\<rparr>]))) =
    [\<lparr>vvVersion = 2, vvValue = ''w'', vvDeleted = False\<rparr>]"
proof -
  let ?d = "rebuild [sampleRecord, \<lparr>recVersion = 2, recOps = [\<lparr>opKey = ''k'', opValue = ''w'', opDelete = False\<rparr>]\<rparr>]"
  have vs: "versionsOf k ?d = (if k = ''k'' then [\<lparr>vvVersion = 1, vvValue = ''v'', vvDeleted = False\<rparr>,
      \<lparr>vvVersion = 2, vvValue = ''w'', vvDeleted = False\<rparr>] else [])" for k
    by (simp add: rebuild_def dbApply_versions sampleRecord_def)
  have f: "version ?d = 2" "active ?d = fmempty" "\<not> dbClosed ?d"
    by (simp_all add: rebuild_def sampleRecord_def emptyDb_def)
  have ok: "storeOk ?d" unfolding storeOk_def vs f by simp
  have "readAt 2 ([\<lparr>vvVersion = 1, vvValue = ''v'', vvDeleted = False\<rparr>] @ [\<lparr>vvVersion = 2, vvValue = ''w'', vvDeleted = False\<rparr>]) = Some ''w''"
    unfolding readAt_simps by simp
  then have "current ?d ''k'' = Some ''w''" unfolding current_def vs f by simp
  then show ?thesis using compaction_minimal [OF ok f(2,3), of "''k''" CompactOk] vs by simp
qed

end
