(* ===== verification/Btree.thy ===== *)
theory Btree
  imports Keys
begin

text \<open>
  The in-memory B+tree of \<open>btree.go\<close>, which maps typed primary keys to row storage keys.

  A node carries its key, value and child slices as separate lists, as in the code. A child pointer is
  the child itself, because the tree owns its nodes; the sibling pointer \<open>next\<close> of a leaf is a leaf
  identity (a number drawn from a counter in the tree, the model of allocation), and following it looks
  the leaf up in the tree. An index out of range, which panics in Go, is the value \<^const>\<open>None\<close>.
  The iterator's loop may in principle run forever, so it is a \<open>partial_function\<close>.
\<close>

section \<open>Primary keys and their order\<close>

record pkKey =
  isInt :: bool
  pkI :: i64
  pkS :: string

definition pkFromInt :: "i64 \<Rightarrow> pkKey" where
  "pkFromInt v = \<lparr>isInt = True, pkI = v, pkS = []\<rparr>"

definition pkFromString :: "string \<Rightarrow> pkKey" where
  "pkFromString v = \<lparr>isInt = False, pkI = 0, pkS = v\<rparr>"

definition compare :: "pkKey \<Rightarrow> pkKey \<Rightarrow> int" where
  "compare a b =
     (if isInt a \<noteq> isInt b then (if isInt a then -1 else 1)
      else if isInt a then
        (if sint (pkI a) < sint (pkI b) then -1 else if sint (pkI a) > sint (pkI b) then 1 else 0)
      else (if pkS a < pkS b then -1 else if pkS a > pkS b then 1 else 0))"

definition pkEncode :: "pkKey \<Rightarrow> string" where
  "pkEncode k = (if isInt k then encodePKInt (pkI k) else encodePKString (pkS k))"

definition pkKeyFromEncoded :: "string \<Rightarrow> pkKey res" where
  "pkKeyFromEncoded encoded =
     ebind (decodePK encoded) (\<lambda>(isI, i, s). Inr (if isI then pkFromInt i else pkFromString s))"

definition formatPK :: "pkKey \<Rightarrow> string" where
  "formatPK k = (if isInt k then formatInt (pkI k) else pkS k)"

text \<open>
  What \<open>compare\<close> looks at: integers come before strings. Two keys compare equal exactly when their
  values \<open>pkv\<close> are equal.
\<close>

datatype pkOrd = IntOrd int | StrOrd string

instantiation pkOrd :: linorder
begin

fun less_eq_pkOrd :: "pkOrd \<Rightarrow> pkOrd \<Rightarrow> bool" where
  "less_eq_pkOrd (IntOrd a) (IntOrd b) = (a \<le> b)"
| "less_eq_pkOrd (IntOrd a) (StrOrd t) = True"
| "less_eq_pkOrd (StrOrd s) (IntOrd b) = False"
| "less_eq_pkOrd (StrOrd s) (StrOrd t) = (s \<le> t)"

definition less_pkOrd :: "pkOrd \<Rightarrow> pkOrd \<Rightarrow> bool" where
  "less_pkOrd a b \<longleftrightarrow> a \<le> b \<and> \<not> b \<le> a"

instance
proof
  fix x y z :: pkOrd
  show "(x < y) = (x \<le> y \<and> \<not> y \<le> x)" by (simp add: less_pkOrd_def)
  show "x \<le> x" by (cases x) simp_all
  show "x \<le> y \<Longrightarrow> y \<le> z \<Longrightarrow> x \<le> z" by (cases x; cases y; cases z) auto
  show "x \<le> y \<Longrightarrow> y \<le> x \<Longrightarrow> x = y" by (cases x; cases y) auto
  show "x \<le> y \<or> y \<le> x" by (cases x; cases y) auto
qed

end

definition pkv :: "pkKey \<Rightarrow> pkOrd" where
  "pkv k = (if isInt k then IntOrd (sint (pkI k)) else StrOrd (pkS k))"

lemma less_pkOrd_simps [simp]:
  "IntOrd a < IntOrd b \<longleftrightarrow> a < b" "IntOrd a < StrOrd t" "\<not> StrOrd s < IntOrd b"
  "StrOrd s < StrOrd t \<longleftrightarrow> s < t"
  by (auto simp: less_pkOrd_def)

lemma compare_order [simp]:
  "compare a b < 0 \<longleftrightarrow> pkv a < pkv b" "compare a b = 0 \<longleftrightarrow> pkv a = pkv b"
  "0 \<le> compare a b \<longleftrightarrow> pkv b \<le> pkv a"
  by (auto simp: compare_def pkv_def not_less)

lemma pkv_from [simp]: "pkv (pkFromInt v) = IntOrd (sint v)" "pkv (pkFromString s) = StrOrd s"
  by (simp_all add: pkv_def pkFromInt_def pkFromString_def)


section \<open>Nodes and operations\<close>

type_synonym leafId = nat

datatype node =
    LeafN leafId "pkKey list" "string list" "leafId option"  \<comment> \<open>\<open>keys\<close>, \<open>vals\<close>, \<open>next\<close>\<close>
  | InnerN "pkKey list" "node list"                            \<comment> \<open>\<open>keys\<close>, \<open>children\<close>\<close>

record btree =
  root :: node
  freshLeaf :: leafId

record btreeIter =
  itNode :: "leafId option"
  itIdx :: nat

definition btreeOrder :: nat where "btreeOrder = 8"

definition newBTree :: btree where
  "newBTree = \<lparr>root = LeafN 0 [] [] None, freshLeaf = 1\<rparr>"

fun childIndex :: "pkKey \<Rightarrow> pkKey list \<Rightarrow> nat" where
  "childIndex k [] = 0"
| "childIndex k (x # xs) = (if compare k x \<ge> 0 then Suc (childIndex k xs) else 0)"

fun lowerIndex :: "pkKey \<Rightarrow> pkKey list \<Rightarrow> nat" where
  \<comment> \<open>the loop \<open>for i < len(n.keys) && n.keys[i].compare(k) < 0\<close> of \<open>insertLeaf\<close> and \<open>Seek\<close>\<close>
  "lowerIndex k [] = 0"
| "lowerIndex k (x # xs) = (if compare x k < 0 then Suc (lowerIndex k xs) else 0)"

fun equalIndex :: "pkKey \<Rightarrow> pkKey list \<Rightarrow> nat option" where
  \<comment> \<open>the loop \<open>for i, key := range n.keys\<close> of \<open>Get\<close> and \<open>delete\<close>\<close>
  "equalIndex k [] = None"
| "equalIndex k (x # xs) = (if compare x k = 0 then Some 0 else map_option Suc (equalIndex k xs))"

lemma child_size: "i < length cs \<Longrightarrow> size (cs ! i) < size (InnerN ks cs)"
  using size_list_estimation' [of "cs ! i" cs "size (cs ! i)" size] by simp

function leafFor :: "pkKey \<Rightarrow> node \<Rightarrow> node option" where
  \<comment> \<open>the descent \<open>for !n.leaf\<close> of \<open>Get\<close> and \<open>Seek\<close>\<close>
  "leafFor k (LeafN lid ks vs nx) = Some (LeafN lid ks vs nx)"
| "leafFor k (InnerN ks cs) =
     (let i = childIndex k ks in if i < length cs then leafFor k (cs ! i) else None)"
  by pat_completeness auto
termination
  by (relation "measure (\<lambda>(k, n). size n)") (auto simp del: node.size intro: child_size)

function firstLeaf :: "node \<Rightarrow> node option" where
  \<comment> \<open>the descent of \<open>Ascend\<close>\<close>
  "firstLeaf (LeafN lid ks vs nx) = Some (LeafN lid ks vs nx)"
| "firstLeaf (InnerN ks cs) = (if 0 < length cs then firstLeaf (cs ! 0) else None)"
  by pat_completeness auto
termination
  by (relation "measure size") (auto simp del: node.size intro: child_size)

definition btGet :: "btree \<Rightarrow> pkKey \<Rightarrow> string option option" where
  "btGet t k =
     (case leafFor k (root t) of
        Some (LeafN lid ks vs nx) \<Rightarrow>
          (case equalIndex k ks of
             None \<Rightarrow> Some None
           | Some i \<Rightarrow> if i < length vs then Some (Some (vs ! i)) else None)
      | _ \<Rightarrow> None)"

type_synonym insertResult = "(node \<times> (pkKey \<times> node) option \<times> leafId) option"

definition splitLeaf :: "leafId \<Rightarrow> leafId \<Rightarrow> pkKey list \<Rightarrow> string list \<Rightarrow> leafId option \<Rightarrow> insertResult" where
  "splitLeaf fresh lid ks vs nx =
     (let mid = length ks div 2 in
      if mid < length ks \<and> mid \<le> length vs then
        Some (LeafN lid (take mid ks) (take mid vs) (Some fresh),
              Some (drop mid ks ! 0, LeafN fresh (drop mid ks) (drop mid vs) nx), Suc fresh)
      else None)"

definition insertLeaf ::
  "pkKey \<Rightarrow> string \<Rightarrow> leafId \<Rightarrow> leafId \<Rightarrow> pkKey list \<Rightarrow> string list \<Rightarrow> leafId option \<Rightarrow> insertResult" where
  "insertLeaf k rk fresh lid ks vs nx =
     (let i = lowerIndex k ks in
      if i < length ks \<and> compare (ks ! i) k = 0 then
        if i < length vs then Some (LeafN lid ks (vs[i := rk]) nx, None, fresh) else None
      else if i \<le> length vs then
        let ks' = take i ks @ k # drop i ks;
            vs' = take i vs @ rk # drop i vs
        in if length ks' \<le> btreeOrder then Some (LeafN lid ks' vs' nx, None, fresh)
           else splitLeaf fresh lid ks' vs' nx
      else None)"

definition splitInterior :: "leafId \<Rightarrow> pkKey list \<Rightarrow> node list \<Rightarrow> insertResult" where
  "splitInterior fresh ks cs =
     (let mid = length ks div 2 in
      if mid < length ks \<and> mid + 1 \<le> length cs then
        Some (InnerN (take mid ks) (take (mid + 1) cs),
              Some (ks ! mid, InnerN (drop (mid + 1) ks) (drop (mid + 1) cs)), fresh)
      else None)"

function btInsert :: "pkKey \<Rightarrow> string \<Rightarrow> leafId \<Rightarrow> node \<Rightarrow> insertResult" where
  "btInsert k rk fresh (LeafN lid ks vs nx) = insertLeaf k rk fresh lid ks vs nx"
| "btInsert k rk fresh (InnerN ks cs) =
     (let i = childIndex k ks in
      if i < length cs then
        (case btInsert k rk fresh (cs ! i) of
           None \<Rightarrow> None
         | Some (c, None, fresh') \<Rightarrow> Some (InnerN ks (cs[i := c]), None, fresh')
         | Some (c, Some (splitKey, splitRight), fresh') \<Rightarrow>
             let ks' = take i ks @ splitKey # drop i ks;
                 cs' = take i cs @ c # splitRight # drop (i + 1) cs
             in if length ks' \<le> btreeOrder then Some (InnerN ks' cs', None, fresh')
                else splitInterior fresh' ks' cs')
      else None)"
  by pat_completeness auto
termination
  by (relation "measure (\<lambda>(k, rk, fresh, n). size n)") (auto simp del: node.size intro: child_size)

definition btPut :: "btree \<Rightarrow> pkKey \<Rightarrow> string \<Rightarrow> btree option" where
  "btPut t k rk =
     (case btInsert k rk (freshLeaf t) (root t) of
        None \<Rightarrow> None
      | Some (n, None, fresh) \<Rightarrow> Some \<lparr>root = n, freshLeaf = fresh\<rparr>
      | Some (n, Some (splitKey, splitRight), fresh) \<Rightarrow>
          Some \<lparr>root = InnerN [splitKey] [n, splitRight], freshLeaf = fresh\<rparr>)"

function nodeDelete :: "pkKey \<Rightarrow> node \<Rightarrow> node option" where
  "nodeDelete k (LeafN lid ks vs nx) =
     (case equalIndex k ks of
        None \<Rightarrow> Some (LeafN lid ks vs nx)
      | Some i \<Rightarrow>
          if i + 1 \<le> length vs then
            Some (LeafN lid (take i ks @ drop (i + 1) ks) (take i vs @ drop (i + 1) vs) nx)
          else None)"
| "nodeDelete k (InnerN ks cs) =
     (let i = childIndex k ks in
      if i < length cs then
        (case nodeDelete k (cs ! i) of None \<Rightarrow> None | Some c \<Rightarrow> Some (InnerN ks (cs[i := c])))
      else None)"
  by pat_completeness auto
termination
  by (relation "measure (\<lambda>(k, n). size n)") (auto simp del: node.size intro: child_size)

definition btDelete :: "btree \<Rightarrow> pkKey \<Rightarrow> btree option" where
  "btDelete t k =
     (case nodeDelete k (root t) of
        None \<Rightarrow> None
      | Some n \<Rightarrow>
          (case n of
             InnerN ks cs \<Rightarrow>
               if length ks = 0 \<and> length cs = 1 then Some (t\<lparr>root := cs ! 0\<rparr>) else Some (t\<lparr>root := n\<rparr>)
           | LeafN _ _ _ _ \<Rightarrow> Some (t\<lparr>root := n\<rparr>)))"

definition btSeek :: "btree \<Rightarrow> pkKey \<Rightarrow> btreeIter option" where
  "btSeek t k =
     (case leafFor k (root t) of
        Some (LeafN lid ks vs nx) \<Rightarrow> Some \<lparr>itNode = Some lid, itIdx = lowerIndex k ks\<rparr>
      | _ \<Rightarrow> None)"

definition btAscend :: "btree \<Rightarrow> btreeIter option" where
  "btAscend t =
     (case firstLeaf (root t) of
        Some (LeafN lid ks vs nx) \<Rightarrow> Some \<lparr>itNode = Some lid, itIdx = 0\<rparr>
      | _ \<Rightarrow> None)"

type_synonym leaf = "leafId \<times> pkKey list \<times> string list \<times> leafId option"

fun leaves :: "node \<Rightarrow> leaf list" where
  "leaves (LeafN lid ks vs nx) = [(lid, ks, vs, nx)]"
| "leaves (InnerN ks cs) = concat (map leaves cs)"

definition deref :: "node \<Rightarrow> leafId \<Rightarrow> leaf option" where
  \<comment> \<open>the leaf a \<open>next\<close> pointer points to\<close>
  "deref r lid = List.find (\<lambda>l. fst l = lid) (leaves r)"

partial_function (option) iterNext ::
  "node \<Rightarrow> leafId option \<Rightarrow> nat \<Rightarrow> ((pkKey \<times> string) option \<times> btreeIter) res option" where
  "iterNext r nd idx =
     (case nd of
        None \<Rightarrow> Some (Inr (None, \<lparr>itNode = None, itIdx = idx\<rparr>))
      | Some lid \<Rightarrow>
          (case deref r lid of
             None \<Rightarrow> Some (Inl Panic)
           | Some (_, ks, vs, nx) \<Rightarrow>
               if idx < length ks then
                 if idx < length vs then
                   Some (Inr (Some (ks ! idx, vs ! idx), \<lparr>itNode = nd, itIdx = Suc idx\<rparr>))
                 else Some (Inl Panic)
               else iterNext r nx 0))"

declare iterNext.simps [code]

definition btNext :: "btree \<Rightarrow> btreeIter \<Rightarrow> ((pkKey \<times> string) option \<times> btreeIter) res option" where
  "btNext t it = iterNext (root t) (itNode it) (itIdx it)"


section \<open>The tree as one ordered sequence\<close>

text \<open>
  Read from left to right, a tree is a sequence of items: an entry \<open>(k, Some v)\<close> of a leaf, or a
  separator \<open>(k, None)\<close> of an interior node. The search-tree property says that this sequence is
  strictly increasing, where a separator comes just before an entry with the same key.
\<close>

type_synonym item = "pkOrd \<times> string option"

definition before :: "item \<Rightarrow> item \<Rightarrow> bool" where
  "before x y \<longleftrightarrow> fst x < fst y \<or> fst x = fst y \<and> snd x = None \<and> snd y \<noteq> None"

fun weave :: "pkKey list \<Rightarrow> item list list \<Rightarrow> item list" where
  "weave ks [] = []"
| "weave [] (f # fs) = f"
| "weave (k # ks) (f # fs) = f @ (pkv k, None) # weave ks fs"

fun flat :: "node \<Rightarrow> item list" where
  "flat (LeafN lid ks vs nx) = zip (map pkv ks) (map Some vs)"
| "flat (InnerN ks cs) = weave ks (map flat cs)"

fun entriesOf :: "item list \<Rightarrow> (pkOrd \<times> string) list" where
  "entriesOf [] = []"
| "entriesOf ((k, Some v) # xs) = (k, v) # entriesOf xs"
| "entriesOf ((k, None) # xs) = entriesOf xs"

fun shape :: "nat \<Rightarrow> node \<Rightarrow> bool" where
  "shape 0 (LeafN lid ks vs nx) \<longleftrightarrow> length ks = length vs \<and> length ks \<le> btreeOrder"
| "shape (Suc h) (InnerN ks cs) \<longleftrightarrow>
     length cs = Suc (length ks) \<and> ks \<noteq> [] \<and> length ks \<le> btreeOrder \<and> (\<forall>c\<in>set cs. shape h c)"
| "shape _ _ \<longleftrightarrow> False"

fun height :: "node \<Rightarrow> nat" where
  "height (LeafN _ _ _ _) = 0"
| "height (InnerN ks cs) = Suc (case cs of [] \<Rightarrow> 0 | c # _ \<Rightarrow> height c)"

definition links :: "node \<Rightarrow> (leafId \<times> leafId option) list" where
  "links n = map (\<lambda>(lid, ks, vs, nx). (lid, nx)) (leaves n)"

fun chained :: "(leafId \<times> leafId option) list \<Rightarrow> bool" where
  "chained [] \<longleftrightarrow> True"
| "chained [x] \<longleftrightarrow> snd x = None"
| "chained (x # y # r) \<longleftrightarrow> snd x = Some (fst y) \<and> chained (y # r)"

definition btInv :: "btree \<Rightarrow> bool" where
  "btInv t \<longleftrightarrow>
     shape (height (root t)) (root t) \<and> sorted_wrt before (flat (root t))
     \<and> chained (links (root t)) \<and> distinct (map fst (links (root t)))
     \<and> list_all (\<lambda>l. fst l < freshLeaf t) (links (root t))"

definition btEntries :: "btree \<Rightarrow> (pkOrd \<times> string) list" where
  "btEntries t = entriesOf (flat (root t))"

lemma before_trans: "before x y \<Longrightarrow> before y z \<Longrightarrow> before x z"
  by (auto simp: before_def)

lemma before_entry [simp]: "before (a, Some v) y \<longleftrightarrow> a < fst y"
  by (auto simp: before_def)

lemma before_sep [simp]: "before x (a, None) \<longleftrightarrow> fst x < a"
  by (auto simp: before_def)

lemma entriesOf_append [simp]: "entriesOf (xs @ ys) = entriesOf xs @ entriesOf ys"
  by (induction xs rule: entriesOf.induct) simp_all

lemma set_entriesOf: "(k, v) \<in> set (entriesOf xs) \<longleftrightarrow> (k, Some v) \<in> set xs"
  by (induction xs rule: entriesOf.induct) auto

lemma entriesOf_filter:
  "entriesOf (filter P xs) = filter (\<lambda>(k, v). P (k, Some v)) (entriesOf xs)"
  by (induction xs rule: entriesOf.induct) auto

lemma sorted_entriesOf: "sorted_wrt before xs \<Longrightarrow> sorted_wrt (<) (map fst (entriesOf xs))"
  by (induction xs rule: entriesOf.induct) (fastforce simp: set_entriesOf)+

lemma shape_height: "shape h n \<Longrightarrow> height n = h"
proof (induction h arbitrary: n)
  case 0
  then show ?case by (cases n) simp_all
next
  case (Suc h)
  then show ?case by (cases n) (auto split: list.splits)
qed

fun lefts :: "pkKey list \<Rightarrow> item list list \<Rightarrow> item list" where
  "lefts (k # ks) (f # fs) = f @ (pkv k, None) # lefts ks fs"
| "lefts _ _ = []"

fun rights :: "pkKey list \<Rightarrow> item list list \<Rightarrow> item list" where
  "rights [] fs = []"
| "rights (k # ks) fs = (pkv k, None) # weave ks fs"

lemma weave_append:
  "length kl = length fl \<Longrightarrow> weave (kl @ kr) (fl @ f # fr) = lefts kl fl @ weave kr (f # fr)"
  by (induction kl fl rule: list_induct2) simp_all

lemma weave_rights: "weave ks (f # fs) = f @ rights ks fs"
  by (cases ks) simp_all

lemma weave_child:
  "length kl = length fl \<Longrightarrow> weave (kl @ kr) (fl @ f # fr) = lefts kl fl @ f @ rights kr fr"
  by (simp add: weave_append weave_rights)

lemma lefts_last:
  "length kl = length fl \<Longrightarrow> kl \<noteq> [] \<Longrightarrow> \<exists>xs. lefts kl fl = xs @ [(pkv (last kl), None)]"
  by (induction kl fl rule: list_induct2) auto

lemma lefts_items: "length kl = length fl \<Longrightarrow> f \<in> set fl \<Longrightarrow> set f \<subseteq> set (lefts kl fl)"
  by (induction kl fl rule: list_induct2) auto

lemma weave_items: "length fs = Suc (length ks) \<Longrightarrow> f \<in> set fs \<Longrightarrow> set f \<subseteq> set (weave ks fs)"
  by (induction ks fs rule: weave.induct) auto

lemma rights_items: "length fs = length ks \<Longrightarrow> f \<in> set fs \<Longrightarrow> set f \<subseteq> set (rights ks fs)"
  using weave_items [of fs "tl ks" f] by (cases ks) auto

lemma childIndex_le: "childIndex k ks \<le> length ks"
  by (induction ks) auto

lemma childIndex_below: "x \<in> set (take (childIndex k ks) ks) \<Longrightarrow> pkv x \<le> pkv k"
  by (induction ks) (auto split: if_splits)

lemma childIndex_above: "childIndex k ks < length ks \<Longrightarrow> pkv k < pkv (ks ! childIndex k ks)"
  by (induction ks) (auto simp: not_le split: if_splits)

text \<open>
  The shared fact about interior nodes: around the child that the search descends into, the items to
  the left come before an entry with key \<open>k\<close> and those to the right come after it; replacing or
  splitting that child only changes its own part of the sequence.
\<close>

lemma inner_focus:
  assumes "shape (Suc h) (InnerN ks cs)" "sorted_wrt before (flat (InnerN ks cs))"
    and i: "i = childIndex k ks"
  obtains fl fr where
    "i < length cs" "shape h (cs ! i)"
    "flat (InnerN ks cs) = fl @ flat (cs ! i) @ fr"
    "\<And>c. flat (InnerN ks (cs[i := c])) = fl @ flat c @ fr"
    "\<And>c sk r. flat (InnerN (take i ks @ sk # drop i ks) (take i cs @ c # r # drop (i + 1) cs))
       = fl @ (flat c @ (pkv sk, None) # flat r) @ fr"
    "\<And>x v. x \<in> set fl \<Longrightarrow> before x (pkv k, Some v)" "\<And>x. x \<in> set fr \<Longrightarrow> pkv k < fst x"
    "\<And>c. c \<in> set (take i cs) \<Longrightarrow> set (flat c) \<subseteq> set fl"
    "\<And>c. c \<in> set (drop (i + 1) cs) \<Longrightarrow> set (flat c) \<subseteq> set fr"
proof -
  let ?fl = "lefts (take i ks) (map flat (take i cs))"
  let ?fr = "rights (drop i ks) (map flat (drop (i + 1) cs))"
  have ik: "i \<le> length ks" using childIndex_le i by simp
  then have ic: "i < length cs" using assms(1) by simp
  have len: "length (take i ks) = length (map flat (take i cs))" using ik ic by simp
  have frame: "weave (take i ks @ drop i ks) (map flat (take i cs @ c # drop (i + 1) cs))
      = ?fl @ flat c @ ?fr" for c
    using weave_child [OF len, of "drop i ks" "flat c" "map flat (drop (i + 1) cs)"] by simp
  have at_i: "flat (InnerN ks (cs[i := c])) = ?fl @ flat c @ ?fr" for c
    using frame [of c] ic by (simp add: upd_conv_take_nth_drop)
  have fi: "flat (InnerN ks cs) = ?fl @ flat (cs ! i) @ ?fr"
    using at_i [of "cs ! i"] by simp
  have split: "flat (InnerN (take i ks @ sk # drop i ks) (take i cs @ c # r # drop (i + 1) cs))
      = ?fl @ (flat c @ (pkv sk, None) # flat r) @ ?fr" for c sk r
    using weave_child [OF len, of "sk # drop i ks" "flat c" "flat r # map flat (drop (i + 1) cs)"]
    by (simp add: weave_rights)
  have left: "before x (pkv k, Some v)" if "x \<in> set ?fl" for x v
  proof -
    from that have "take i ks \<noteq> []" by (cases "take i ks") auto
    with lefts_last [OF len] obtain xs where xs: "?fl = xs @ [(pkv (last (take i ks)), None)]" by blast
    have "pkv (last (take i ks)) \<le> pkv k"
      using childIndex_below [of _ k ks] last_in_set [OF \<open>take i ks \<noteq> []\<close>] i by blast
    moreover have "\<forall>y\<in>set xs. fst y < pkv (last (take i ks))"
      using assms(2) unfolding fi xs by (simp add: sorted_wrt_append)
    then have "fst x < pkv (last (take i ks)) \<or> x = (pkv (last (take i ks)), None)"
      using that unfolding xs by auto
    ultimately show ?thesis by (auto simp: before_def)
  qed
  have right: "pkv k < fst x" if "x \<in> set ?fr" for x
  proof (cases "drop i ks")
    case (Cons b bs)
    then have "i < length ks" by (metis drop_all leI list.distinct(1))
    with Cons have "b = ks ! i" by (metis hd_drop_conv_nth list.sel(1))
    with \<open>i < length ks\<close> have "pkv k < pkv b" using childIndex_above i by blast
    moreover have "x = (pkv b, None) \<or> before (pkv b, None) x"
      using assms(2) that unfolding fi Cons by (auto simp: sorted_wrt_append)
    ultimately show ?thesis by (auto simp: before_def)
  qed (use that in simp)
  have inl: "set (flat c) \<subseteq> set ?fl" if "c \<in> set (take i cs)" for c
    using that lefts_items [OF len] by simp
  have inr: "set (flat c) \<subseteq> set ?fr" if "c \<in> set (drop (i + 1) cs)" for c
    using that rights_items [of "map flat (drop (i + 1) cs)" "drop i ks"] assms(1) by simp
  have "shape h (cs ! i)" using assms(1) ic by simp
  from that [OF ic this fi at_i split left right inl inr] show thesis by blast
qed


section \<open>Search\<close>

lemma equalIndex_None: "equalIndex k ks = None \<longleftrightarrow> pkv k \<notin> pkv ` set ks"
  by (induction ks) auto

lemma equalIndex_Some:
  "equalIndex k ks = Some i \<Longrightarrow> i < length ks \<and> pkv (ks ! i) = pkv k"
  by (induction ks arbitrary: i) (auto split: if_splits)

lemma entries_outside:
  "(\<And>x v. x \<in> set xs \<Longrightarrow> before x (k, Some v)) \<Longrightarrow> map_of (entriesOf xs) k = None"
  "(\<And>x. x \<in> set xs \<Longrightarrow> k < fst x) \<Longrightarrow> map_of (entriesOf xs) k = None"
  by (force simp: map_of_eq_None_iff set_entriesOf before_def)+

lemma leafFor_lookup:
  assumes "shape h n" "sorted_wrt before (flat n)"
  shows "\<exists>lid ks vs nx. leafFor k n = Some (LeafN lid ks vs nx) \<and> length ks = length vs
    \<and> map_of (entriesOf (flat n)) (pkv k) = map_of (zip (map pkv ks) vs) (pkv k)"
  using assms
proof (induction k n arbitrary: h rule: leafFor.induct)
  case (1 k lid ks vs nx)
  have "entriesOf (zip (map pkv ks) (map Some vs)) = zip (map pkv ks) vs"
    if "length ks = length vs" using that by (induction ks vs rule: list_induct2) simp_all
  then show ?case using 1 by (cases h) simp_all
next
  case (2 k ks cs)
  from 2(2) obtain h' where h: "h = Suc h'" by (cases h) simp_all
  from inner_focus [OF 2(2) [unfolded h] 2(3) refl, of k] obtain fl fr where f:
    "childIndex k ks < length cs" "shape h' (cs ! childIndex k ks)"
    "flat (InnerN ks cs) = fl @ flat (cs ! childIndex k ks) @ fr"
    "\<And>x v. x \<in> set fl \<Longrightarrow> before x (pkv k, Some v)" "\<And>x. x \<in> set fr \<Longrightarrow> pkv k < fst x"
    by metis
  have "map_of (entriesOf fl) (pkv k) = None" "map_of (entriesOf fr) (pkv k) = None"
    using f(4,5) entries_outside by blast+
  then have "map_of (entriesOf (flat (InnerN ks cs))) (pkv k)
      = map_of (entriesOf (flat (cs ! childIndex k ks))) (pkv k)"
    unfolding f(3) by (simp add: map_add_def split: option.splits)
  moreover have "sorted_wrt before (flat (cs ! childIndex k ks))"
    using 2(3) unfolding f(3) by (simp add: sorted_wrt_append)
  ultimately show ?case
    using 2(1) [OF refl f(1) f(2)] f(1) by simp
qed

lemma btGet_map:
  assumes "btInv t"
  shows "btGet t k = Some (map_of (btEntries t) (pkv k))"
proof -
  from assms leafFor_lookup [of _ "root t" k] obtain lid ks vs nx where l:
    "leafFor k (root t) = Some (LeafN lid ks vs nx)" "length ks = length vs"
    "map_of (btEntries t) (pkv k) = map_of (zip (map pkv ks) vs) (pkv k)"
    unfolding btInv_def btEntries_def by meson
  have "(case equalIndex k ks of None \<Rightarrow> Some None
        | Some i \<Rightarrow> if i < length vs then Some (Some (vs ! i)) else None)
      = Some (map_of (zip (map pkv ks) vs) (pkv k))"
    using l(2)
  proof (induction ks vs rule: list_induct2)
    case (Cons x xs y ys)
    then show ?case by (cases "equalIndex k xs") (auto split: if_splits)
  qed simp
  with l show ?thesis by (simp add: btGet_def)
qed


section \<open>Insertion\<close>

definition insE :: "pkOrd \<Rightarrow> string \<Rightarrow> item list \<Rightarrow> item list" where
  "insE k v xs = filter (\<lambda>x. before x (k, Some v)) xs @ (k, Some v) # filter (\<lambda>x. k < fst x) xs"

definition sepd :: "item list \<Rightarrow> item list \<Rightarrow> bool" where
  \<comment> \<open>the same sequence, except that a separator may have been added\<close>
  "sepd xs ys \<longleftrightarrow> ys = xs \<or>
     (\<exists>p a q. xs = p @ q \<and> ys = p @ (a, None) # q \<and> p \<noteq> [] \<and> q \<noteq> []
        \<and> before (last p) (a, None) \<and> before (a, None) (hd q))"

lemma insE_frame:
  assumes "\<And>x. x \<in> set fl \<Longrightarrow> before x (k, Some v)" "\<And>x. x \<in> set fr \<Longrightarrow> k < fst x"
  shows "insE k v (fl @ xs @ fr) = fl @ insE k v xs @ fr"
proof -
  have "filter (\<lambda>x. before x (k, Some v)) fl = fl" "filter (\<lambda>x. k < fst x) fr = fr"
    using assms by (simp_all add: filter_id_conv)
  moreover have "filter (\<lambda>x. before x (k, Some v)) fr = []" "filter (\<lambda>x. k < fst x) fl = []"
    using assms by (fastforce simp: filter_empty_conv before_def)+
  ultimately show ?thesis by (simp add: insE_def)
qed

lemma insE_sorted: "sorted_wrt before xs \<Longrightarrow> sorted_wrt before (insE k v xs)"
  by (auto simp: insE_def sorted_wrt_append sorted_wrt_filter intro: before_trans)

lemma insE_entries:
  assumes "sorted_wrt before xs"
  shows "map_of (entriesOf (insE k v xs)) = (map_of (entriesOf xs))(k \<mapsto> v)"
proof
  fix j
  let ?s = "sorted_wrt (<) (map fst (entriesOf xs))"
  have *: "map_of (filter (\<lambda>(k, _). P k) es) j = (if P j then map_of es j else None)"
    for P :: "pkOrd \<Rightarrow> bool" and es :: "(pkOrd \<times> string) list"
    by (induction es) auto
  show "map_of (entriesOf (insE k v xs)) j = ((map_of (entriesOf xs))(k \<mapsto> v)) j"
    using * [of "\<lambda>a. a < k"] * [of "\<lambda>a. k < a"]
    by (auto simp: insE_def entriesOf_filter map_add_def split: option.splits)
qed

lemma sepd_refl [simp]: "sepd xs xs"
  by (simp add: sepd_def)

lemma sepd_frame:
  assumes "sepd xs ys"
  shows "sepd (fl @ xs @ fr) (fl @ ys @ fr)"
proof (cases "ys = xs")
  case False
  with assms obtain p a q where "xs = p @ q" "ys = p @ (a, None) # q" "p \<noteq> []" "q \<noteq> []"
    "before (last p) (a, None)" "before (a, None) (hd q)"
    unfolding sepd_def by blast
  then have "fl @ xs @ fr = (fl @ p) @ (q @ fr) \<and> fl @ ys @ fr = (fl @ p) @ (a, None) # (q @ fr)
      \<and> fl @ p \<noteq> [] \<and> q @ fr \<noteq> [] \<and> before (last (fl @ p)) (a, None) \<and> before (a, None) (hd (q @ fr))"
    by simp
  then show ?thesis unfolding sepd_def by blast
qed simp

lemma sepd_sorted:
  assumes "sorted_wrt before xs" "sepd xs ys"
  shows "sorted_wrt before ys"
proof (cases "ys = xs")
  case False
  with assms obtain p a q where s: "xs = p @ q" "ys = p @ (a, None) # q" "p \<noteq> []" "q \<noteq> []"
    "before (last p) (a, None)" "before (a, None) (hd q)"
    unfolding sepd_def by blast
  have "before x (a, None)" if "x \<in> set p" for x
    using that assms(1) s(1,3,5)
    by (cases p rule: rev_cases) (auto simp: sorted_wrt_append simp del: before_sep intro: before_trans)
  moreover have "before (a, None) x" if "x \<in> set q" for x
    using that assms(1) s(1,4,6) by (cases q) (auto simp: sorted_wrt_append intro: before_trans)
  ultimately show ?thesis using assms(1) s(1,2) by (auto simp: sorted_wrt_append)
qed (use assms in simp)

lemma sepd_entries: "sepd xs ys \<Longrightarrow> entriesOf ys = entriesOf xs"
  by (auto simp: sepd_def)


fun splitItems :: "node \<Rightarrow> (pkKey \<times> node) option \<Rightarrow> item list" where
  "splitItems n None = flat n"
| "splitItems n (Some (sk, r)) = flat n @ (pkv sk, None) # flat r"

definition splitOk :: "nat \<Rightarrow> item list \<Rightarrow> insertResult \<Rightarrow> bool" where
  \<comment> \<open>an insertion succeeded with the given items, and both parts have the shape of a tree of height \<open>h\<close>\<close>
  "splitOk h xs res \<longleftrightarrow>
     (\<exists>n sp f. res = Some (n, sp, f) \<and> shape h n \<and> (\<forall>sk r. sp = Some (sk, r) \<longrightarrow> shape h r)
        \<and> sepd xs (splitItems n sp))"

lemma lowerIndex_le: "lowerIndex k ks \<le> length ks"
  by (induction ks) auto

lemma lowerIndex_below: "x \<in> set (take (lowerIndex k ks) ks) \<Longrightarrow> pkv x < pkv k"
  by (induction ks) (auto split: if_splits)

lemma lowerIndex_above: "lowerIndex k ks < length ks \<Longrightarrow> pkv k \<le> pkv (ks ! lowerIndex k ks)"
  by (induction ks) (auto simp: not_less split: if_splits)

lemma flat_leaf_append:
  "length ks = length vs \<Longrightarrow>
   flat (LeafN l (ks @ ks') (vs @ vs') nx) = flat (LeafN l ks vs nx) @ flat (LeafN l ks' vs' nx)"
  by simp

lemma flat_leaf_items:
  "x \<in> set (flat (LeafN l ks vs nx)) \<Longrightarrow> \<exists>y\<in>set ks. \<exists>w. x = (pkv y, Some w)"
  by (cases x) (fastforce dest: set_zip_leftD set_zip_rightD)

lemma flat_leaf_sorted:
  assumes "length ks = length vs"
  shows "sorted_wrt before (flat (LeafN l ks vs nx)) \<longleftrightarrow> sorted_wrt (<) (map pkv ks)"
  using assms
proof (induction ks vs rule: list_induct2)
  case (Cons x xs y ys)
  let ?z = "zip (map pkv xs) (map Some ys)"
  have "(\<forall>a\<in>set ?z. pkv x < fst a) \<longleftrightarrow> (\<forall>b\<in>set (map fst ?z). pkv x < b)" by simp
  also have "map fst ?z = map pkv xs" using Cons.hyps by simp
  finally show ?case using Cons.IH by simp
qed simp

lemma insE_at:
  assumes "\<And>x. x \<in> set l \<Longrightarrow> before x (k, Some v)" "\<And>x. x \<in> set r \<Longrightarrow> k < fst x"
  shows "insE k v (l @ r) = l @ (k, Some v) # r" "insE k v (l @ (k, Some w) # r) = l @ (k, Some v) # r"
  using insE_frame [OF assms, where xs = "[]"] insE_frame [OF assms, where xs = "[(k, Some w)]"]
  by (simp_all add: insE_def)

text \<open>The position that \<open>insertLeaf\<close> finds splits the leaf into smaller and not smaller keys.\<close>

lemma leaf_focus:
  assumes "length ks = length vs" "sorted_wrt (<) (map pkv ks)" and i: "i = lowerIndex k ks"
  shows "\<And>x v. x \<in> set (flat (LeafN l (take i ks) (take i vs) nx)) \<Longrightarrow> before x (pkv k, Some v)"
    and "i < length ks \<Longrightarrow> pkv (ks ! i) = pkv k \<Longrightarrow>
      x \<in> set (flat (LeafN l (drop (Suc i) ks) (drop (Suc i) vs) nx)) \<Longrightarrow> pkv k < fst x"
    and "\<not> (i < length ks \<and> pkv (ks ! i) = pkv k) \<Longrightarrow>
      x \<in> set (flat (LeafN l (drop i ks) (drop i vs) nx)) \<Longrightarrow> pkv k < fst x"
proof -
  show "before x (pkv k, Some v)" if "x \<in> set (flat (LeafN l (take i ks) (take i vs) nx))" for x v
    using flat_leaf_items [OF that] lowerIndex_below [of _ k ks] i by (auto simp: before_def)
  have mono: "pkv (ks ! i) < pkv y" if "y \<in> set (drop (Suc i) ks)" "i < length ks" for y
  proof -
    have "sorted_wrt (<) (map pkv (take i ks @ ks ! i # drop (Suc i) ks))"
      using assms(2) id_take_nth_drop [OF that(2)] by simp
    then show ?thesis using that(1) by (simp add: sorted_wrt_append)
  qed
  show "pkv k < fst x" if "i < length ks" "pkv (ks ! i) = pkv k"
    "x \<in> set (flat (LeafN l (drop (Suc i) ks) (drop (Suc i) vs) nx))"
    using flat_leaf_items [OF that(3)] mono that(1,2) by auto
  show "pkv k < fst x" if "\<not> (i < length ks \<and> pkv (ks ! i) = pkv k)"
    "x \<in> set (flat (LeafN l (drop i ks) (drop i vs) nx))"
  proof -
    from that(2) obtain y where y: "y \<in> set (drop i ks)" "fst x = pkv y"
      using flat_leaf_items by fastforce
    then have il: "i < length ks" by (metis drop_all empty_iff leI list.set(1))
    then have "pkv k < pkv (ks ! i)" using that(1) lowerIndex_above [of k ks] i by force
    moreover have "y = ks ! i \<or> y \<in> set (drop (Suc i) ks)"
      using y(1) Cons_nth_drop_Suc [OF il] by (metis set_ConsD)
    ultimately show ?thesis using mono [of y] il y(2) by auto
  qed
qed

lemma splitLeaf_ok:
  assumes "length ks = length vs" "length ks = Suc btreeOrder"
    and "sorted_wrt (<) (map pkv ks)"
  shows "splitOk 0 (flat (LeafN l ks vs nx)) (splitLeaf f l ks vs nx)"
proof -
  let ?m = "length ks div 2"
  have m: "0 < ?m" "?m < length ks" "?m < length vs" "?m \<le> btreeOrder" "length ks - ?m \<le> btreeOrder"
    using assms(1,2) by (simp_all add: btreeOrder_def)
  let ?p = "flat (LeafN l (take ?m ks) (take ?m vs) (Some f))"
    and ?q = "flat (LeafN f (drop ?m ks) (drop ?m vs) nx)"
  have pq: "flat (LeafN l ks vs nx) = ?p @ ?q"
    using assms(1) flat_leaf_append [of "take ?m ks" "take ?m vs" l "drop ?m ks" "drop ?m vs" nx] by simp
  have ne: "?p \<noteq> []" "?q \<noteq> []" using m assms(1) by auto
  have hd: "hd ?q = (pkv (drop ?m ks ! 0), Some (vs ! ?m))"
    using m(2,3) by (simp add: hd_zip hd_map hd_drop_conv_nth)
  have "sorted_wrt before (?p @ ?q)" using flat_leaf_sorted assms(1,3) pq by metis
  then have "before (last ?p) (hd ?q)" using ne by (simp add: sorted_wrt_append)
  then have "before (last ?p) (pkv (drop ?m ks ! 0), None)"
    using flat_leaf_items [OF last_in_set [OF ne(1)]] hd by force
  moreover have "before (pkv (drop ?m ks ! 0), None) (hd ?q)" unfolding hd by (simp add: before_def)
  ultimately have "sepd (?p @ ?q) (?p @ (pkv (drop ?m ks ! 0), None) # ?q)"
    using ne unfolding sepd_def by blast
  then show ?thesis
    using m assms(1) pq unfolding splitOk_def splitLeaf_def Let_def by (auto simp del: flat.simps)
qed


lemma splitOk_single: "shape h n \<Longrightarrow> sepd xs (flat n) \<Longrightarrow> splitOk h xs (Some (n, None, f))"
  by (simp add: splitOk_def)

lemma insertLeaf_ok:
  assumes "shape 0 (LeafN l ks vs nx)" "sorted_wrt before (flat (LeafN l ks vs nx))"
  shows "splitOk 0 (insE (pkv k) rk (flat (LeafN l ks vs nx))) (insertLeaf k rk f l ks vs nx)"
proof -
  define i where "i = lowerIndex k ks"
  let ?p = "flat (LeafN l (take i ks) (take i vs) nx)"
  have len: "length ks = length vs" and le: "length ks \<le> btreeOrder" using assms(1) by simp_all
  have srt: "sorted_wrt (<) (map pkv ks)" using assms(2) flat_leaf_sorted [OF len] by blast
  have ik: "i \<le> length ks" using lowerIndex_le i_def by simp
  note focus = leaf_focus [OF len srt i_def]
  show ?thesis
  proof (cases "i < length ks \<and> pkv (ks ! i) = pkv k")
    case True
    let ?q = "flat (LeafN l (drop (Suc i) ks) (drop (Suc i) vs) nx)"
    have at: "flat (LeafN l ks (vs[i := w]) nx) = ?p @ (pkv k, Some w) # ?q" for w
    proof -
      have "flat (LeafN l (take i ks @ ks ! i # drop (Suc i) ks) (take i vs @ w # drop (Suc i) vs) nx)
          = ?p @ (pkv k, Some w) # ?q"
        using len True by simp
      then show ?thesis using True len by (simp only: upd_conv_take_nth_drop flip: id_take_nth_drop)
    qed
    have "insE (pkv k) rk (?p @ (pkv k, Some (vs ! i)) # ?q) = ?p @ (pkv k, Some rk) # ?q"
      by (rule insE_at(2)) (use focus(1,2) True in blast)+
    then have "insE (pkv k) rk (flat (LeafN l ks vs nx)) = flat (LeafN l ks (vs[i := rk]) nx)"
      using at [of "vs ! i"] at [of rk] by (metis list_update_id)
    then show ?thesis
      using True len le unfolding insertLeaf_def
      by (auto simp: Let_def simp del: flat.simps simp flip: i_def intro!: splitOk_single)
  next
    case False
    let ?ks = "take i ks @ k # drop i ks" and ?vs = "take i vs @ rk # drop i vs"
    let ?q = "flat (LeafN l (drop i ks) (drop i vs) nx)"
    have at: "flat (LeafN l ?ks ?vs nx) = ?p @ (pkv k, Some rk) # ?q"
      using len by simp
    have "flat (LeafN l ks vs nx) = ?p @ ?q"
      using len flat_leaf_append [of "take i ks" "take i vs" l "drop i ks" "drop i vs" nx] by simp
    moreover have "insE (pkv k) rk (?p @ ?q) = ?p @ (pkv k, Some rk) # ?q"
      by (rule insE_at(1)) (use focus(1,3) False in blast)+
    ultimately have ins: "insE (pkv k) rk (flat (LeafN l ks vs nx)) = flat (LeafN l ?ks ?vs nx)"
      using at by simp
    have len': "length ?ks = length ?vs" using len by simp
    have "sorted_wrt (<) (map pkv ?ks)"
      using flat_leaf_sorted [OF len'] insE_sorted [OF assms(2)] ins by metis
    then have "\<not> length ?ks \<le> btreeOrder \<Longrightarrow>
        splitOk 0 (flat (LeafN l ?ks ?vs nx)) (splitLeaf f l ?ks ?vs nx)"
      using splitLeaf_ok [OF len'] le by simp
    moreover have "length ?ks \<le> btreeOrder \<Longrightarrow>
        splitOk 0 (flat (LeafN l ?ks ?vs nx)) (Some (LeafN l ?ks ?vs nx, None, f))"
      using len' by (intro splitOk_single) simp_all
    moreover have "insertLeaf k rk f l ks vs nx = (if length ?ks \<le> btreeOrder
        then Some (LeafN l ?ks ?vs nx, None, f) else splitLeaf f l ?ks ?vs nx)"
      using False len ik by (auto simp: insertLeaf_def Let_def simp flip: i_def)
    ultimately show ?thesis unfolding ins by presburger
  qed
qed

lemma splitInterior_ok:
  assumes "length cs = Suc (length ks)" "length ks = Suc btreeOrder" "\<forall>c\<in>set cs. shape h c"
    and "sepd xs (flat (InnerN ks cs))"
  shows "splitOk (Suc h) xs (splitInterior f ks cs)"
proof -
  let ?m = "length ks div 2"
  have m: "0 < ?m" "?m < length ks" "Suc ?m < length ks" "?m \<le> btreeOrder" "length ks - Suc ?m \<le> btreeOrder"
    using assms(2) by (simp_all add: btreeOrder_def)
  have ks: "ks = take ?m ks @ ks ! ?m # drop (Suc ?m) ks" using m(2) by (rule id_take_nth_drop)
  have "cs = take ?m cs @ cs ! ?m # drop (Suc ?m) cs" using m(2) assms(1) by (intro id_take_nth_drop) simp
  from arg_cong [OF this, of "map flat"]
  have cs: "map flat cs = map flat (take ?m cs) @ flat (cs ! ?m) # map flat (drop (Suc ?m) cs)" by simp
  have cs': "take (Suc ?m) cs = take ?m cs @ [cs ! ?m]" using m(2) assms(1) by (intro take_Suc_conv_app_nth) simp
  obtain r rs where r: "drop (Suc ?m) cs = r # rs"
    using m(3) assms(1) by (metis Cons_nth_drop_Suc less_SucI)
  have len: "length (take ?m ks) = length (map flat (take ?m cs))" using assms(1) m(2) by simp
  let ?l = "InnerN (take ?m ks) (take (Suc ?m) cs)" and ?r = "InnerN (drop (Suc ?m) ks) (drop (Suc ?m) cs)"
  have "flat (InnerN ks cs) = flat ?l @ (pkv (ks ! ?m), None) # flat ?r"
    using weave_child [OF len, of "ks ! ?m # drop (Suc ?m) ks" "flat (cs ! ?m)" "map flat (drop (Suc ?m) cs)"]
      weave_child [OF len, of "[]" "flat (cs ! ?m)" "[]"] ks cs cs' r by simp
  moreover have "splitInterior f ks cs = Some (?l, Some (ks ! ?m, ?r), f)"
    using m(2) assms(1) by (simp add: splitInterior_def Let_def)
  moreover have "shape (Suc h) ?l" "shape (Suc h) ?r"
    using assms(1,3) m by (auto dest: in_set_takeD in_set_dropD)
  ultimately show ?thesis
    using assms(4) unfolding splitOk_def by (simp del: flat.simps shape.simps)
qed

lemma btInsert_ok:
  assumes "shape h n" "sorted_wrt before (flat n)"
  shows "splitOk h (insE (pkv k) rk (flat n)) (btInsert k rk f n)"
  using assms
proof (induction k rk f n arbitrary: h rule: btInsert.induct)
  case (1 k rk f l ks vs nx)
  then show ?case using insertLeaf_ok [of l ks vs nx k rk f] by (cases h) (simp_all del: flat.simps)
next
  case (2 k rk f ks cs)
  from 2(2) obtain h' where h: "h = Suc h'" by (cases h) simp_all
  define i where "i = childIndex k ks"
  from inner_focus [OF 2(2) [unfolded h] 2(3) i_def] obtain fl fr where foc:
    "i < length cs" "shape h' (cs ! i)" "flat (InnerN ks cs) = fl @ flat (cs ! i) @ fr"
    "\<And>c. flat (InnerN ks (cs[i := c])) = fl @ flat c @ fr"
    "\<And>c sk r. flat (InnerN (take i ks @ sk # drop i ks) (take i cs @ c # r # drop (i + 1) cs))
       = fl @ (flat c @ (pkv sk, None) # flat r) @ fr"
    "\<And>x v. x \<in> set fl \<Longrightarrow> before x (pkv k, Some v)" "\<And>x. x \<in> set fr \<Longrightarrow> pkv k < fst x"
    by metis
  have ins: "insE (pkv k) rk (flat (InnerN ks cs)) = fl @ insE (pkv k) rk (flat (cs ! i)) @ fr"
    unfolding foc(3) using foc(6,7) by (rule insE_frame)
  have "sorted_wrt before (flat (cs ! i))" using 2(3) unfolding foc(3) by (simp add: sorted_wrt_append)
  from 2(1) [OF i_def foc(1) foc(2) this] obtain c sp f' where c:
    "btInsert k rk f (cs ! i) = Some (c, sp, f')" "shape h' c" "\<And>sk r. sp = Some (sk, r) \<Longrightarrow> shape h' r"
    "sepd (fl @ insE (pkv k) rk (flat (cs ! i)) @ fr) (fl @ splitItems c sp @ fr)"
    unfolding splitOk_def using sepd_frame by blast
  have cs: "length cs = Suc (length ks)" "ks \<noteq> []" "length ks \<le> btreeOrder" "\<forall>c\<in>set cs. shape h' c"
    using 2(2) h by simp_all
  show ?case
  proof (cases sp)
    case None
    have "shape h (InnerN ks (cs[i := c]))"
      using cs c(2) h by (auto dest!: set_update_subset_insert [THEN subsetD])
    moreover have "sepd (insE (pkv k) rk (flat (InnerN ks cs))) (flat (InnerN ks (cs[i := c])))"
      using c(4) None ins foc(4) by simp
    ultimately show ?thesis
      using None c(1) foc(1) by (simp add: i_def [symmetric] splitOk_single del: flat.simps)
  next
    case (Some skr)
    then obtain sk r where sp: "sp = Some (sk, r)" by (cases skr) simp
    let ?ks = "take i ks @ sk # drop i ks" and ?cs = "take i cs @ c # r # drop (i + 1) cs"
    have len: "length ?cs = Suc (length ?ks)" using cs(1) foc(1) by simp
    have all: "\<forall>c\<in>set ?cs. shape h' c"
      using cs(4) c(2,3) sp by (auto dest: in_set_takeD in_set_dropD)
    have items: "sepd (insE (pkv k) rk (flat (InnerN ks cs))) (flat (InnerN ?ks ?cs))"
      using c(4) sp ins foc(5) by simp
    have "\<not> length ?ks \<le> btreeOrder \<Longrightarrow>
        splitOk h (insE (pkv k) rk (flat (InnerN ks cs))) (splitInterior f' ?ks ?cs)"
      using splitInterior_ok [OF len _ all items, of f'] cs(3) h by simp
    moreover have "length ?ks \<le> btreeOrder \<Longrightarrow>
        splitOk h (insE (pkv k) rk (flat (InnerN ks cs))) (Some (InnerN ?ks ?cs, None, f'))"
      using len all items h by (intro splitOk_single) simp_all
    ultimately show ?thesis
      using c(1) foc(1) sp by (simp add: i_def [symmetric] Let_def del: flat.simps)
  qed
qed


section \<open>Deletion\<close>

definition delE :: "pkOrd \<Rightarrow> item list \<Rightarrow> item list" where
  "delE k xs = filter (\<lambda>x. fst x \<noteq> k \<or> snd x = None) xs"

lemma delE_frame:
  assumes "\<And>x v. x \<in> set fl \<Longrightarrow> before x (k, Some v)" "\<And>x. x \<in> set fr \<Longrightarrow> k < fst x"
  shows "delE k (fl @ xs @ fr) = fl @ delE k xs @ fr"
proof -
  have "filter (\<lambda>x. fst x \<noteq> k \<or> snd x = None) fl = fl" "filter (\<lambda>x. fst x \<noteq> k \<or> snd x = None) fr = fr"
    using assms by (fastforce simp: filter_id_conv before_def)+
  then show ?thesis by (simp add: delE_def)
qed

lemma delE_entries: "entriesOf (delE k xs) = filter (\<lambda>(j, v). j \<noteq> k) (entriesOf xs)"
  by (simp add: delE_def entriesOf_filter)

lemma leaf_delete:
  assumes "length ks = length vs" "sorted_wrt (<) (map pkv ks)" "equalIndex k ks = Some i"
  shows "zip (map pkv (take i ks @ drop (Suc i) ks)) (map Some (take i vs @ drop (Suc i) vs))
    = delE (pkv k) (zip (map pkv ks) (map Some vs))"
  using assms
proof (induction ks vs arbitrary: i rule: list_induct2)
  case (Cons x xs y ys)
  show ?case
  proof (cases "pkv x = pkv k")
    case True
    have "delE (pkv k) (zip (map pkv xs) (map Some ys)) = zip (map pkv xs) (map Some ys)"
      using Cons.prems(1) True by (fastforce simp: delE_def filter_id_conv dest!: set_zip_leftD)
    then show ?thesis using True Cons.prems(2) by (simp add: delE_def)
  next
    case False
    then show ?thesis using Cons by (auto simp: delE_def)
  qed
qed simp

lemma links_inner: "links (InnerN ks cs) = concat (map links cs)"
  by (simp add: links_def [abs_def] map_concat comp_def)

lemma nodeDelete_ok:
  assumes "shape h n" "sorted_wrt before (flat n)"
  shows "\<exists>n'. nodeDelete k n = Some n' \<and> shape h n' \<and> flat n' = delE (pkv k) (flat n) \<and> links n' = links n"
  using assms
proof (induction k n arbitrary: h rule: nodeDelete.induct)
  case (1 k l ks vs nx)
  then have h: "h = 0" and len: "length ks = length vs" by (cases h, simp_all)+
  have srt: "sorted_wrt (<) (map pkv ks)" using 1 flat_leaf_sorted [OF len] by blast
  show ?case
  proof (cases "equalIndex k ks")
    case None
    then have "delE (pkv k) (zip (map pkv ks) (map Some vs)) = zip (map pkv ks) (map Some vs)"
      by (auto simp: delE_def filter_id_conv equalIndex_None dest!: set_zip_leftD)
    then show ?thesis using None 1 h by simp
  next
    case (Some i)
    then have "i < length ks" using equalIndex_Some by blast
    then show ?thesis
      using Some leaf_delete [OF len srt Some] 1(1) h len by (simp add: links_def)
  qed
next
  case (2 k ks cs)
  from 2(2) obtain h' where h: "h = Suc h'" by (cases h) simp_all
  define i where "i = childIndex k ks"
  from inner_focus [OF 2(2) [unfolded h] 2(3) i_def] obtain fl fr where foc:
    "i < length cs" "shape h' (cs ! i)" "flat (InnerN ks cs) = fl @ flat (cs ! i) @ fr"
    "\<And>c. flat (InnerN ks (cs[i := c])) = fl @ flat c @ fr"
    "\<And>x v. x \<in> set fl \<Longrightarrow> before x (pkv k, Some v)" "\<And>x. x \<in> set fr \<Longrightarrow> pkv k < fst x"
    by metis
  have "sorted_wrt before (flat (cs ! i))" using 2(3) unfolding foc(3) by (simp add: sorted_wrt_append)
  from 2(1) [OF i_def foc(1) foc(2) this] obtain c where c: "nodeDelete k (cs ! i) = Some c"
    "shape h' c" "flat c = delE (pkv k) (flat (cs ! i))" "links c = links (cs ! i)" by blast
  have "flat (InnerN ks (cs[i := c])) = delE (pkv k) (flat (InnerN ks cs))"
    unfolding foc(4) c(3) using foc(3) delE_frame [OF foc(5,6)] by simp
  moreover have "shape h (InnerN ks (cs[i := c]))"
    using 2(2) c(2) h by (auto dest!: set_update_subset_insert [THEN subsetD])
  moreover have "map links (cs[i := c]) = map links cs"
    using c(4) foc(1) by (metis list_update_id map_update)
  then have "links (InnerN ks (cs[i := c])) = links (InnerN ks cs)"
    by (simp add: links_inner)
  ultimately show ?case
    using c(1) foc(1) by (simp add: i_def [symmetric] del: flat.simps)
qed


section \<open>The chain of leaves\<close>

definition grown :: "leafId \<Rightarrow> (leafId \<times> leafId option) list \<Rightarrow> leafId \<Rightarrow> (leafId \<times> leafId option) list \<Rightarrow> bool" where
  \<comment> \<open>the links are unchanged, or one leaf got the fresh leaf as its new right neighbour\<close>
  "grown f ls f' ls' \<longleftrightarrow> f' = f \<and> ls' = ls \<or>
     f' = Suc f \<and> (\<exists>p l nx q. ls = p @ (l, nx) # q \<and> ls' = p @ (l, Some f) # (f, nx) # q)"

fun splitLinks :: "node \<Rightarrow> (pkKey \<times> node) option \<Rightarrow> (leafId \<times> leafId option) list" where
  "splitLinks n None = links n"
| "splitLinks n (Some (sk, r)) = links n @ links r"

lemma grown_refl [simp]: "grown f ls f ls"
  by (simp add: grown_def)

lemma grown_split [simp]: "grown f [(l, nx)] (Suc f) [(l, Some f), (f, nx)]"
  unfolding grown_def by (metis append_Nil)

lemma grown_frame:
  assumes "grown f ls f' ls'"
  shows "grown f (a @ ls @ b) f' (a @ ls' @ b)"
  using assms unfolding grown_def by (metis append_assoc append_Cons)

lemma insertLeaf_cases:
  assumes "insertLeaf k rk f l ks vs nx = Some res"
  obtains ks' vs' where "res = (LeafN l ks' vs' nx, None, f)"
  | ks' vs' where "splitLeaf f l ks' vs' nx = Some res"
  using assms unfolding insertLeaf_def Let_def by (metis option.distinct(1) option.inject)

lemma insertLeaf_links:
  assumes "insertLeaf k rk f l ks vs nx = Some (n, sp, f')"
  shows "grown f [(l, nx)] f' (splitLinks n sp)"
  using assms
proof (cases rule: insertLeaf_cases)
  case (2 ks' vs')
  then show ?thesis by (auto simp: splitLeaf_def Let_def links_def split: if_splits)
qed (simp add: links_def)

lemma btInsert_links:
  "btInsert k rk f n = Some (n', sp, f') \<Longrightarrow> grown f (links n) f' (splitLinks n' sp)"
proof (induction k rk f n arbitrary: n' sp f' rule: btInsert.induct)
  case (1 k rk f l ks vs nx)
  then show ?case using insertLeaf_links by (simp add: links_def)
next
  case (2 k rk f ks cs)
  define i where "i = childIndex k ks"
  from 2(2) have ic: "i < length cs" by (simp add: i_def Let_def split: if_splits)
  let ?a = "concat (map links (take i cs))" and ?b = "concat (map links (drop (Suc i) cs))"
  have frame: "links (InnerN ks (take i cs @ ds @ drop (Suc i) cs)) = ?a @ concat (map links ds) @ ?b" for ks ds
    by (simp add: links_inner)
  have old: "links (InnerN ks cs) = ?a @ links (cs ! i) @ ?b"
    using frame [of ks "[cs ! i]"] id_take_nth_drop [OF ic] by simp
  from 2(2) ic obtain c sp1 f1 where c: "btInsert k rk f (cs ! i) = Some (c, sp1, f1)"
    by (auto simp: i_def [symmetric] Let_def split: option.splits)
  from grown_frame [OF 2(1) [OF i_def ic c]]
  have g: "grown f (links (InnerN ks cs)) f1 (?a @ splitLinks c sp1 @ ?b)" unfolding old .
  show ?case
  proof (cases sp1)
    case None
    with 2(2) ic c have "n' = InnerN ks (take i cs @ [c] @ drop (Suc i) cs)" "sp = None" "f' = f1"
      by (auto simp: i_def [symmetric] Let_def upd_conv_take_nth_drop)
    then show ?thesis using g None frame [of ks "[c]"] by simp
  next
    case (Some a)
    then obtain sk r where sp1: "sp1 = Some (sk, r)" by (cases a) simp
    let ?ks = "take i ks @ sk # drop i ks" and ?cs = "take i cs @ [c, r] @ drop (Suc i) cs"
    have res: "(if length ?ks \<le> btreeOrder then Some (InnerN ?ks ?cs, None, f1)
        else splitInterior f1 ?ks ?cs) = Some (n', sp, f')"
      using 2(2) ic c sp1 by (simp add: i_def [symmetric] Let_def split: if_splits)
    have "splitLinks n' sp = links (InnerN ?ks ?cs) \<and> f' = f1"
    proof (cases "length ?ks \<le> btreeOrder")
      case False
      define m where "m = Suc (length ?ks div 2)"
      from res False have "splitLinks n' sp = concat (map links (take m ?cs)) @ concat (map links (drop m ?cs))"
        "f' = f1"
        by (auto simp: splitInterior_def Let_def links_inner m_def simp del: take_append drop_append split: if_splits)
      then show ?thesis by (metis append_take_drop_id concat_append links_inner map_append)
    qed (use res in simp)
    then show ?thesis using g sp1 frame [of ?ks "[c, r]"] by simp
  qed
qed

lemma chained_grow: "chained (p @ (l, nx) # q) \<Longrightarrow> chained (p @ (l, Some f) # (f, nx) # q)"
proof (induction p rule: chained.induct)
  case 1
  then show ?case by (cases q) auto
next
  case (2 x)
  then show ?case by (cases q) auto
qed auto

definition linksOk :: "leafId \<Rightarrow> (leafId \<times> leafId option) list \<Rightarrow> bool" where
  "linksOk f ls \<longleftrightarrow> chained ls \<and> distinct (map fst ls) \<and> list_all (\<lambda>l. fst l < f) ls"

lemma linksOk_grown:
  assumes "linksOk f ls" "grown f ls f' ls'"
  shows "linksOk f' ls'"
proof (cases "f' = f \<and> ls' = ls")
  case False
  with assms(2) obtain p l nx q where g: "f' = Suc f" "ls = p @ (l, nx) # q"
    "ls' = p @ (l, Some f) # (f, nx) # q" unfolding grown_def by blast
  have lt: "\<forall>x\<in>set ls. fst x < f" using assms(1) by (simp add: linksOk_def list_all_iff)
  then have "f \<notin> fst ` set ls" by auto
  then have "distinct (map fst ls')" using assms(1) g by (auto simp: linksOk_def)
  moreover have "\<forall>x\<in>set ls'. fst x < Suc f" using lt g by (simp add: less_SucI)
  moreover have "chained ls'" using assms(1) g chained_grow by (simp add: linksOk_def)
  ultimately show ?thesis by (simp add: linksOk_def list_all_iff g(1))
qed (use assms in simp)

end
