(* ===== verification/BtreeMap.thy ===== *)
theory BtreeMap
  imports Btree
begin

text \<open>
  What the B+tree promises to the code that uses it: it is an ordered map. The theory shows that the
  operations of \<open>btree.go\<close> keep the invariant and never index out of range, that \<open>Put\<close>, \<open>Delete\<close> and
  \<open>Get\<close> are update, removal and lookup in a map, and that \<open>Seek\<close>/\<open>Ascend\<close> followed by \<open>Next\<close> enumerate
  the entries in key order. The locale \<open>ordered_index\<close> states this contract for the indexes built on it.
\<close>

section \<open>The invariant\<close>

lemma btInv_links: "btInv t \<longleftrightarrow> shape (height (root t)) (root t)
    \<and> sorted_wrt before (flat (root t)) \<and> linksOk (freshLeaf t) (links (root t))"
  by (simp add: btInv_def linksOk_def)

lemma btInvI: "shape h (root t) \<Longrightarrow> sorted_wrt before (flat (root t)) \<Longrightarrow>
    linksOk (freshLeaf t) (links (root t)) \<Longrightarrow> btInv t"
  by (simp add: btInv_links shape_height)

lemma newBTree_inv: "btInv newBTree" "btEntries newBTree = []"
  by (simp_all add: btInv_def newBTree_def btEntries_def btreeOrder_def links_def)

lemma btPut_ok:
  assumes "btInv t"
  obtains t' where "btPut t k rk = Some t'" "btInv t'"
    "btEntries t' = entriesOf (insE (pkv k) rk (flat (root t)))"
proof -
  let ?xs = "insE (pkv k) rk (flat (root t))"
  from assms have s: "shape (height (root t)) (root t)" "sorted_wrt before (flat (root t))"
    and l: "linksOk (freshLeaf t) (links (root t))" by (simp_all add: btInv_links)
  from btInsert_ok [OF s, of k rk "freshLeaf t"] obtain n sp f where r:
    "btInsert k rk (freshLeaf t) (root t) = Some (n, sp, f)" "shape (height (root t)) n"
    "\<And>sk r. sp = Some (sk, r) \<Longrightarrow> shape (height (root t)) r" "sepd ?xs (splitItems n sp)"
    unfolding splitOk_def by blast
  define t' where "t' = \<lparr>root = (case sp of None \<Rightarrow> n | Some (sk, r) \<Rightarrow> InnerN [sk] [n, r]), freshLeaf = f\<rparr>"
  have res: "btPut t k rk = Some t'" using r(1) by (auto simp: btPut_def t'_def split: option.splits)
  have fl: "flat (root t') = splitItems n sp" "links (root t') = splitLinks n sp"
    by (auto simp: t'_def links_inner split: option.splits)
  have "linksOk (freshLeaf t') (links (root t'))"
    unfolding fl(2) using linksOk_grown [OF l btInsert_links [OF r(1)]] by (simp add: t'_def)
  moreover have "sorted_wrt before (flat (root t'))"
    unfolding fl(1) using sepd_sorted [OF insE_sorted [OF s(2)] r(4)] .
  moreover have "\<exists>h. shape h (root t')"
  proof (cases sp)
    case None
    then show ?thesis using r(2) by (auto simp: t'_def)
  next
    case (Some a)
    then have "shape (Suc (height (root t))) (root t')"
      using r(2,3) by (cases a) (simp add: t'_def btreeOrder_def)
    then show ?thesis ..
  qed
  ultimately have "btInv t'" using btInvI by blast
  moreover have "btEntries t' = entriesOf ?xs" by (simp add: btEntries_def fl(1) sepd_entries [OF r(4)])
  ultimately show thesis using that res by blast
qed

lemma btDelete_ok:
  assumes "btInv t"
  obtains t' where "btDelete t k = Some t'" "btInv t'"
    "btEntries t' = filter (\<lambda>(j, v). j \<noteq> pkv k) (btEntries t)"
proof -
  from assms have s: "shape (height (root t)) (root t)" "sorted_wrt before (flat (root t))"
    and l: "linksOk (freshLeaf t) (links (root t))" by (simp_all add: btInv_links)
  from nodeDelete_ok [OF s, of k] obtain n where n: "nodeDelete k (root t) = Some n"
    "shape (height (root t)) n" "flat n = delE (pkv k) (flat (root t))" "links n = links (root t)" by blast
  have "btDelete t k = Some (t\<lparr>root := n\<rparr>)"
    using n(1,2) by (cases n; cases "height (root t)") (auto simp: btDelete_def)
  moreover have "sorted_wrt before (flat n)" using s(2) by (simp add: n(3) delE_def sorted_wrt_filter)
  then have "btInv (t\<lparr>root := n\<rparr>)" using n(2,4) l by (intro btInvI) simp_all
  moreover have "btEntries (t\<lparr>root := n\<rparr>) = filter (\<lambda>(j, v). j \<noteq> pkv k) (btEntries t)"
    by (simp add: btEntries_def n(3) delE_entries)
  ultimately show thesis using that by blast
qed

lemma btEntries_sorted: "btInv t \<Longrightarrow> sorted_wrt (<) (map fst (btEntries t))"
  by (simp add: btInv_def btEntries_def sorted_entriesOf)


section \<open>Iteration\<close>

definition leafItems :: "leaf \<Rightarrow> (pkOrd \<times> string) list" where
  "leafItems l = (case l of (lid, ks, vs, nx) \<Rightarrow> zip (map pkv ks) vs)"

definition leafAligned :: "leaf \<Rightarrow> bool" where
  "leafAligned l \<longleftrightarrow> (case l of (lid, ks, vs, nx) \<Rightarrow> length ks = length vs)"

lemma concat_map_concat:
  "concat (map (\<lambda>x. concat (map f (g x))) xs) = concat (map f (concat (map g xs)))"
  by (induction xs) simp_all

lemma leaves_items:
  "shape h n \<Longrightarrow> entriesOf (flat n) = concat (map leafItems (leaves n)) \<and> list_all leafAligned (leaves n)"
proof (induction h arbitrary: n)
  case 0
  then obtain l ks vs nx where n: "n = LeafN l ks vs nx" "length ks = length vs" by (cases n) auto
  from n(2) have "entriesOf (zip (map pkv ks) (map Some vs)) = zip (map pkv ks) vs"
    by (induction ks vs rule: list_induct2) simp_all
  with n show ?case by (simp add: leafItems_def leafAligned_def)
next
  case (Suc h)
  then obtain ks cs where n: "n = InnerN ks cs" "length cs = Suc (length ks)" "\<forall>c\<in>set cs. shape h c"
    by (cases n) auto
  have "entriesOf (weave ks fs) = concat (map entriesOf fs)" if "length fs = Suc (length ks)" for fs
    using that by (induction ks fs rule: weave.induct) auto
  then have "entriesOf (flat n) = concat (map (\<lambda>c. entriesOf (flat c)) cs)"
    using n(1,2) by (simp add: comp_def)
  also have "\<dots> = concat (map (\<lambda>c. concat (map leafItems (leaves c))) cs)"
    using Suc.IH n(3) by (metis (mono_tags, lifting) map_eq_conv)
  also have "\<dots> = concat (map leafItems (leaves n))" using concat_map_concat n(1) by simp
  finally show ?case using n Suc.IH by (auto simp: list_all_iff)
qed

definition remaining :: "btree \<Rightarrow> btreeIter \<Rightarrow> (pkOrd \<times> string) list" where
  \<comment> \<open>what an iterator has yet to return\<close>
  "remaining t it =
     (case itNode it of
        None \<Rightarrow> []
      | Some lid \<Rightarrow>
          (case dropWhile (\<lambda>l. fst l \<noteq> lid) (leaves (root t)) of
             [] \<Rightarrow> []
           | l # ls \<Rightarrow> drop (itIdx it) (leafItems l) @ concat (map leafItems ls)))"

definition iterOk :: "btree \<Rightarrow> btreeIter \<Rightarrow> bool" where
  "iterOk t it \<longleftrightarrow> (\<forall>lid. itNode it = Some lid \<longrightarrow> lid \<in> fst ` set (leaves (root t)))"

lemma leaf_position:
  assumes "distinct (map fst ls)" "ls = p @ l # q"
  shows "dropWhile (\<lambda>x. fst x \<noteq> fst l) ls = l # q" "List.find (\<lambda>x. fst x = fst l) ls = Some l"
  using assms by (induction p arbitrary: ls) auto

lemma leaf_links: "map fst (links n) = map fst (leaves n)"
  by (auto simp: links_def)

lemma chained_next:
  "chained (map (\<lambda>(lid, ks, vs, nx). (lid, nx)) (p @ (lid, ks, vs, nx) # q)) \<Longrightarrow>
   nx = (case q of [] \<Rightarrow> None | l # _ \<Rightarrow> Some (fst l))"
proof (induction p)
  case Nil
  then show ?case by (cases q) auto
next
  case (Cons a p)
  then show ?case by (cases "map (\<lambda>(lid, ks, vs, nx). (lid, nx)) (p @ (lid, ks, vs, nx) # q)") auto
qed

lemma iterNext_step:
  assumes "btInv t" "leaves (root t) = p @ (lid, ks, vs, nx) # q"
  shows "iterNext (root t) (Some lid) idx =
      (if idx < length ks then
         Some (Inr (Some (ks ! idx, vs ! idx), \<lparr>itNode = Some lid, itIdx = Suc idx\<rparr>))
       else iterNext (root t) (case q of [] \<Rightarrow> None | l # _ \<Rightarrow> Some (fst l)) 0)"
    and "length ks = length vs"
    and "remaining t \<lparr>itNode = Some lid, itIdx = i\<rparr> = drop i (zip (map pkv ks) vs) @ concat (map leafItems q)"
proof -
  have dist: "distinct (map fst (leaves (root t)))" using assms(1) by (simp add: btInv_def flip: leaf_links)
  have "list_all leafAligned (leaves (root t))" using assms(1) leaves_items by (auto simp: btInv_def)
  then show len: "length ks = length vs" using assms(2) by (simp add: leafAligned_def)
  have "nx = (case q of [] \<Rightarrow> None | l # _ \<Rightarrow> Some (fst l))"
    using assms by (intro chained_next [of p lid ks vs nx q]) (simp add: btInv_def links_def)
  moreover have "deref (root t) lid = Some (lid, ks, vs, nx)"
    using leaf_position(2) [OF dist assms(2)] by (simp add: deref_def)
  ultimately show "iterNext (root t) (Some lid) idx =
      (if idx < length ks then
         Some (Inr (Some (ks ! idx, vs ! idx), \<lparr>itNode = Some lid, itIdx = Suc idx\<rparr>))
       else iterNext (root t) (case q of [] \<Rightarrow> None | l # _ \<Rightarrow> Some (fst l)) 0)"
    using len by (subst iterNext.simps) simp
  show "remaining t \<lparr>itNode = Some lid, itIdx = i\<rparr> = drop i (zip (map pkv ks) vs) @ concat (map leafItems q)"
    using leaf_position(1) [OF dist assms(2)] by (simp add: remaining_def leafItems_def)
qed

definition yields :: "btree \<Rightarrow> ((pkKey \<times> string) option \<times> btreeIter) res option \<Rightarrow> (pkOrd \<times> string) list \<Rightarrow> bool" where
  \<comment> \<open>the outcome of a \<open>Next\<close> when the given entries are left\<close>
  "yields t out es \<longleftrightarrow>
     (\<exists>it. iterOk t it \<and>
       (case es of
          [] \<Rightarrow> out = Some (Inr (None, it)) \<and> remaining t it = []
        | e # r \<Rightarrow> \<exists>key. out = Some (Inr (Some (key, snd e), it)) \<and> pkv key = fst e \<and> remaining t it = r))"

lemma iterNext_leaf:
  assumes "btInv t" "leaves (root t) = p @ (lid, ks, vs, nx) # q"
  shows "yields t (iterNext (root t) (Some lid) idx) (drop idx (zip (map pkv ks) vs) @ concat (map leafItems q))"
  using assms(2)
proof (induction q arbitrary: p lid ks vs nx idx)
  case Nil
  note step = iterNext_step [OF assms(1) Nil]
  show ?case
  proof (cases "idx < length ks")
    case True
    then have "drop idx (zip (map pkv ks) vs) = (pkv (ks ! idx), vs ! idx) # drop (Suc idx) (zip (map pkv ks) vs)"
      using step(2) by (simp flip: Cons_nth_drop_Suc)
    then show ?thesis using True step(1,3) Nil by (force simp: yields_def iterOk_def)
  next
    case False
    then show ?thesis
      using step(1,2) iterNext.simps [of "root t" None] by (simp add: yields_def iterOk_def remaining_def)
  qed
next
  case (Cons a q)
  obtain lid' ks' vs' nx' where a: "a = (lid', ks', vs', nx')" by (cases a) auto
  note step = iterNext_step [OF assms(1) Cons.prems]
  show ?case
  proof (cases "idx < length ks")
    case True
    then have "drop idx (zip (map pkv ks) vs) = (pkv (ks ! idx), vs ! idx) # drop (Suc idx) (zip (map pkv ks) vs)"
      using step(2) by (simp flip: Cons_nth_drop_Suc)
    then show ?thesis using True step(1,3) Cons.prems by (force simp: yields_def iterOk_def)
  next
    case False
    then show ?thesis
      using step(1,2) Cons.IH [of "p @ [(lid, ks, vs, nx)]" lid' ks' vs' nx' 0] Cons.prems a
      by (simp add: leafItems_def)
  qed
qed

lemma btNext_yields:
  assumes "btInv t" "iterOk t it"
  shows "yields t (btNext t it) (remaining t it)"
proof (cases "itNode it")
  case None
  then show ?thesis
    using iterNext.simps [of "root t" None] by (simp add: yields_def btNext_def remaining_def iterOk_def)
next
  case (Some lid)
  with assms(2) obtain ks vs nx where "(lid, ks, vs, nx) \<in> set (leaves (root t))"
    by (fastforce simp: iterOk_def)
  then obtain p q where s: "leaves (root t) = p @ (lid, ks, vs, nx) # q" by (meson split_list)
  have "it = \<lparr>itNode = Some lid, itIdx = itIdx it\<rparr>" using Some by simp
  then show ?thesis
    using iterNext_leaf [OF assms(1) s, of "itIdx it"] iterNext_step(3) [OF assms(1) s, of "itIdx it"] Some
    unfolding btNext_def by metis
qed


text \<open>The leaf that the search reaches, and what lies left and right of it.\<close>

lemma leafFor_split:
  assumes "shape h n" "sorted_wrt before (flat n)"
  shows "\<exists>lid ks vs nx p q. leafFor k n = Some (LeafN lid ks vs nx) \<and> leaves n = p @ (lid, ks, vs, nx) # q
    \<and> (\<forall>e\<in>set (concat (map leafItems p)). fst e < pkv k) \<and> (\<forall>e\<in>set (concat (map leafItems q)). pkv k < fst e)"
  using assms
proof (induction k n arbitrary: h rule: leafFor.induct)
  case (1 k lid ks vs nx)
  have "leaves (LeafN lid ks vs nx) = [] @ (lid, ks, vs, nx) # []" by simp
  then show ?case by fastforce
next
  case (2 k ks cs)
  from 2(2) obtain h' where h: "h = Suc h'" by (cases h) simp_all
  define i where "i = childIndex k ks"
  from inner_focus [OF 2(2) [unfolded h] 2(3) i_def] obtain fl fr where foc:
    "i < length cs" "shape h' (cs ! i)" "flat (InnerN ks cs) = fl @ flat (cs ! i) @ fr"
    "\<And>x v. x \<in> set fl \<Longrightarrow> before x (pkv k, Some v)" "\<And>x. x \<in> set fr \<Longrightarrow> pkv k < fst x"
    "\<And>c. c \<in> set (take i cs) \<Longrightarrow> set (flat c) \<subseteq> set fl"
    "\<And>c. c \<in> set (drop (i + 1) cs) \<Longrightarrow> set (flat c) \<subseteq> set fr" by metis
  have entries: "e \<in> set (concat (map leafItems (leaves c))) \<longleftrightarrow> (fst e, Some (snd e)) \<in> set (flat c)"
    if "c \<in> set cs" for e c
    using leaves_items [of h' c] that 2(2) h set_entriesOf [of "fst e" "snd e" "flat c"] by simp
  have left: "fst e < pkv k" if "c \<in> set (take i cs)" "e \<in> set (concat (map leafItems (leaves c)))" for c e
    using entries [of c e] that foc(4,6) in_set_takeD [OF that(1)] by (fastforce simp: before_def)
  have right: "pkv k < fst e" if "c \<in> set (drop (i + 1) cs)" "e \<in> set (concat (map leafItems (leaves c)))" for c e
    using entries [of c e] that foc(5,7) in_set_dropD [OF that(1)] by fastforce
  have "sorted_wrt before (flat (cs ! i))" using 2(3) unfolding foc(3) by (simp add: sorted_wrt_append)
  from 2(1) [OF i_def foc(1) foc(2) this] obtain lid ls vs nx p q where ih:
    "leafFor k (cs ! i) = Some (LeafN lid ls vs nx)" "leaves (cs ! i) = p @ (lid, ls, vs, nx) # q"
    "\<forall>e\<in>set (concat (map leafItems p)). fst e < pkv k" "\<forall>e\<in>set (concat (map leafItems q)). pkv k < fst e"
    by blast
  let ?p = "concat (map leaves (take i cs)) @ p" and ?q = "q @ concat (map leaves (drop (i + 1) cs))"
  have "concat (map leaves cs) = concat (map leaves (take i cs @ cs ! i # drop (Suc i) cs))"
    using id_take_nth_drop [OF foc(1)] by simp
  then have "leaves (InnerN ks cs) = ?p @ (lid, ls, vs, nx) # ?q" using ih(2) by simp
  moreover have "\<forall>e\<in>set (concat (map leafItems ?p)). fst e < pkv k" using ih(3) left by fastforce
  moreover have "\<forall>e\<in>set (concat (map leafItems ?q)). pkv k < fst e" using ih(4) right by fastforce
  moreover have "leafFor k (InnerN ks cs) = Some (LeafN lid ls vs nx)"
    using ih(1) foc(1) by (simp add: i_def)
  ultimately show ?case by blast
qed

lemma lowerIndex_filter:
  assumes "length ks = length vs" "sorted_wrt (<) (map pkv ks)"
  shows "drop (lowerIndex k ks) (zip (map pkv ks) vs) = filter (\<lambda>e. pkv k \<le> fst e) (zip (map pkv ks) vs)"
  using assms
proof (induction ks vs rule: list_induct2)
  case (Cons x xs y ys)
  have "filter (\<lambda>e. pkv k \<le> fst e) (zip (map pkv xs) ys) = zip (map pkv xs) ys" if "pkv k \<le> pkv x"
    using Cons.prems that by (fastforce simp: filter_id_conv dest!: set_zip_leftD)
  then show ?case using Cons by (auto simp: not_less)
qed simp

lemma btEntries_leaves: "btInv t \<Longrightarrow> btEntries t = concat (map leafItems (leaves (root t)))"
  using leaves_items by (auto simp: btInv_def btEntries_def)

lemma btSeek_remaining:
  assumes "btInv t"
  shows "\<exists>it. btSeek t k = Some it \<and> iterOk t it
    \<and> remaining t it = filter (\<lambda>e. pkv k \<le> fst e) (btEntries t)"
proof -
  from assms leafFor_split [of _ "root t" k] obtain lid ks vs nx p q where l:
    "leafFor k (root t) = Some (LeafN lid ks vs nx)" "leaves (root t) = p @ (lid, ks, vs, nx) # q"
    "\<forall>e\<in>set (concat (map leafItems p)). fst e < pkv k" "\<forall>e\<in>set (concat (map leafItems q)). pkv k < fst e"
    unfolding btInv_def by metis
  note step = iterNext_step [OF assms l(2)]
  have "sorted_wrt (<) (map fst (zip (map pkv ks) vs))"
    using btEntries_sorted [OF assms] l(2) by (simp add: btEntries_leaves [OF assms] leafItems_def sorted_wrt_append)
  then have "drop (lowerIndex k ks) (zip (map pkv ks) vs) = filter (\<lambda>e. pkv k \<le> fst e) (zip (map pkv ks) vs)"
    using lowerIndex_filter [OF step(2)] step(2) by simp
  moreover have "filter (\<lambda>e. pkv k \<le> fst e) (concat (map leafItems p)) = []"
    using l(3) by (meson filter_False leD)
  moreover have "filter (\<lambda>e. pkv k \<le> fst e) (concat (map leafItems q)) = concat (map leafItems q)"
    using l(4) by (simp add: filter_id_conv less_imp_le)
  ultimately have "remaining t \<lparr>itNode = Some lid, itIdx = lowerIndex k ks\<rparr> = filter (\<lambda>e. pkv k \<le> fst e) (btEntries t)"
    unfolding step(3) btEntries_leaves [OF assms] l(2) by (simp add: leafItems_def)
  moreover have "btSeek t k = Some \<lparr>itNode = Some lid, itIdx = lowerIndex k ks\<rparr>" using l(1) by (simp add: btSeek_def)
  moreover have "iterOk t \<lparr>itNode = Some lid, itIdx = lowerIndex k ks\<rparr>" using l(2) by (simp add: iterOk_def)
  ultimately show ?thesis by blast
qed

lemma firstLeaf_split:
  "shape h n \<Longrightarrow> \<exists>lid ks vs nx q. firstLeaf n = Some (LeafN lid ks vs nx) \<and> leaves n = (lid, ks, vs, nx) # q"
proof (induction n arbitrary: h rule: firstLeaf.induct)
  case (2 ks cs)
  then obtain c cs' h' where "cs = c # cs'" "shape h' c" by (cases h; cases cs) auto
  then show ?case using 2(1) by fastforce
qed simp

lemma btAscend_remaining:
  assumes "btInv t"
  shows "\<exists>it. btAscend t = Some it \<and> iterOk t it \<and> remaining t it = btEntries t"
proof -
  from assms firstLeaf_split obtain lid ks vs nx q where l:
    "firstLeaf (root t) = Some (LeafN lid ks vs nx)" "leaves (root t) = [] @ (lid, ks, vs, nx) # q"
    unfolding btInv_def by (metis append_Nil)
  then have "remaining t \<lparr>itNode = Some lid, itIdx = 0\<rparr> = btEntries t"
    using iterNext_step(3) [OF assms l(2), of 0] by (simp add: btEntries_leaves [OF assms] leafItems_def)
  with l show ?thesis by (simp add: btAscend_def iterOk_def)
qed


section \<open>The contract of an index\<close>

datatype indexOp = IndexPut pkKey string | IndexDelete pkKey

fun runOps :: "('t \<Rightarrow> pkKey \<Rightarrow> string \<Rightarrow> 't option) \<Rightarrow> ('t \<Rightarrow> pkKey \<Rightarrow> 't option) \<Rightarrow> indexOp list \<Rightarrow> 't \<Rightarrow> 't option" where
  "runOps put del [] t = Some t"
| "runOps put del (IndexPut k v # ops) t = Option.bind (put t k v) (runOps put del ops)"
| "runOps put del (IndexDelete k # ops) t = Option.bind (del t k) (runOps put del ops)"

fun mapOps :: "indexOp list \<Rightarrow> (pkOrd \<rightharpoonup> string) \<Rightarrow> (pkOrd \<rightharpoonup> string)" where
  "mapOps [] m = m"
| "mapOps (IndexPut k v # ops) m = mapOps ops (m(pkv k \<mapsto> v))"
| "mapOps (IndexDelete k # ops) m = mapOps ops (m(pkv k := None))"

partial_function (option) collectWhile ::
  "('i \<Rightarrow> ((pkKey \<times> string) option \<times> 'i) res option) \<Rightarrow> (pkKey \<Rightarrow> bool) \<Rightarrow> 'i \<Rightarrow> string list res option" where
  \<comment> \<open>the loop that clients run over an iterator: append the values until a key fails the test\<close>
  "collectWhile nxt P it =
     (case nxt it of
        None \<Rightarrow> None
      | Some (Inl e) \<Rightarrow> Some (Inl e)
      | Some (Inr (None, _)) \<Rightarrow> Some (Inr [])
      | Some (Inr (Some (k, v), it')) \<Rightarrow>
          if P k then
            Option.bind (collectWhile nxt P it') (\<lambda>r. Some (case r of Inl e \<Rightarrow> Inl e | Inr vs \<Rightarrow> Inr (v # vs)))
          else Some (Inr []))"

declare collectWhile.simps [code]

locale ordered_index =
  fixes inv :: "'t \<Rightarrow> bool"
    and entries :: "'t \<Rightarrow> (pkOrd \<times> string) list"
    and empty :: 't
    and put :: "'t \<Rightarrow> pkKey \<Rightarrow> string \<Rightarrow> 't option"
    and del :: "'t \<Rightarrow> pkKey \<Rightarrow> 't option"
    and get :: "'t \<Rightarrow> pkKey \<Rightarrow> string option option"
    and seek :: "'t \<Rightarrow> pkKey \<Rightarrow> 'i option"
    and nxt :: "'t \<Rightarrow> 'i \<Rightarrow> ((pkKey \<times> string) option \<times> 'i) res option"
    and itOk :: "'t \<Rightarrow> 'i \<Rightarrow> bool"
    and left :: "'t \<Rightarrow> 'i \<Rightarrow> (pkOrd \<times> string) list"
  assumes empty: "inv empty" "entries empty = []"
    and sorted: "inv t \<Longrightarrow> sorted_wrt (<) (map fst (entries t))"
    and put: "inv t \<Longrightarrow> \<exists>t'. put t k v = Some t' \<and> inv t' \<and> map_of (entries t') = (map_of (entries t))(pkv k \<mapsto> v)"
    and del: "inv t \<Longrightarrow> \<exists>t'. del t k = Some t' \<and> inv t' \<and> map_of (entries t') = (map_of (entries t))(pkv k := None)"
    and get: "inv t \<Longrightarrow> get t k = Some (map_of (entries t) (pkv k))"
    and seek: "inv t \<Longrightarrow> \<exists>it. seek t k = Some it \<and> itOk t it \<and> left t it = filter (\<lambda>e. pkv k \<le> fst e) (entries t)"
    and nxt_end: "inv t \<Longrightarrow> itOk t it \<Longrightarrow> left t it = [] \<Longrightarrow> \<exists>it'. nxt t it = Some (Inr (None, it'))"
    and nxt_more: "inv t \<Longrightarrow> itOk t it \<Longrightarrow> left t it = e # es \<Longrightarrow>
      \<exists>key it'. nxt t it = Some (Inr (Some (key, snd e), it')) \<and> pkv key = fst e \<and> itOk t it' \<and> left t it' = es"
begin

lemma runOps_map:
  "inv t \<Longrightarrow> \<exists>t'. runOps put del ops t = Some t' \<and> inv t' \<and> map_of (entries t') = mapOps ops (map_of (entries t))"
proof (induction ops arbitrary: t)
  case (Cons op ops)
  show ?case
  proof (cases op)
    case (IndexPut k v)
    from put [OF Cons.prems, of k v] obtain t1 where
      "put t k v = Some t1" "inv t1" "map_of (entries t1) = (map_of (entries t))(pkv k \<mapsto> v)" by blast
    then show ?thesis using Cons.IH [of t1] IndexPut by (simp add: fun_upd_def)
  next
    case (IndexDelete k)
    from del [OF Cons.prems, of k] obtain t1 where
      "del t k = Some t1" "inv t1" "map_of (entries t1) = (map_of (entries t))(pkv k := None)" by blast
    then show ?thesis using Cons.IH [of t1] IndexDelete by (simp add: fun_upd_def)
  qed
qed simp

lemma runOps_get:
  "\<exists>t. runOps put del ops empty = Some t \<and> inv t \<and> (\<forall>k. get t k = Some (mapOps ops Map.empty (pkv k)))"
  using runOps_map [OF empty(1), of ops] empty(2) get by fastforce

lemma collectWhile_left:
  assumes "inv t" "itOk t it" and P: "\<And>k. pkv k \<in> fst ` set (left t it) \<Longrightarrow> P k \<longleftrightarrow> Q (pkv k)"
  shows "collectWhile (nxt t) P it = Some (Inr (map snd (takeWhile (\<lambda>e. Q (fst e)) (left t it))))"
  using assms(2,3)
proof (induction "left t it" arbitrary: it)
  case Nil
  then show ?case using nxt_end [OF assms(1) Nil.prems(1)] by (subst collectWhile.simps) force
next
  case (Cons e es)
  from nxt_more [OF assms(1) Cons.prems(1) Cons.hyps(2) [symmetric]] obtain key it' where
    "nxt t it = Some (Inr (Some (key, snd e), it'))" "pkv key = fst e" "itOk t it'" "left t it' = es" by blast
  moreover have "P k \<longleftrightarrow> Q (pkv k)" if "pkv k \<in> fst ` set (e # es)" for k
    using Cons.prems(2) Cons.hyps(2) that by simp
  ultimately show ?case
    using Cons.hyps(1) [of it'] Cons.hyps(2) [symmetric] by (subst collectWhile.simps) simp
qed

lemma range_scan:
  assumes "inv t" "\<And>k. pkv k \<in> fst ` set (entries t) \<Longrightarrow> P k \<longleftrightarrow> Q (pkv k)"
  shows "Option.bind (seek t k) (collectWhile (nxt t) P) =
    Some (Inr (map snd (takeWhile (\<lambda>e. Q (fst e)) (filter (\<lambda>e. pkv k \<le> fst e) (entries t)))))"
proof -
  from seek [OF assms(1), of k] obtain it where
    "seek t k = Some it" "itOk t it" "left t it = filter (\<lambda>e. pkv k \<le> fst e) (entries t)" by blast
  moreover have "collectWhile (nxt t) P it = Some (Inr (map snd (takeWhile (\<lambda>e. Q (fst e)) (left t it))))"
    using calculation(3) assms(2) by (intro collectWhile_left [OF assms(1) calculation(2)]) auto
  ultimately show ?thesis by simp
qed

text \<open>
  A scan that starts at the least key of an up-closed stretch of the key order and stops at the first
  key outside it returns exactly the entries inside.
\<close>

lemma stretch_scan:
  assumes "inv t" "\<And>k. pkv k \<in> fst ` set (entries t) \<Longrightarrow> P k \<longleftrightarrow> Q (pkv k)"
    and low: "\<And>a. Q a \<Longrightarrow> pkv k \<le> a"
    and convex: "\<And>a b. pkv k \<le> a \<Longrightarrow> a < b \<Longrightarrow> Q b \<Longrightarrow> Q a"
  shows "Option.bind (seek t k) (collectWhile (nxt t) P) =
    Some (Inr (map snd (filter (\<lambda>e. Q (fst e)) (entries t))))"
proof -
  have "takeWhile (\<lambda>e. Q (fst e)) (filter (\<lambda>e. pkv k \<le> fst e) es) = filter (\<lambda>e. Q (fst e)) es"
    if "sorted_wrt (<) (map fst es)" for es :: "(pkOrd \<times> string) list"
    using that
  proof (induction es)
    case (Cons e es)
    have "filter (\<lambda>e. Q (fst e)) es = []" if "pkv k \<le> fst e" "\<not> Q (fst e)"
      using Cons.prems convex that by (auto simp: filter_empty_conv)
    then show ?case using Cons low by auto
  qed simp
  then show ?thesis using range_scan [where P = P and Q = Q and k = k, OF assms(1,2)] sorted [OF assms(1)] by simp
qed

end

lemma map_of_filter_key: "map_of (filter (\<lambda>(j, v). j \<noteq> k) es) = (map_of es)(k := None)"
  by (induction es) auto

interpretation bt: ordered_index btInv btEntries newBTree btPut btDelete btGet btSeek btNext iterOk remaining
proof
  fix t k v and it and e :: "pkOrd \<times> string" and es
  show "btInv newBTree" "btEntries newBTree = []" by (rule newBTree_inv)+
  assume t: "btInv t"
  show "sorted_wrt (<) (map fst (btEntries t))" using t by (rule btEntries_sorted)
  show "btGet t k = Some (map_of (btEntries t) (pkv k))" using t by (rule btGet_map)
  have "sorted_wrt before (flat (root t))" using t by (simp add: btInv_def)
  then show "\<exists>t'. btPut t k v = Some t' \<and> btInv t' \<and> map_of (btEntries t') = (map_of (btEntries t))(pkv k \<mapsto> v)"
    using btPut_ok [OF t, of k v] by (metis btEntries_def insE_entries)
  show "\<exists>t'. btDelete t k = Some t' \<and> btInv t' \<and> map_of (btEntries t') = (map_of (btEntries t))(pkv k := None)"
    using btDelete_ok [OF t, of k] by (metis map_of_filter_key)
  show "\<exists>it. btSeek t k = Some it \<and> iterOk t it \<and> remaining t it = filter (\<lambda>e. pkv k \<le> fst e) (btEntries t)"
    using t by (rule btSeek_remaining)
  assume it: "iterOk t it"
  show "\<exists>it'. btNext t it = Some (Inr (None, it'))" if "remaining t it = []"
    using btNext_yields [OF t it] that by (auto simp: yields_def)
  show "\<exists>key it'. btNext t it = Some (Inr (Some (key, snd e), it')) \<and> pkv key = fst e \<and> iterOk t it'
      \<and> remaining t it' = es" if "remaining t it = e # es"
    using btNext_yields [OF t it] that by (auto simp: yields_def)
qed


section \<open>Size of the tree\<close>

lemma shape_leaves: "shape h n \<Longrightarrow> 2 ^ h \<le> length (leaves n)"
proof (induction h arbitrary: n)
  case 0
  then show ?case by (cases n) simp_all
next
  case (Suc h)
  then obtain ks cs where n: "n = InnerN ks cs" "length cs = Suc (length ks)" "ks \<noteq> []" "\<forall>c\<in>set cs. shape h c"
    by (cases n) auto
  then obtain a b ds where cs: "cs = a # b # ds" by (cases ks; cases cs; cases "tl cs") auto
  then show ?case using n Suc.IH [of a] Suc.IH [of b] by simp
qed


section \<open>Properties\<close>

text \<open>
  C11. Any sequence of \<open>Put\<close> and \<open>Delete\<close> on a new tree runs without an index out of range, keeps
  the invariant (order, alignment of keys, values and children, at most eight keys per node, equal leaf
  depth, leaves chained from left to right), and \<open>Get\<close> then answers like the map updated by the same
  operations.
\<close>

theorem btree_refines_map:
  "\<exists>t. runOps btPut btDelete ops newBTree = Some t \<and> btInv t
     \<and> (\<forall>k. btGet t k = Some (mapOps ops Map.empty (pkv k)))"
  by (rule bt.runOps_get)

text \<open>
  C30. \<open>Seek(k)\<close> followed by \<open>Next\<close> until it reports the end terminates and yields the values of
  exactly the entries with a key not below \<open>k\<close>, in strictly increasing key order.
\<close>

theorem btree_seek_iterates:
  assumes "btInv t"
  shows "Option.bind (btSeek t k) (collectWhile (btNext t) (\<lambda>_. True)) =
      Some (Inr (map snd (filter (\<lambda>e. pkv k \<le> fst e) (btEntries t))))
    \<and> sorted_wrt (<) (map fst (btEntries t))"
  using bt.range_scan [where P = "\<lambda>_. True" and Q = "\<lambda>_. True", OF assms, of k] bt.sorted [OF assms]
  by (simp add: takeWhile_eq_all_conv [THEN iffD2])

definition treeOf :: "indexOp list \<Rightarrow> btree" where
  "treeOf ops = (case runOps btPut btDelete ops newBTree of Some t \<Rightarrow> t | None \<Rightarrow> newBTree)"

abbreviation sampleTree :: btree where
  "sampleTree \<equiv> treeOf (map (\<lambda>i. IndexPut (pkFromInt (of_nat i)) (formatNat i)) (rev [0..<12]))"

theorem btree_seek_iterates_witness:
  "Option.bind (btSeek sampleTree (pkFromInt 9)) (collectWhile (btNext sampleTree) (\<lambda>_. True)) =
      Some (Inr [''9'', ''10'', ''11''])"
proof -
  have "btInv sampleTree" by code_simp
  moreover have "map snd (filter (\<lambda>e. pkv (pkFromInt 9) \<le> fst e) (btEntries sampleTree)) = [''9'', ''10'', ''11'']"
    by code_simp
  ultimately show ?thesis using btree_seek_iterates [of sampleTree "pkFromInt 9"] by simp
qed

text \<open>
  C31. The tree is balanced: it has at least \<open>2 ^ h\<close> leaves when it has height \<open>h\<close>, so a descent visits
  a number of nodes that is logarithmic in the size of the tree.
\<close>

theorem btree_height_log:
  assumes "runOps btPut btDelete ops newBTree = Some t"
  shows "2 ^ height (root t) \<le> length (leaves (root t))"
  using assms bt.runOps_map [OF newBTree_inv(1), of ops] shape_leaves by (auto simp: btInv_def)

theorem btree_height_log_witness:
  "2 ^ height (root sampleTree) \<le> length (leaves (root sampleTree)) \<and> height (root sampleTree) = 1"
proof -
  have "runOps btPut btDelete (map (\<lambda>i. IndexPut (pkFromInt (of_nat i)) (formatNat i)) (rev [0..<12])) newBTree
      = Some sampleTree" by code_simp
  moreover have "height (root sampleTree) = 1" by code_simp
  ultimately show ?thesis using btree_height_log by blast
qed

end
