(* ===== verification/Page.thy ===== *)
theory Page
  imports Prelude
begin

text \<open>
  The slotted page of \<open>page.go\<close>: a fixed buffer of 4096 bytes with a slot count, a free offset, payloads
  that grow upward and a slot directory that grows downward. An index or slice bound out of range
  is the error \<^const>\<open>Panic\<close>. The lemmas show that a page is a list of payloads to which \<open>Put\<close> appends.
\<close>

definition pageSize :: nat where "pageSize = 4096"

record page =
  buf :: bytes

definition zeroPage :: page where
  "zeroPage = \<lparr>buf = replicate pageSize (char_of (0::nat))\<rparr>"

definition resetPage :: "page \<Rightarrow> page" where
  "resetPage p = p\<lparr>buf := put_at 2 (putUint16 4) (replicate pageSize (char_of (0::nat)))\<rparr>"

definition slotCount :: "page \<Rightarrow> nat" where
  "slotCount p = unat (uint16 (slice 0 2 (buf p)))"

definition freeOff :: "page \<Rightarrow> nat" where
  "freeOff p = unat (uint16 (slice 2 2 (buf p)))"

definition setSlotCount :: "nat \<Rightarrow> page \<Rightarrow> page" where
  "setSlotCount n p = p\<lparr>buf := put_at 0 (putUint16 (of_nat n)) (buf p)\<rparr>"

definition setFreeOff :: "nat \<Rightarrow> page \<Rightarrow> page" where
  "setFreeOff n p = p\<lparr>buf := put_at 2 (putUint16 (of_nat n)) (buf p)\<rparr>"

definition slotDirStart :: "page \<Rightarrow> int" where
  "slotDirStart p = int pageSize - int (slotCount p) * 4"

definition pagePut :: "bytes \<Rightarrow> page \<Rightarrow> page res" where
  "pagePut payload p =
     (let n = slotCount p;
          free = freeOff p;
          dirStart = int pageSize - (int n + 1) * 4;
          need = length payload
      in if int free + int need > dirStart then Inl ErrRowTooLarge
         else
           let d = nat dirStart;
               p1 = p\<lparr>buf := put_at free payload (buf p)\<rparr>;
               p2 = p1\<lparr>buf := put_at d (putUint16 (of_nat free)) (buf p1)\<rparr>;
               p3 = p2\<lparr>buf := put_at (d + 2) (putUint16 (of_nat need)) (buf p2)\<rparr>
           in Inr (setFreeOff (free + need) (setSlotCount (n + 1) p3)))"

definition pageGet :: "int \<Rightarrow> page \<Rightarrow> bytes res" where
  "pageGet i p =
     (let n = slotCount p in
      if i < 0 \<or> i \<ge> int n then Inl (ErrSQL ''slot out of range'')
      else
        let dir = int pageSize - (i + 1) * 4 in
        if dir < 0 then Inl Panic
        else
          let off = unat (uint16 (slice (nat dir) 2 (buf p)));
              len = unat (uint16 (slice (nat dir + 2) 2 (buf p)))
          in if off + len > pageSize then Inl Panic else Inr (slice off len (buf p)))"

definition LoadPage :: "bytes \<Rightarrow> page res" where
  "LoadPage raw =
     (if length raw \<noteq> pageSize then Inl (ErrSQL ''page must be 4096 bytes'') else Inr \<lparr>buf = raw\<rparr>)"

definition EncodeRowPage :: "bytes \<Rightarrow> bytes res" where
  "EncodeRowPage rowPayload =
     ebind (pagePut rowPayload (resetPage zeroPage)) (\<lambda>p. Inr (buf p))"

definition DecodeRowPage :: "bytes \<Rightarrow> bytes res" where
  "DecodeRowPage raw =
     ebind (LoadPage raw) (\<lambda>p.
       if slotCount p < 1 then Inl (ErrSQL ''empty row page'') else pageGet 0 p)"


section \<open>A page is a list of payloads\<close>

definition slotDir :: "nat \<Rightarrow> page \<Rightarrow> nat \<times> nat" where
  "slotDir i p =
     (let d = pageSize - (i + 1) * 4 in
      (unat (uint16 (slice d 2 (buf p))), unat (uint16 (slice (d + 2) 2 (buf p)))))"

definition pageInv :: "page \<Rightarrow> bool" where
  "pageInv p \<longleftrightarrow>
     length (buf p) = pageSize \<and> 4 \<le> freeOff p \<and> freeOff p + 4 * slotCount p \<le> pageSize
     \<and> (\<forall>i < slotCount p. 4 \<le> fst (slotDir i p) \<and> fst (slotDir i p) + snd (slotDir i p) \<le> freeOff p)"

definition payloads :: "page \<Rightarrow> bytes list" where
  "payloads p = map (\<lambda>i. slice (fst (slotDir i p)) (snd (slotDir i p)) (buf p)) [0..<slotCount p]"

lemma slotCount_buf: "slotCount (p\<lparr>buf := b\<rparr>) = unat (uint16 (slice 0 2 b))"
  by (simp add: slotCount_def)

lemma freeOff_buf: "freeOff (p\<lparr>buf := b\<rparr>) = unat (uint16 (slice 2 2 b))"
  by (simp add: freeOff_def)

lemma length_payloads [simp]: "length (payloads p) = slotCount p"
  by (simp add: payloads_def)

lemma pageInv_reset: "pageInv (resetPage zeroPage)" "payloads (resetPage zeroPage) = []"
    "slotCount (resetPage zeroPage) = 0" "freeOff (resetPage zeroPage) = 4"
proof -
  let ?z = "replicate pageSize (char_of (0::nat))"
  have "slice 0 2 (put_at 2 (putUint16 4) ?z) = replicate 2 (char_of (0::nat))"
    by (simp add: slice_put_at_below pageSize_def del: slice_0) (simp add: slice_def)
  moreover have "slice 2 2 (put_at 2 (putUint16 4) ?z) = putUint16 4"
    using slice_put_at_same [of 2 "putUint16 4" ?z] by (simp add: pageSize_def)
  moreover have "uint16 (replicate 2 (char_of (0::nat))) = 0" by code_simp
  ultimately have *: "slotCount (resetPage zeroPage) = 0" "freeOff (resetPage zeroPage) = 4"
    unfolding slotCount_def freeOff_def resetPage_def by (simp_all del: slice_0)
  then show "slotCount (resetPage zeroPage) = 0" "freeOff (resetPage zeroPage) = 4" by simp_all
  show "pageInv (resetPage zeroPage)" "payloads (resetPage zeroPage) = []"
    using * by (simp_all add: pageInv_def payloads_def) (simp add: resetPage_def pageSize_def)
qed

text \<open>
  Where the four writes of \<open>Put\<close> go: the payload, the two halves of the new directory entry, and the
  two header fields do not overlap, so every other field keeps its value.
\<close>

lemma pagePut_buf:
  assumes "pageInv p" "freeOff p + length x + 4 * (slotCount p + 1) \<le> pageSize"
  defines "d \<equiv> pageSize - (slotCount p + 1) * 4"
  shows "pagePut x p = Inr (p\<lparr>buf := put_at 2 (putUint16 (of_nat (freeOff p + length x)))
      (put_at 0 (putUint16 (of_nat (slotCount p + 1)))
        (put_at (d + 2) (putUint16 (of_nat (length x)))
          (put_at d (putUint16 (of_nat (freeOff p))) (put_at (freeOff p) x (buf p)))))\<rparr>)"
proof -
  have "nat (int pageSize - (int (slotCount p) + 1) * 4) = d" using assms(2) by (simp add: d_def)
  then show ?thesis
    using assms(2) by (simp add: pagePut_def Let_def setFreeOff_def setSlotCount_def)
qed

lemma pagePut_fields:
  assumes "pageInv p" "freeOff p + length x + 4 * (slotCount p + 1) \<le> pageSize"
  obtains q where "pagePut x p = Inr q" "length (buf q) = pageSize"
    "slotCount q = slotCount p + 1" "freeOff q = freeOff p + length x"
    "slotDir (slotCount p) q = (freeOff p, length x)"
    "\<And>i. i < slotCount p \<Longrightarrow> slotDir i q = slotDir i p"
    "slice (freeOff p) (length x) (buf q) = x"
    "\<And>i n. 4 \<le> i \<Longrightarrow> i + n \<le> freeOff p \<Longrightarrow> slice i n (buf q) = slice i n (buf p)"
proof -
  define d where "d = pageSize - (slotCount p + 1) * 4"
  define b1 where "b1 = put_at (freeOff p) x (buf p)"
  define b2 where "b2 = put_at d (putUint16 (of_nat (freeOff p))) b1"
  define b3 where "b3 = put_at (d + 2) (putUint16 (of_nat (length x))) b2"
  define b4 where "b4 = put_at 0 (putUint16 (of_nat (slotCount p + 1))) b3"
  define b5 where "b5 = put_at 2 (putUint16 (of_nat (freeOff p + length x))) b4"
  have inv: "length (buf p) = pageSize" "4 \<le> freeOff p" using assms(1) by (simp_all add: pageInv_def)
  have dd: "freeOff p + length x \<le> d" "d + 4 * (slotCount p + 1) = pageSize" "d + 4 \<le> pageSize"
    using assms(2) by (simp_all add: d_def)
  have len: "length b1 = pageSize" "length b2 = pageSize" "length b3 = pageSize" "length b4 = pageSize"
    "length b5 = pageSize"
    using inv dd by (simp_all add: b1_def b2_def b3_def b4_def b5_def pageSize_def)
  have small: "freeOff p + length x < 65536" "slotCount p + 1 < 65536"
    using dd by (simp_all add: pageSize_def)
  have low: "slice 0 2 b5 = putUint16 (of_nat (slotCount p + 1))"
    "slice 2 2 b5 = putUint16 (of_nat (freeOff p + length x))"
    using len slice_put_at_same [of 0 "putUint16 (of_nat (slotCount p + 1))" b3]
      slice_put_at_same [of 2 "putUint16 (of_nat (freeOff p + length x))" b4]
    by (simp_all add: b5_def b4_def slice_put_at_below pageSize_def del: slice_0)
  have high: "slice i n b5 = slice i n b3" if "4 \<le> i" for i n
    using that len by (simp add: b5_def b4_def slice_put_at_above pageSize_def)
  have dir: "slice d 2 b3 = putUint16 (of_nat (freeOff p))" "slice (d + 2) 2 b3 = putUint16 (of_nat (length x))"
    using len dd slice_put_at_same [of d "putUint16 (of_nat (freeOff p))" b1]
      slice_put_at_same [of "d + 2" "putUint16 (of_nat (length x))" b2]
    by (simp_all add: b3_def b2_def slice_put_at_below)
  have above: "slice i n b3 = slice i n (buf p)" if "d + 4 \<le> i" for i n
    using that len dd inv by (simp add: b3_def b2_def b1_def slice_put_at_above)
  have below: "slice i n b3 = slice i n b1" if "i + n \<le> d" for i n
    using that len dd by (simp add: b3_def b2_def slice_put_at_below)
  have data: "slice (freeOff p) (length x) b5 = x"
    using high [OF inv(2)] below [OF dd(1)] slice_put_at_same [of "freeOff p" x "buf p"] dd inv
    by (simp add: b1_def)
  have old: "slice i n b5 = slice i n (buf p)" if "4 \<le> i" "i + n \<le> freeOff p" for i n
    using high [OF that(1)] below [of i n] that dd inv by (simp add: b1_def slice_put_at_below)
  show thesis
  proof
    show "pagePut x p = Inr (p\<lparr>buf := b5\<rparr>)"
      using pagePut_buf [OF assms] by (simp add: b5_def b4_def b3_def b2_def b1_def d_def)
    show "slotDir (slotCount p) (p\<lparr>buf := b5\<rparr>) = (freeOff p, length x)"
      unfolding slotDir_def Let_def d_def [symmetric]
      using dir high [of d] high [of "d + 2"] small dd inv by (simp add: unat_of_nat16)
    show "slotDir i (p\<lparr>buf := b5\<rparr>) = slotDir i p" if "i < slotCount p" for i
      using that dd inv above [of "pageSize - (i + 1) * 4" 2] above [of "pageSize - (i + 1) * 4 + 2" 2]
        high [of "pageSize - (i + 1) * 4" 2] high [of "pageSize - (i + 1) * 4 + 2" 2]
      by (simp add: slotDir_def Let_def)
    show "slotCount (p\<lparr>buf := b5\<rparr>) = slotCount p + 1"
      using unat_of_nat16 [OF small(2)] by (simp only: slotCount_buf low(1) uint16_put)
    show "freeOff (p\<lparr>buf := b5\<rparr>) = freeOff p + length x"
      using unat_of_nat16 [OF small(1)] by (simp only: freeOff_buf low(2) uint16_put)
  qed (use len data old in simp_all)
qed

lemma pagePut_appends:
  assumes "pageInv p" "freeOff p + length x + 4 * (slotCount p + 1) \<le> pageSize"
  obtains q where "pagePut x p = Inr q" "pageInv q" "payloads q = payloads p @ [x]"
proof -
  from pagePut_fields [OF assms] obtain q where q: "pagePut x p = Inr q" "length (buf q) = pageSize"
    "slotCount q = slotCount p + 1" "freeOff q = freeOff p + length x"
    "slotDir (slotCount p) q = (freeOff p, length x)"
    "\<And>i. i < slotCount p \<Longrightarrow> slotDir i q = slotDir i p"
    "slice (freeOff p) (length x) (buf q) = x"
    "\<And>i n. 4 \<le> i \<Longrightarrow> i + n \<le> freeOff p \<Longrightarrow> slice i n (buf q) = slice i n (buf p)" by blast
  have old: "4 \<le> fst (slotDir i p) \<and> fst (slotDir i p) + snd (slotDir i p) \<le> freeOff p" if "i < slotCount p" for i
    using assms(1) that by (simp add: pageInv_def)
  have "pageInv q"
    using assms q(2-6) old by (fastforce simp: pageInv_def less_Suc_eq)
  moreover have "payloads q = payloads p @ [x]"
    using q(3,5-8) old by (simp add: payloads_def)
  ultimately show thesis using that q(1) by blast
qed

lemma pagePut_full: "pageSize < freeOff p + length x + 4 * (slotCount p + 1) \<Longrightarrow> pagePut x p = Inl ErrRowTooLarge"
  by (simp add: pagePut_def Let_def)

lemma pageGet_payload:
  assumes "pageInv p" "i < slotCount p"
  shows "pageGet (int i) p = Inr (payloads p ! i)"
proof -
  have dir: "nat (int pageSize - (int i + 1) * 4) = pageSize - (i + 1) * 4" by simp
  have "4 * slotCount p \<le> pageSize" using assms(1) by (simp add: pageInv_def)
  then have "\<not> int pageSize - (int i + 1) * 4 < 0" using assms(2) by simp
  moreover have "fst (slotDir i p) + snd (slotDir i p) \<le> pageSize"
    using assms by (fastforce simp: pageInv_def)
  ultimately show ?thesis
    using assms(2) unfolding pageGet_def Let_def dir by (simp add: payloads_def slotDir_def Let_def)
qed

lemma DecodeRowPage_first:
  assumes "pageInv p" "payloads p = x # xs"
  shows "DecodeRowPage (buf p) = Inr x"
proof -
  have "slotCount p = Suc (length xs)"
    using arg_cong [OF assms(2), of length] by simp
  moreover have "LoadPage (buf p) = Inr p" using assms(1) by (simp add: LoadPage_def pageInv_def)
  ultimately show ?thesis
    using assms pageGet_payload [of p 0] by (simp add: DecodeRowPage_def)
qed


lemma row_page:
  "ebind (EncodeRowPage x) DecodeRowPage = (if length x \<le> 4088 then Inr x else Inl ErrRowTooLarge)"
proof (cases "length x \<le> 4088")
  case True
  then have "freeOff (resetPage zeroPage) + length x + 4 * (slotCount (resetPage zeroPage) + 1) \<le> pageSize"
    by (simp add: pageInv_reset pageSize_def)
  from pagePut_appends [OF pageInv_reset(1) this] obtain q where
    "pagePut x (resetPage zeroPage) = Inr q" "pageInv q" "payloads q = payloads (resetPage zeroPage) @ [x]" by blast
  then show ?thesis
    using True DecodeRowPage_first [of q x "[]"] by (simp add: EncodeRowPage_def pageInv_reset)
qed (simp add: EncodeRowPage_def pagePut_full pageInv_reset pageSize_def)


section \<open>Properties of pages\<close>

text \<open>
  C33. On a well-formed page \<open>Put\<close> either reports \<open>ErrRowTooLarge\<close>, exactly when the payload and a new
  directory entry do not fit between the free offset and the directory, or it appends the payload: all
  earlier slots and the new one then read back as they were stored.
\<close>

theorem page_put_appends:
  assumes "pageInv p"
  shows "case pagePut x p of
      Inl e \<Rightarrow> e = ErrRowTooLarge \<and> pageSize < freeOff p + length x + 4 * (slotCount p + 1)
    | Inr q \<Rightarrow> pageInv q \<and> (\<forall>i\<le> slotCount p. pageGet (int i) q = Inr ((payloads p @ [x]) ! i))"
proof (cases "freeOff p + length x + 4 * (slotCount p + 1) \<le> pageSize")
  case True
  from pagePut_appends [OF assms True] obtain q where
    q: "pagePut x p = Inr q" "pageInv q" "payloads q = payloads p @ [x]" by blast
  then have "slotCount q = Suc (slotCount p)"
    by (metis length_append_singleton length_payloads)
  then show ?thesis using q pageGet_payload [OF q(2)] by simp
qed (simp add: pagePut_full)

theorem page_put_appends_witness:
  "case pagePut ''ab'' (resetPage zeroPage) of
      Inl e \<Rightarrow> False
    | Inr q \<Rightarrow> pageInv q \<and> pageGet 0 q = Inr ''ab''"
proof -
  have "\<not> pageSize < freeOff (resetPage zeroPage) + length ''ab'' + 4 * (slotCount (resetPage zeroPage) + 1)"
    by (simp add: pageInv_reset pageSize_def)
  then show ?thesis
    using page_put_appends [OF pageInv_reset(1), of "''ab''"] by (auto simp: pageInv_reset split: sum.splits)
qed

text \<open>An entry of the slot directory, overwritten: its slot has the new fields, the others are as before.\<close>

lemma slotDir_overwrite:
  assumes "pageInv p" "i < slotCount p" "off < 65536" "len < 65536"
  defines "q \<equiv> p\<lparr>buf := put_at (pageSize - (i + 1) * 4) (putUint16 (of_nat off) @ putUint16 (of_nat len)) (buf p)\<rparr>"
  shows "length (buf q) = pageSize" "slotCount q = slotCount p" "slotDir i q = (off, len)"
    "j < slotCount p \<Longrightarrow> j \<noteq> i \<Longrightarrow> slotDir j q = slotDir j p"
    "4 \<le> k \<Longrightarrow> k + n \<le> freeOff p \<Longrightarrow> slice k n (buf q) = slice k n (buf p)"
proof -
  let ?d = "pageSize - (i + 1) * 4" and ?o = "putUint16 (of_nat off)" and ?l = "putUint16 (of_nat len)"
  have inv: "length (buf p) = pageSize" "4 \<le> freeOff p" "freeOff p + 4 * slotCount p \<le> pageSize" using assms(1) by (simp_all add: pageInv_def)
  have d: "?d + 4 \<le> pageSize" "freeOff p \<le> ?d" "4 \<le> ?d" using inv assms(2) by simp_all
  have b: "buf q = take ?d (buf p) @ ?o @ ?l @ drop (?d + 4) (buf p)" by (simp add: q_def put_at_def)
  show len: "length (buf q) = pageSize" using inv(1) d by (simp add: q_def)
  have below: "slice k n (buf q) = slice k n (buf p)" if "k + n \<le> ?d" for k n
    using that inv(1) d(1) by (simp add: q_def slice_put_at_below)
  have above: "slice k n (buf q) = slice k n (buf p)" if "?d + 4 \<le> k" for k n
    using that inv(1) d(1) by (simp add: q_def slice_put_at_above)
  show "slotCount q = slotCount p" using below [of 0 2] d(3) by (simp add: slotCount_def)
  have "length (take ?d (buf p)) = ?d" using inv(1) by simp
  then have "slice ?d 2 (buf q) = ?o" "slice (?d + 2) 2 (buf q) = ?l" unfolding b by (simp_all add: slice_def)
  then show "slotDir i q = (off, len)" using assms(3,4) by (simp add: slotDir_def Let_def unat_of_nat16)
  show "slice k n (buf q) = slice k n (buf p)" if "4 \<le> k" "k + n \<le> freeOff p" using below that d(2) by simp
  show "slotDir j q = slotDir j p" if j: "j < slotCount p" "j \<noteq> i"
  proof -
    let ?e = "pageSize - (j + 1) * 4"
    have "?e + 4 \<le> ?d \<or> ?d + 4 \<le> ?e" using j assms(2) inv(3) by (cases "i < j") auto
    then have "slice ?e 2 (buf q) = slice ?e 2 (buf p)" "slice (?e + 2) 2 (buf q) = slice (?e + 2) 2 (buf p)"
      using below [of ?e 2] below [of "?e + 2" 2] above [of ?e 2] above [of "?e + 2" 2] by auto
    then show ?thesis by (simp add: slotDir_def Let_def)
  qed
qed

lemma pageGet_dir:
  assumes "i < slotCount p" "4 * slotCount p \<le> pageSize"
  shows "pageGet (int i) p =
    (if fst (slotDir i p) + snd (slotDir i p) > pageSize then Inl Panic else Inr (slice (fst (slotDir i p)) (snd (slotDir i p)) (buf p)))"
proof -
  have dir: "nat (int pageSize - (int i + 1) * 4) = pageSize - (i + 1) * 4" by simp
  have "\<not> int pageSize - (int i + 1) * 4 < 0" using assms by simp
  then show ?thesis using assms(1) unfolding pageGet_def Let_def dir by (simp add: slotDir_def Let_def)
qed

text \<open>
  C39. A page image is not validated when it is loaded. Take any well-formed page and overwrite one entry of its slot
  directory with any offset and length that reach past the end of the page: the image is loaded without an error,
  reading the damaged slot panics, and so does decoding a row page whose first entry is the damaged one,
  while every other slot still reads back as it was stored.
\<close>

theorem damaged_page_panics:
  assumes "pageInv p" "i < slotCount p" "off < 65536" "len < 65536" "pageSize < off + len"
  defines "q \<equiv> p\<lparr>buf := put_at (pageSize - (i + 1) * 4) (putUint16 (of_nat off) @ putUint16 (of_nat len)) (buf p)\<rparr>"
  shows "LoadPage (buf q) = Inr q \<and> pageGet (int i) q = Inl Panic
    \<and> (i = 0 \<longrightarrow> DecodeRowPage (buf q) = Inl Panic)
    \<and> (\<forall>j < slotCount p. j \<noteq> i \<longrightarrow> pageGet (int j) q = Inr (payloads p ! j))"
proof -
  note over = slotDir_overwrite [OF assms(1-4), folded q_def]
  have room: "4 * slotCount q \<le> pageSize" using assms(1) over(2) by (simp add: pageInv_def)
  have load: "LoadPage (buf q) = Inr q" using over(1) by (simp add: LoadPage_def)
  have bad: "pageGet (int i) q = Inl Panic" using pageGet_dir [OF _ room, of i] assms(2,5) over(2,3) by simp
  moreover have "DecodeRowPage (buf q) = Inl Panic" if "i = 0"
    using that load bad assms(2) over(2) by (simp add: DecodeRowPage_def)
  moreover have "pageGet (int j) q = Inr (payloads p ! j)" if j: "j < slotCount p" "j \<noteq> i" for j
  proof -
    have "4 \<le> fst (slotDir j p)" "fst (slotDir j p) + snd (slotDir j p) \<le> freeOff p" "freeOff p \<le> pageSize"
      using assms(1) j(1) by (simp_all add: pageInv_def)
    then show ?thesis
      using pageGet_dir [OF _ room, of j] j over(2) over(4) [OF j] over(5) [of "fst (slotDir j p)" "snd (slotDir j p)"]
      by (simp add: payloads_def)
  qed
  ultimately show ?thesis using load by simp
qed

theorem damaged_page_panics_witness:
  "\<exists>raw. EncodeRowPage ''ab'' = Inr raw
     \<and> DecodeRowPage (put_at 4092 (putUint16 4000 @ putUint16 200) raw) = Inl Panic"
proof -
  obtain q where q: "pagePut ''ab'' (resetPage zeroPage) = Inr q" "pageInv q" "payloads q = payloads (resetPage zeroPage) @ [''ab'']"
    by (rule pagePut_appends [OF pageInv_reset(1), of "''ab''"]) (simp add: pageInv_reset pageSize_def)
  have "slotCount q = 1" using length_payloads [of q] q(3) by (simp add: pageInv_reset(2) del: length_payloads)
  then show ?thesis
    using damaged_page_panics [OF q(2), of 0 4000 200] q(1) by (simp add: pageSize_def EncodeRowPage_def)
qed

end
