(* ===== verification/Row.thy ===== *)
theory Row
  imports Page
begin

text \<open>
  Typed SQL values and the row codec of \<open>row.go\<close>: tag byte, little-endian integer or length-prefixed
  bytes, a 16-bit column count in front of a row, and the packing of a row into a page. The lemmas show
  that decoding returns what was encoded, up to the fields that the tag does not carry.
\<close>

type_synonym colType = string

definition TypeInteger :: colType where "TypeInteger = ''INTEGER''"
definition TypeText :: colType where "TypeText = ''TEXT''"
definition TypeBlob :: colType where "TypeBlob = ''BLOB''"
definition TypeJSON :: colType where "TypeJSON = ''JSON''"

record sqlval =
  vTyp :: colType
  vInt :: i64
  vText :: string
  vBlob :: bytes
  vNull :: bool

definition zeroValue :: sqlval where
  "zeroValue = \<lparr>vTyp = [], vInt = 0, vText = [], vBlob = [], vNull = False\<rparr>"

abbreviation tagByte :: "nat \<Rightarrow> byte" where
  "tagByte n \<equiv> char_of n"

definition encodeValue :: "sqlval \<Rightarrow> bytes" where
  "encodeValue v =
     (if vNull v then [tagByte 0]
      else if vTyp v = TypeInteger then tagByte 1 # putUint64 (vInt v)
      else if vTyp v = TypeText then tagByte 2 # putUint32 (of_nat (length (vText v))) @ vText v
      else if vTyp v = TypeBlob then tagByte 3 # putUint32 (of_nat (length (vBlob v))) @ vBlob v
      else if vTyp v = TypeJSON then tagByte 4 # putUint32 (of_nat (length (vBlob v))) @ vBlob v
      else [tagByte 0])"

definition decodeSized :: "string \<Rightarrow> string \<Rightarrow> (bytes \<Rightarrow> sqlval) \<Rightarrow> bytes \<Rightarrow> (sqlval \<times> nat) res" where
  \<comment> \<open>the cases 2, 3 and 4 of \<open>decodeValue\<close>, which differ in their messages and the field they fill\<close>
  "decodeSized shortHeader shortBody mk data =
     (if length data < 5 then Inl (ErrSQL shortHeader)
      else
        let n = unat (uint32 (slice 1 4 data)) in
        if length data < 5 + n then Inl (ErrSQL shortBody) else Inr (mk (slice 5 n data), 5 + n))"

definition decodeValue :: "bytes \<Rightarrow> (sqlval \<times> nat) res" where
  "decodeValue data =
     (case data of
        [] \<Rightarrow> Inl (ErrSQL ''truncated value'')
      | t # _ \<Rightarrow>
          if t = tagByte 0 then Inr (zeroValue\<lparr>vNull := True\<rparr>, 1)
          else if t = tagByte 1 then
            if length data < 9 then Inl (ErrSQL ''truncated int'')
            else Inr (zeroValue\<lparr>vTyp := TypeInteger, vInt := uint64 (slice 1 8 data)\<rparr>, 9)
          else if t = tagByte 2 then
            decodeSized ''truncated text header'' ''truncated text''
              (\<lambda>b. zeroValue\<lparr>vTyp := TypeText, vText := b\<rparr>) data
          else if t = tagByte 3 then
            decodeSized ''truncated blob header'' ''truncated blob''
              (\<lambda>b. zeroValue\<lparr>vTyp := TypeBlob, vBlob := b\<rparr>) data
          else if t = tagByte 4 then
            decodeSized ''truncated json header'' ''truncated json''
              (\<lambda>b. zeroValue\<lparr>vTyp := TypeJSON, vBlob := b\<rparr>) data
          else Inl (ErrSQL ''unknown value tag''))"

definition encodeRow :: "sqlval list \<Rightarrow> bytes" where
  "encodeRow values = putUint16 (of_nat (length values)) @ concat (map encodeValue values)"

definition decodeRow :: "bytes \<Rightarrow> sqlval list res" where
  "decodeRow data =
     (if length data < 2 then Inl (ErrSQL ''truncated row'')
      else
        let n = unat (uint16 (take 2 data)) in
        ebind (dec_seq decodeValue n (drop 2 data)) (\<lambda>(vs, _). Inr vs))"

definition packRow :: "sqlval list \<Rightarrow> bytes res" where
  "packRow values = EncodeRowPage (encodeRow values)"

definition unpackRow :: "bytes \<Rightarrow> sqlval list res" where
  "unpackRow pageBytes = ebind (DecodeRowPage pageBytes) decodeRow"


section \<open>Decoding inverts encoding\<close>

definition normValue :: "sqlval \<Rightarrow> sqlval" where
  \<comment> \<open>a value without the fields its encoding does not carry\<close>
  "normValue v =
     (if vNull v then zeroValue\<lparr>vNull := True\<rparr>
      else if vTyp v = TypeInteger then zeroValue\<lparr>vTyp := TypeInteger, vInt := vInt v\<rparr>
      else if vTyp v = TypeText then zeroValue\<lparr>vTyp := TypeText, vText := vText v\<rparr>
      else if vTyp v = TypeBlob then zeroValue\<lparr>vTyp := TypeBlob, vBlob := vBlob v\<rparr>
      else if vTyp v = TypeJSON then zeroValue\<lparr>vTyp := TypeJSON, vBlob := vBlob v\<rparr>
      else zeroValue\<lparr>vNull := True\<rparr>)"

definition sizeOk :: "sqlval \<Rightarrow> bool" where
  "sizeOk v \<longleftrightarrow> length (encodeValue v) < 2 ^ 32"

lemma types_distinct [simp]:
  "TypeInteger \<noteq> TypeText" "TypeInteger \<noteq> TypeBlob" "TypeInteger \<noteq> TypeJSON" "TypeText \<noteq> TypeBlob"
  "TypeText \<noteq> TypeJSON" "TypeBlob \<noteq> TypeJSON"
  "TypeText \<noteq> TypeInteger" "TypeBlob \<noteq> TypeInteger" "TypeJSON \<noteq> TypeInteger" "TypeBlob \<noteq> TypeText"
  "TypeJSON \<noteq> TypeText" "TypeJSON \<noteq> TypeBlob"
  by (simp_all add: TypeInteger_def TypeText_def TypeBlob_def TypeJSON_def)

lemma decodeSized_enc:
  "length b < 4294967296 \<Longrightarrow>
   decodeSized h s mk (t # putUint32 (of_nat (length b)) @ b @ rest) = Inr (mk b, 5 + length b)"
  by (simp add: decodeSized_def Let_def slice_def unat_of_nat32 drop_Cons')

lemma decodeValue_enc: "sizeOk v \<Longrightarrow> decodeValue (encodeValue v @ rest) = Inr (normValue v, length (encodeValue v))"
  by (cases "vNull v"; cases "vTyp v \<in> {TypeInteger, TypeText, TypeBlob, TypeJSON}")
    (auto simp: sizeOk_def encodeValue_def decodeValue_def normValue_def decodeSized_enc slice_def)

interpretation rowValue: prefix_codec encodeValue decodeValue sizeOk normValue
  by unfold_locales (rule decodeValue_enc)

lemma decodeRow_enc:
  assumes "list_all sizeOk vs" "length vs < 65536"
  shows "decodeRow (encodeRow vs) = Inr (map normValue vs)"
  using rowValue.dec_seq_enc [OF assms(1), of "[]"] assms(2)
  by (simp add: decodeRow_def encodeRow_def Let_def unat_of_nat16)

lemma encodeValue_nonempty: "0 < length (encodeValue v)"
  by (simp add: encodeValue_def)

lemma fitting_row:
  assumes "length (encodeRow vs) \<le> n" "n < 65536"
  shows "list_all sizeOk vs" "length vs < 65536"
proof -
  have *: "sum_list (map (\<lambda>v. length (encodeValue v)) vs) \<le> n"
    using assms(1) by (simp add: encodeRow_def length_concat comp_def)
  have "length (encodeValue v) \<le> sum_list (map (\<lambda>v. length (encodeValue v)) vs)" if "v \<in> set vs" for v
    using that by (simp add: member_le_sum_list)
  then show "list_all sizeOk vs" using * assms(2) by (fastforce simp: list_all_iff sizeOk_def)
  have "length vs \<le> sum_list (map (\<lambda>v. length (encodeValue v)) vs)"
  proof (induction vs)
    case (Cons v vs)
    then show ?case using encodeValue_nonempty [of v] by (simp del: length_greater_0_conv)
  qed simp
  then show "length vs < 65536" using * assms(2) by simp
qed

lemma normValue_idem: "normValue (normValue v) = normValue v"
  by (auto simp: normValue_def zeroValue_def)


section \<open>Properties of rows\<close>

text \<open>
  C32. Storing a row and reading it back: a row whose encoding has at most 4088 bytes comes back with
  every column's value (types and payloads; a NULL carries nothing else), and a larger row is refused
  with \<open>ErrRowTooLarge\<close>. There is no third outcome.
\<close>

theorem row_roundtrip:
  "ebind (packRow vs) unpackRow =
     (if length (encodeRow vs) \<le> 4088 then Inr (map normValue vs) else Inl ErrRowTooLarge)"
proof -
  have "ebind (packRow vs) unpackRow = ebind (ebind (EncodeRowPage (encodeRow vs)) DecodeRowPage) decodeRow"
    by (simp add: packRow_def unpackRow_def ebind_def split: sum.splits)
  also have "\<dots> = (if length (encodeRow vs) \<le> 4088 then Inr (map normValue vs) else Inl ErrRowTooLarge)"
    using fitting_row [of vs 4088] decodeRow_enc [of vs] by (simp add: row_page)
  finally show ?thesis .
qed

end
