(* ===== verification/Golib.thy ===== *)
theory Golib
  imports Utf8 Strconv
begin

text \<open>
  What the SQL layer uses of Go's \<open>unicode\<close>, \<open>strings\<close> and floating-point arithmetic.

  The tables of Unicode (which runes from 128 on are letters or digits, their case mappings and case
  orbits) and the decimal conversions of \<open>strconv\<close> for floating-point numbers are the fields of a record
  that the definitions take as an argument; the theorems hold for all of them. Runes below 128, white
  space, the iteration over runes and the reading of a float's bits are written out. A \<open>float64\<close> is its
  64 bits.
\<close>

record golib =
  uLetter :: "nat \<Rightarrow> bool"          \<comment> \<open>\<open>unicode.IsLetter\<close> of a rune from 128 on\<close>
  uDigit :: "nat \<Rightarrow> bool"           \<comment> \<open>\<open>unicode.IsDigit\<close>\<close>
  uUpper :: "nat \<Rightarrow> nat"            \<comment> \<open>\<open>unicode.ToUpper\<close>\<close>
  uLower :: "nat \<Rightarrow> nat"            \<comment> \<open>\<open>unicode.ToLower\<close>\<close>
  uFold :: "nat \<Rightarrow> nat \<Rightarrow> bool"     \<comment> \<open>in one orbit of \<open>unicode.SimpleFold\<close>\<close>
  fParse :: "string \<Rightarrow> u64 option"  \<comment> \<open>\<open>strconv.ParseFloat(s, 64)\<close>, \<open>None\<close> for an error\<close>
  fFormat :: "u64 \<Rightarrow> string"        \<comment> \<open>\<open>strconv.FormatFloat(f, 'g', -1, 64)\<close>\<close>
  fMarshal :: "u64 \<Rightarrow> string"       \<comment> \<open>a finite number as \<open>encoding/json\<close> writes it\<close>
  fOverflow :: "u64 \<Rightarrow> i64"         \<comment> \<open>\<open>int64(f)\<close> for a number that does not fit, up to the platform\<close>


section \<open>Runes\<close>

definition isUpperAscii :: "nat \<Rightarrow> bool" where
  "isUpperAscii r \<longleftrightarrow> 65 \<le> r \<and> r \<le> 90"

definition isLowerAscii :: "nat \<Rightarrow> bool" where
  "isLowerAscii r \<longleftrightarrow> 97 \<le> r \<and> r \<le> 122"

definition isLetter :: "golib \<Rightarrow> nat \<Rightarrow> bool" where
  "isLetter L r \<longleftrightarrow> (if r < 128 then isUpperAscii r \<or> isLowerAscii r else uLetter L r)"

definition isDigitRune :: "golib \<Rightarrow> nat \<Rightarrow> bool" where
  "isDigitRune L r \<longleftrightarrow> (if r < 128 then 48 \<le> r \<and> r \<le> 57 else uDigit L r)"

definition isSpace :: "nat \<Rightarrow> bool" where
  "isSpace r \<longleftrightarrow>
     (9 \<le> r \<and> r \<le> 13) \<or> r = 32 \<or> r = 133 \<or> r = 160 \<or> r = 5760 \<or> (8192 \<le> r \<and> r \<le> 8202)
     \<or> r = 8232 \<or> r = 8233 \<or> r = 8239 \<or> r = 8287 \<or> r = 12288"

definition upperRune :: "golib \<Rightarrow> nat \<Rightarrow> nat" where
  "upperRune L r = (if r < 128 then if isLowerAscii r then r - 32 else r else uUpper L r)"

definition lowerRune :: "golib \<Rightarrow> nat \<Rightarrow> nat" where
  "lowerRune L r = (if r < 128 then if isUpperAscii r then r + 32 else r else uLower L r)"

function runes :: "string \<Rightarrow> nat list" where
  \<comment> \<open>the runes that \<open>for _, r := range s\<close> goes through\<close>
  "runes s = (if s = [] then [] else fst (decodeRune s) # runes (drop (snd (decodeRune s)) s))"
  by pat_completeness auto
termination
proof (relation "measure length")
  fix s :: string
  assume "s \<noteq> []"
  then show "(drop (snd (decodeRune s)) s, s) \<in> measure length"
    using decodeRune_width [of s] by (cases s) simp_all
qed auto

declare runes.simps [simp del]

definition mapRunes :: "(nat \<Rightarrow> nat) \<Rightarrow> string \<Rightarrow> string" where
  \<comment> \<open>\<open>strings.Map\<close>\<close>
  "mapRunes f s = concat (map (\<lambda>r. encodeRune (f r)) (runes s))"

definition toUpper :: "golib \<Rightarrow> string \<Rightarrow> string" where
  "toUpper L s = mapRunes (upperRune L) s"

definition toLower :: "golib \<Rightarrow> string \<Rightarrow> string" where
  "toLower L s = mapRunes (lowerRune L) s"

definition foldRune :: "golib \<Rightarrow> nat \<Rightarrow> nat \<Rightarrow> bool" where
  "foldRune L a b \<longleftrightarrow>
     a = b
     \<or> (if a < 128 \<and> b < 128 then isUpperAscii (min a b) \<and> max a b = min a b + 32 else uFold L a b)"

definition equalFold :: "golib \<Rightarrow> string \<Rightarrow> string \<Rightarrow> bool" where
  \<comment> \<open>\<open>strings.EqualFold\<close>\<close>
  "equalFold L s t \<longleftrightarrow> list_all2 (foldRune L) (runes s) (runes t)"

lemma runes_Nil [simp]: "runes [] = []"
  by (simp add: runes.simps)

lemma runes_ascii_Cons: "bval c < 128 \<Longrightarrow> runes (c # s) = bval c # runes s"
  using runes.simps [of "c # s"] by (simp add: decodeRune_ascii)

abbreviation isAscii :: "string \<Rightarrow> bool" where
  "isAscii s \<equiv> list_all (\<lambda>c. bval c < 128) s"

lemma runes_ascii: "isAscii s \<Longrightarrow> runes s = map bval s"
  by (induction s) (auto simp: runes_ascii_Cons)

lemma runes_Cons_width:
  "s \<noteq> [] \<Longrightarrow> runes s = fst (decodeRune s) # runes (drop (snd (decodeRune s)) s)"
  by (subst runes.simps) simp

lemma equalFold_refl [simp]: "equalFold L s s"
  by (simp add: equalFold_def list.rel_refl foldRune_def)

definition lowerName :: "golib \<Rightarrow> string \<Rightarrow> bool" where
  \<comment> \<open>a name that \<open>ToLower\<close> leaves alone\<close>
  "lowerName L s \<longleftrightarrow> toLower L s = s"

lemma toLower_ascii:
  assumes "isAscii s"
  shows "toLower L s = map (\<lambda>c. if isUpperAscii (bval c) then char_of (bval c + 32) else c) s"
proof -
  have "concat (map (\<lambda>r. encodeRune (lowerRune L r)) (map bval s)) =
      map (\<lambda>c. if isUpperAscii (bval c) then char_of (bval c + 32) else c) s"
    using assms by (induction s) (auto simp: lowerRune_def encodeRune_def isUpperAscii_def)
  then show ?thesis using runes_ascii [OF assms] by (simp add: toLower_def mapRunes_def)
qed

lemma toUpper_ascii:
  assumes "isAscii s"
  shows "toUpper L s = map (\<lambda>c. if isLowerAscii (bval c) then char_of (bval c - 32) else c) s"
proof -
  have "concat (map (\<lambda>r. encodeRune (upperRune L r)) (map bval s)) =
      map (\<lambda>c. if isLowerAscii (bval c) then char_of (bval c - 32) else c) s"
    using assms by (induction s) (auto simp: upperRune_def encodeRune_def isLowerAscii_def)
  then show ?thesis using runes_ascii [OF assms] by (simp add: toUpper_def mapRunes_def)
qed


section \<open>Floating-point numbers as bits\<close>

definition f64Sign :: "u64 \<Rightarrow> int" where
  "f64Sign b = (if bit b 63 then -1 else 1)"

definition f64Exp :: "u64 \<Rightarrow> nat" where
  "f64Exp b = unat b div 2 ^ 52 mod 2048"

definition f64Mant :: "u64 \<Rightarrow> nat" where
  "f64Mant b = unat b mod 2 ^ 52"

definition f64Trunc :: "u64 \<Rightarrow> int option" where
  \<comment> \<open>the value rounded towards zero; \<open>None\<close> for infinities and NaN\<close>
  "f64Trunc b =
     (let e = f64Exp b; m = f64Mant b in
      if e = 2047 then None
      else if e = 0 then Some 0
      else if 1075 \<le> e then Some (f64Sign b * int ((2 ^ 52 + m) * 2 ^ (e - 1075)))
      else Some (f64Sign b * int ((2 ^ 52 + m) div 2 ^ (1075 - e))))"

definition f64Int :: "u64 \<Rightarrow> int option" where
  \<comment> \<open>the value of a number with \<open>x == math.Trunc(x)\<close> that is finite\<close>
  "f64Int b =
     (let e = f64Exp b; m = f64Mant b in
      if e = 0 then (if m = 0 then Some 0 else None)
      else if e < 1075 \<and> \<not> 2 ^ (1075 - e) dvd 2 ^ 52 + m then None
      else f64Trunc b)"

definition f64Integral :: "u64 \<Rightarrow> bool" where
  \<comment> \<open>\<open>x == math.Trunc(x) && x >= math.MinInt64 && x <= math.MaxInt64\<close>; the last constant is
      rounded to the float 2^63\<close>
  "f64Integral b \<longleftrightarrow> (case f64Int b of None \<Rightarrow> False | Some n \<Rightarrow> - (2 ^ 63) \<le> n \<and> n \<le> 2 ^ 63)"

definition f64ToInt64 :: "golib \<Rightarrow> u64 \<Rightarrow> i64" where
  "f64ToInt64 L b =
     (case f64Trunc b of
        Some n \<Rightarrow> if - (2 ^ 63) \<le> n \<and> n < 2 ^ 63 then word_of_int n else fOverflow L b
      | None \<Rightarrow> fOverflow L b)"


section \<open>An instance\<close>

definition asciiLib :: golib where
  \<comment> \<open>tables with nothing beyond ASCII, and no decimal fractions\<close>
  "asciiLib =
     \<lparr>uLetter = (\<lambda>r. False), uDigit = (\<lambda>r. False), uUpper = (\<lambda>r. r), uLower = (\<lambda>r. r), uFold = (\<lambda>a b. False),
      fParse = (\<lambda>s. None), fFormat = (\<lambda>b. ''0''), fMarshal = (\<lambda>b. ''0''), fOverflow = (\<lambda>b. 0)\<rparr>"

end
