(* ===== verification/Jsonbin.thy ===== *)
theory Jsonbin
  imports Golib Json Row Keys
begin

text \<open>
  The binary JSON format of \<open>jsonbin.go\<close>: the encoder from decoded JSON text, the reader, paths, and the
  extraction of SQL values. A Go \<open>any\<close> that holds JSON is a \<open>goany\<close>; a Go map is a list of members in
  increasing key order, which makes the representation unique (both the encoder and \<open>json.Marshal\<close>
  sort the keys). The lemmas show that reading inverts encoding, that the reader never consumes more
  than it is given, and what extraction along a path returns.
\<close>

datatype goany =
    GNil
  | GBool bool
  | GNumber string              \<comment> \<open>\<open>json.Number\<close>\<close>
  | GInt i64
  | GFloat u64
  | GStr string
  | GArr "goany list"
  | GObj "(string \<times> goany) list"  \<comment> \<open>\<open>map[string]any\<close>, sorted by key\<close>

fun objSet :: "string \<Rightarrow> 'v \<Rightarrow> (string \<times> 'v) list \<Rightarrow> (string \<times> 'v) list" where
  \<comment> \<open>\<open>m[k] = v\<close>\<close>
  "objSet k v [] = [(k, v)]"
| "objSet k v ((j, w) # ms) =
     (if k < j then (k, v) # (j, w) # ms
      else if k = j then (k, v) # ms
      else (j, w) # objSet k v ms)"

definition objOf :: "(string \<times> 'v) list \<Rightarrow> (string \<times> 'v) list" where
  "objOf kvs = foldl (\<lambda>m (k, v). objSet k v m) [] kvs"

fun jsonAny :: "json \<Rightarrow> goany" where
  \<comment> \<open>what \<open>Decode\<close> with \<open>UseNumber\<close> stores into an \<open>any\<close>\<close>
  "jsonAny JNull = GNil"
| "jsonAny (JBool b) = GBool b"
| "jsonAny (JNum l) = GNumber l"
| "jsonAny (JStr s) = GStr s"
| "jsonAny (JArr vs) = GArr (map jsonAny vs)"
| "jsonAny (JObj ms) = GObj (objOf (map (\<lambda>(k, v). (k, jsonAny v)) ms))"


section \<open>The encoder\<close>

definition jNull :: byte where "jNull = tagByte 0"
definition jFalse :: byte where "jFalse = tagByte 1"
definition jTrue :: byte where "jTrue = tagByte 2"
definition jInt :: byte where "jInt = tagByte 3"
definition jFloat :: byte where "jFloat = tagByte 4"
definition jString :: byte where "jString = tagByte 5"
definition jArray :: byte where "jArray = tagByte 6"
definition jObject :: byte where "jObject = tagByte 7"

definition jsonMaxDepth :: nat where "jsonMaxDepth = 32"

definition putLen :: "'a list \<Rightarrow> bytes" where
  \<comment> \<open>\<open>binary.LittleEndian.PutUint32(hdr[:], uint32(len(x)))\<close>\<close>
  "putLen xs = putUint32 (of_nat (length xs))"

fun appendJSONBin :: "golib \<Rightarrow> bytes \<Rightarrow> goany \<Rightarrow> nat \<Rightarrow> bytes res"
and appendElems :: "golib \<Rightarrow> bytes \<Rightarrow> goany list \<Rightarrow> nat \<Rightarrow> bytes res"
and appendMembers :: "golib \<Rightarrow> bytes \<Rightarrow> (string \<times> goany) list \<Rightarrow> nat \<Rightarrow> bytes res" where
  \<comment> \<open>the keys of a Go map are distinct, so the check for duplicates among them never fires and is left out\<close>
  "appendJSONBin L out v depth =
     (if depth > jsonMaxDepth then Inl (ErrSQL ''JSON nesting too deep'')
      else
        (case v of
           GNil \<Rightarrow> Inr (out @ [jNull])
         | GBool x \<Rightarrow> Inr (out @ [if x then jTrue else jFalse])
         | GNumber x \<Rightarrow>
             (case parseInt x of
                Some i \<Rightarrow> Inr (out @ jInt # putUint64 i)
              | None \<Rightarrow>
                  (case fParse L x of
                     None \<Rightarrow> Inl (ErrSQL ''bad JSON number'')
                   | Some f \<Rightarrow> Inr (out @ jFloat # putUint64 f)))
         | GFloat x \<Rightarrow>
             if f64Integral x then Inr (out @ jInt # putUint64 (f64ToInt64 L x))
             else Inr (out @ jFloat # putUint64 x)
         | GStr x \<Rightarrow> Inr (out @ jString # putLen x @ x)
         | GArr x \<Rightarrow> appendElems L (out @ jArray # putLen x) x (depth + 1)
         | GObj x \<Rightarrow> appendMembers L (out @ jObject # putLen x) x (depth + 1)
         | GInt _ \<Rightarrow> Inl (ErrSQL ''unsupported JSON type'')))"
| "appendElems L out [] depth = Inr out"
| "appendElems L out (el # els) depth =
     ebind (appendJSONBin L out el depth) (\<lambda>out. appendElems L out els depth)"
| "appendMembers L out [] depth = Inr out"
| "appendMembers L out ((k, v) # ms) depth =
     ebind (appendJSONBin L (out @ putLen k @ k) v depth) (\<lambda>out. appendMembers L out ms depth)"

declare appendJSONBin.simps [simp del]

definition encodeJSON :: "golib \<Rightarrow> bytes \<Rightarrow> bytes res" where
  "encodeJSON L text =
     (case json_first text of
        None \<Rightarrow> Inl (ErrSQL ''invalid JSON'')
      | Some (v, rest) \<Rightarrow> appendJSONBin L [] (jsonAny v) 0)"


section \<open>The reader\<close>

definition readKey :: "bytes \<Rightarrow> (string \<times> nat) res" where
  "readKey data =
     (if length data < 4 then Inl (ErrSQL ''truncated JSON key header'')
      else
        let kn = unat (uint32 (take 4 data)) in
        if length data < 4 + kn then Inl (ErrSQL ''truncated JSON key'') else Inr (slice 4 kn data, 4 + kn))"

fun readMembers :: "(bytes \<Rightarrow> (goany \<times> nat) res) \<Rightarrow> nat \<Rightarrow> (string \<times> goany) list \<Rightarrow> bytes
    \<Rightarrow> ((string \<times> goany) list \<times> nat) res" where
  \<comment> \<open>the loop over the members of an object; the result is the object and the bytes used\<close>
  "readMembers rd 0 obj data = Inr (obj, 0)"
| "readMembers rd (Suc n) obj data =
     ebind (readKey data) (\<lambda>(key, kused).
       if map_of obj key \<noteq> None then Inl (ErrSQL ''duplicate JSON object key'')
       else
         ebind (rd (drop kused data)) (\<lambda>(val, used).
           if kused + used \<le> length data then
             ebind (readMembers rd n (objSet key val obj) (drop (kused + used) data))
               (\<lambda>(obj, m). Inr (obj, kused + used + m))
           else Inl Panic))"

function readJSONBin :: "bytes \<Rightarrow> nat \<Rightarrow> (goany \<times> nat) res" where
  "readJSONBin data depth =
     (if depth > jsonMaxDepth then Inl (ErrSQL ''JSON nesting too deep'')
      else
        (case data of
           [] \<Rightarrow> Inl (ErrSQL ''truncated binary JSON'')
         | tag # _ \<Rightarrow>
             if tag = jNull then Inr (GNil, 1)
             else if tag = jFalse then Inr (GBool False, 1)
             else if tag = jTrue then Inr (GBool True, 1)
             else if tag = jInt then
               (if length data < 9 then Inl (ErrSQL ''truncated JSON int'')
                else Inr (GInt (uint64 (slice 1 8 data)), 9))
             else if tag = jFloat then
               (if length data < 9 then Inl (ErrSQL ''truncated JSON float'')
                else Inr (GFloat (uint64 (slice 1 8 data)), 9))
             else if tag = jString then
               (if length data < 5 then Inl (ErrSQL ''truncated JSON string header'')
                else
                  let n = unat (uint32 (slice 1 4 data)) in
                  if length data < 5 + n then Inl (ErrSQL ''truncated JSON string'')
                  else Inr (GStr (slice 5 n data), 5 + n))
             else if tag = jArray then
               (if length data < 5 then Inl (ErrSQL ''truncated JSON array header'')
                else
                  ebind (dec_seq (\<lambda>d. readJSONBin d (depth + 1)) (unat (uint32 (slice 1 4 data))) (drop 5 data))
                    (\<lambda>(arr, n). Inr (GArr arr, 5 + n)))
             else if tag = jObject then
               (if length data < 5 then Inl (ErrSQL ''truncated JSON object header'')
                else
                  ebind (readMembers (\<lambda>d. readJSONBin d (depth + 1)) (unat (uint32 (slice 1 4 data))) [] (drop 5 data))
                    (\<lambda>(obj, n). Inr (GObj obj, 5 + n)))
             else Inl (ErrSQL ''unknown JSON tag'')))"
  by pat_completeness auto
termination by (relation "measure (\<lambda>(data, depth). jsonMaxDepth + 1 - depth)") auto

declare readJSONBin.simps [simp del]

definition decodeJSON :: "bytes \<Rightarrow> goany res" where
  "decodeJSON bin =
     ebind (readJSONBin bin 0) (\<lambda>(v, n).
       if n \<noteq> length bin then Inl (ErrSQL ''trailing bytes in binary JSON'') else Inr v)"


section \<open>Writing JSON text again\<close>

definition f64Finite :: "u64 \<Rightarrow> bool" where
  "f64Finite b \<longleftrightarrow> f64Exp b \<noteq> 2047"

fun anyJson :: "golib \<Rightarrow> goany \<Rightarrow> json" where
  "anyJson L GNil = JNull"
| "anyJson L (GBool b) = JBool b"
| "anyJson L (GNumber l) = JNum l"
| "anyJson L (GInt i) = JNum (formatInt i)"
| "anyJson L (GFloat f) = JNum (fMarshal L f)"
| "anyJson L (GStr s) = JStr s"
| "anyJson L (GArr vs) = JArr (map (anyJson L) vs)"
| "anyJson L (GObj ms) = JObj (map (\<lambda>(k, v). (k, anyJson L v)) ms)"

fun allFinite :: "goany \<Rightarrow> bool" where
  "allFinite (GFloat f) \<longleftrightarrow> f64Finite f"
| "allFinite (GArr vs) \<longleftrightarrow> list_all allFinite vs"
| "allFinite (GObj ms) \<longleftrightarrow> list_all (\<lambda>(k, v). allFinite v) ms"
| "allFinite v \<longleftrightarrow> True"

definition marshalAny :: "golib \<Rightarrow> goany \<Rightarrow> string res" where
  \<comment> \<open>\<open>json.Marshal\<close>, which refuses infinities and NaN\<close>
  "marshalAny L v = (if allFinite v then Inr (json_print (anyJson L v)) else Inl (ErrSQL ''json: unsupported value''))"

definition jsonToText :: "golib \<Rightarrow> bytes \<Rightarrow> string res" where
  "jsonToText L bin = ebind (decodeJSON bin) (marshalAny L)"


section \<open>Paths and extraction\<close>

fun splitOn :: "char \<Rightarrow> string \<Rightarrow> string list" where
  \<comment> \<open>\<open>strings.Split\<close> with a separator of one byte\<close>
  "splitOn sep [] = [[]]"
| "splitOn sep (c # cs) =
     (if c = sep then [] # splitOn sep cs
      else case splitOn sep cs of [] \<Rightarrow> [[c]] | p # ps \<Rightarrow> (c # p) # ps)"

definition isJSONIdent :: "golib \<Rightarrow> string \<Rightarrow> bool" where
  "isJSONIdent L s \<longleftrightarrow>
     (case runes s of
        [] \<Rightarrow> False
      | r # rs \<Rightarrow>
          (r = 95 \<or> isLetter L r) \<and> list_all (\<lambda>r. r = 95 \<or> isLetter L r \<or> isDigitRune L r) rs)"

fun checkSegments :: "golib \<Rightarrow> string list \<Rightarrow> unit res" where
  "checkSegments L [] = Inr ()"
| "checkSegments L (p # ps) =
     (if p = [] \<or> \<not> isJSONIdent L p then Inl (ErrSQL ''invalid JSON path segment'')
      else if list_ex (\<lambda>c. c \<in> set ''[]*'') p then
        Inl (ErrSQL ''JSON path wildcards and array indexes are not supported'')
      else checkSegments L ps)"

definition parseJSONPath :: "golib \<Rightarrow> string \<Rightarrow> string list res" where
  "parseJSONPath L path =
     (if path = [] \<or> hd path \<noteq> CHR ''$'' then Inl (ErrSQL ''JSON path must start with $'')
      else if path = ''$'' then Inr []
      else if \<not> hasPrefix path ''$.'' then Inl (ErrSQL ''JSON path must use $.ident segments'')
      else
        let rest = drop 2 path in
        if rest = [] then Inl (ErrSQL ''empty JSON path segment'')
        else
          let parts = splitOn (CHR ''.'') rest in
          ebind (checkSegments L parts) (\<lambda>_. Inr parts))"

fun walkPath :: "goany \<Rightarrow> string list \<Rightarrow> goany option" where
  "walkPath cur [] = Some cur"
| "walkPath cur (seg # segs) =
     (case cur of
        GObj obj \<Rightarrow> (case map_of obj seg of None \<Rightarrow> None | Some nxt \<Rightarrow> walkPath nxt segs)
      | _ \<Rightarrow> None)"

abbreviation intValue :: "i64 \<Rightarrow> sqlval" where
  "intValue i \<equiv> zeroValue\<lparr>vTyp := TypeInteger, vInt := i\<rparr>"

abbreviation textValue :: "string \<Rightarrow> sqlval" where
  "textValue s \<equiv> zeroValue\<lparr>vTyp := TypeText, vText := s\<rparr>"

abbreviation nullValue :: sqlval where
  "nullValue \<equiv> zeroValue\<lparr>vNull := True\<rparr>"

definition jsonLeafToValue :: "golib \<Rightarrow> goany \<Rightarrow> sqlval res" where
  \<comment> \<open>\<open>ok\<close> is true whenever there is no error\<close>
  "jsonLeafToValue L v =
     (case v of
        GNil \<Rightarrow> Inr nullValue
      | GBool x \<Rightarrow> Inr (textValue (if x then ''true'' else ''false''))
      | GInt x \<Rightarrow> Inr (intValue x)
      | GFloat x \<Rightarrow>
          if f64Integral x then Inr (intValue (f64ToInt64 L x)) else Inr (textValue (fFormat L x))
      | GNumber x \<Rightarrow>
          (case parseInt x of
             Some i \<Rightarrow> Inr (intValue i)
           | None \<Rightarrow>
               (case fParse L x of
                  Some f \<Rightarrow>
                    if f64Integral f then Inr (intValue (f64ToInt64 L f)) else Inr (textValue x)
                | None \<Rightarrow> Inr (textValue x)))
      | GStr x \<Rightarrow> Inr (textValue x)
      | GArr _ \<Rightarrow> ebind (marshalAny L v) (\<lambda>b. Inr (textValue b))
      | GObj _ \<Rightarrow> ebind (marshalAny L v) (\<lambda>b. Inr (textValue b)))"

definition jsonExtract :: "golib \<Rightarrow> bytes \<Rightarrow> string \<Rightarrow> sqlval option res" where
  \<comment> \<open>\<open>None\<close> for \<open>ok = false\<close>\<close>
  "jsonExtract L bin path =
     ebind (parseJSONPath L path) (\<lambda>segs.
     ebind (readJSONBin bin 0) (\<lambda>(v, _).
       case walkPath v segs of
         None \<Rightarrow> Inr None
       | Some cur \<Rightarrow> ebind (jsonLeafToValue L cur) (\<lambda>x. Inr (Some x))))"

definition indexableExtract :: "golib \<Rightarrow> bytes \<Rightarrow> string \<Rightarrow> sqlval option res" where
  "indexableExtract L bin path =
     ebind (jsonExtract L bin path) (\<lambda>r.
       case r of
         None \<Rightarrow> Inr None
       | Some v \<Rightarrow>
           if vNull v then Inr None
           else if vTyp v = TypeInteger \<or> vTyp v = TypeText then Inr (Some v)
           else Inr None)"


section \<open>Maps as sorted lists of members\<close>

abbreviation sortedObj :: "(string \<times> 'v) list \<Rightarrow> bool" where
  "sortedObj ms \<equiv> sorted_wrt (<) (map fst ms)"

lemma objSet_keys: "set (map fst (objSet k v ms)) = insert k (set (map fst ms))"
  by (induction k v ms rule: objSet.induct) auto

lemma objSet_sorted: "sortedObj ms \<Longrightarrow> sortedObj (objSet k v ms)"
proof (induction k v ms rule: objSet.induct)
  case (2 k v j w ms)
  then show ?case using objSet_keys [of k v ms] by (auto dest: less_trans)
qed simp

lemma objSet_lookup: "sortedObj ms \<Longrightarrow> map_of (objSet k v ms) = (map_of ms)(k \<mapsto> v)"
proof (induction k v ms rule: objSet.induct)
  case (2 k v j w ms)
  then show ?case by (auto simp: fun_eq_iff)
qed simp

lemma objSet_last: "\<forall>m\<in>set ms. fst m < k \<Longrightarrow> objSet k v ms = ms @ [(k, v)]"
  by (induction k v ms rule: objSet.induct) auto

lemma objOf_snoc: "objOf (kvs @ [(k, v)]) = objSet k v (objOf kvs)"
  by (simp add: objOf_def)

lemma objOf_sorted: "sortedObj (objOf kvs)"
proof (induction kvs rule: rev_induct)
  case (snoc kv kvs)
  then show ?case by (cases kv) (simp add: objOf_snoc objSet_sorted)
qed (simp add: objOf_def)

lemma objSet_values: "set (map snd (objSet k v ms)) \<subseteq> insert v (set (map snd ms))"
  by (induction k v ms rule: objSet.induct) auto

lemma objOf_values: "set (map snd (objOf kvs)) \<subseteq> set (map snd kvs)"
proof (induction kvs rule: rev_induct)
  case (snoc kv kvs)
  obtain k v where kv: "kv = (k, v)" by (cases kv)
  have "set (map snd (objOf (kvs @ [kv]))) \<subseteq> insert v (set (map snd (objOf kvs)))"
    using objSet_values [of k v "objOf kvs"] by (simp only: kv objOf_snoc)
  also have "\<dots> \<subseteq> set (map snd (kvs @ [kv]))" using snoc kv by auto
  finally show ?case .
qed (simp add: objOf_def)

text \<open>The last value of a key wins, as in a Go map.\<close>

lemma objOf_lookup: "map_of (objOf kvs) = map_of (rev kvs)"
proof (induction kvs rule: rev_induct)
  case (snoc kv kvs)
  then show ?case by (cases kv) (simp add: objOf_snoc objSet_lookup objOf_sorted)
qed (simp add: objOf_def)

lemma objOf_id: "sortedObj ms \<Longrightarrow> objOf ms = ms"
proof (induction ms rule: rev_induct)
  case (snoc kv ms)
  then show ?case by (cases kv) (auto simp: objOf_snoc sorted_wrt_append intro!: objSet_last)
qed (simp add: objOf_def)

fun sortedAny :: "goany \<Rightarrow> bool" where
  "sortedAny (GArr vs) \<longleftrightarrow> list_all sortedAny vs"
| "sortedAny (GObj ms) \<longleftrightarrow> sortedObj ms \<and> list_all (\<lambda>(k, v). sortedAny v) ms"
| "sortedAny v \<longleftrightarrow> True"

lemma jsonAny_sorted: "sortedAny (jsonAny v)"
proof (induction v)
  case (JObj ms)
  let ?kvs = "map (\<lambda>(k, v). (k, jsonAny v)) ms"
  have "set (map snd (objOf ?kvs)) \<subseteq> set (map snd ?kvs)" by (rule objOf_values)
  moreover have "\<forall>v\<in>set (map snd ?kvs). sortedAny v" using JObj by fastforce
  ultimately have "\<forall>v\<in>set (map snd (objOf ?kvs)). sortedAny v" by blast
  then show ?case by (auto simp: objOf_sorted list_all_iff)
qed (simp_all add: list_all_iff)


section \<open>Reading inverts encoding\<close>

fun normAny :: "golib \<Rightarrow> goany \<Rightarrow> goany" where
  \<comment> \<open>what the reader returns for an encoded value: numbers have become integers or floats\<close>
  "normAny L (GNumber x) =
     (case parseInt x of
        Some i \<Rightarrow> GInt i
      | None \<Rightarrow> (case fParse L x of Some f \<Rightarrow> GFloat f | None \<Rightarrow> GNumber x))"
| "normAny L (GFloat x) = (if f64Integral x then GInt (f64ToInt64 L x) else GFloat x)"
| "normAny L (GArr vs) = GArr (map (normAny L) vs)"
| "normAny L (GObj ms) = GObj (map (\<lambda>(k, v). (k, normAny L v)) ms)"
| "normAny L v = v"

lemma tags_distinct:
  "distinct [jNull, jFalse, jTrue, jInt, jFloat, jString, jArray, jObject]"
  by code_simp

lemma unat_putLen: "length xs < 2 ^ 32 \<Longrightarrow> unat (uint32 (putLen xs)) = length xs"
  by (simp add: putLen_def unat_of_nat32)

lemma length_putLen [simp]: "length (putLen xs) = 4"
  by (simp add: putLen_def)

lemma readKey_enc:
  "length k < 2 ^ 32 \<Longrightarrow> readKey (putLen k @ k @ rest) = Inr (k, 4 + length k)"
  using unat_putLen [of k] by (simp add: readKey_def slice_def Let_def)

definition readsBack :: "nat \<Rightarrow> bytes \<Rightarrow> goany \<Rightarrow> bool" where
  "readsBack depth b v \<longleftrightarrow> b \<noteq> [] \<and> (\<forall>rest. readJSONBin (b @ rest) depth = Inr (v, length b))"

lemma readsBack_leaf:
  assumes "depth \<le> jsonMaxDepth"
  shows "readsBack depth [jNull] GNil" "readsBack depth [jFalse] (GBool False)" "readsBack depth [jTrue] (GBool True)"
    "readsBack depth (jInt # putUint64 i) (GInt i)" "readsBack depth (jFloat # putUint64 i) (GFloat i)"
    "length x < 2 ^ 32 \<Longrightarrow> readsBack depth (jString # putLen x @ x) (GStr x)"
  using assms tags_distinct unat_putLen [of x]
  by (auto simp: readsBack_def readJSONBin.simps slice_def Let_def)

lemma readsBack_array:
  assumes "depth \<le> jsonMaxDepth" "length vs < 2 ^ 32"
    and "\<And>rest. dec_seq (\<lambda>d. readJSONBin d (depth + 1)) (length vs) (b @ rest) = Inr (ws, length b)"
  shows "readsBack depth (jArray # putLen vs @ b) (GArr ws)"
  using assms tags_distinct unat_putLen [of vs]
  by (auto simp: readsBack_def readJSONBin.simps slice_def)

lemma readsBack_object:
  assumes "depth \<le> jsonMaxDepth" "length vs < 2 ^ 32"
    and "\<And>rest. readMembers (\<lambda>d. readJSONBin d (depth + 1)) (length vs) [] (b @ rest) = Inr (ws, length b)"
  shows "readsBack depth (jObject # putLen vs @ b) (GObj ws)"
  using assms tags_distinct unat_putLen [of vs]
  by (auto simp: readsBack_def readJSONBin.simps slice_def)

lemma readMembers_step:
  assumes "length k < 2 ^ 32" "map_of obj k = None" "readsBack depth b v"
    and "readMembers (\<lambda>d. readJSONBin d depth) n (objSet k v obj) (b' @ rest) = Inr (obj', length b')"
  shows "readMembers (\<lambda>d. readJSONBin d depth) (Suc n) obj (putLen k @ k @ b @ b' @ rest) =
    Inr (obj', 4 + length k + length b + length b')"
  using assms by (simp add: readKey_enc readsBack_def del: map_of_eq_None_iff)

lemma append_readsBack:
  "\<lbrakk>appendJSONBin L out v depth = Inr o2; sortedAny v; length o2 < 2 ^ 32\<rbrakk>
     \<Longrightarrow> \<exists>b. o2 = out @ b \<and> readsBack depth b (normAny L v)"
  "\<lbrakk>appendElems L out els depth = Inr o2; list_all sortedAny els; length o2 < 2 ^ 32\<rbrakk>
     \<Longrightarrow> \<exists>b. o2 = out @ b \<and> length els \<le> length b
           \<and> (\<forall>rest. dec_seq (\<lambda>d. readJSONBin d depth) (length els) (b @ rest) = Inr (map (normAny L) els, length b))"
  "\<lbrakk>appendMembers L out ms depth = Inr o2; sortedObj (obj @ ms); list_all (\<lambda>(k, v). sortedAny v) ms; length o2 < 2 ^ 32\<rbrakk>
     \<Longrightarrow> \<exists>b. o2 = out @ b \<and> length ms \<le> length b
           \<and> (\<forall>rest. readMembers (\<lambda>d. readJSONBin d depth) (length ms) obj (b @ rest)
                = Inr (obj @ map (\<lambda>(k, v). (k, normAny L v)) ms, length b))"
proof (induction L out v depth and L out els depth and L out ms depth arbitrary: o2 and o2 and obj o2
    rule: appendJSONBin_appendElems_appendMembers.induct)
  case (1 L out v depth)
  from "1.prems"(1) have d: "depth \<le> jsonMaxDepth" by (subst (asm) appendJSONBin.simps) (auto split: if_splits)
  note app = "1.prems"(1) [unfolded appendJSONBin.simps [of L out v depth]]
  note leaf = readsBack_leaf [OF d]
  show ?case
  proof (cases v)
    case (GArr vs)
    then have "appendElems L (out @ jArray # putLen vs) vs (depth + 1) = Inr o2" using app d by simp
    moreover have "list_all sortedAny vs" using "1.prems"(2) GArr by simp
    ultimately obtain b where b: "o2 = (out @ jArray # putLen vs) @ b" "length vs \<le> length b"
      "\<And>rest. dec_seq (\<lambda>d. readJSONBin d (depth + 1)) (length vs) (b @ rest) = Inr (map (normAny L) vs, length b)"
      using "1.IH"(1) [OF _ GArr] d "1.prems"(3) by (metis linorder_not_less)
    then have "readsBack depth (jArray # putLen vs @ b) (GArr (map (normAny L) vs))"
      using "1.prems"(3) by (intro readsBack_array [OF d]) auto
    then show ?thesis using b(1) GArr by auto
  next
    case (GObj ms)
    then have "appendMembers L (out @ jObject # putLen ms) ms (depth + 1) = Inr o2" using app d by simp
    moreover have "sortedObj ([] @ ms)" "list_all (\<lambda>(k, v). sortedAny v) ms" using "1.prems"(2) GObj by auto
    ultimately obtain b where b: "o2 = (out @ jObject # putLen ms) @ b" "length ms \<le> length b"
      "\<And>rest. readMembers (\<lambda>d. readJSONBin d (depth + 1)) (length ms) [] (b @ rest) =
         Inr ([] @ map (\<lambda>(k, v). (k, normAny L v)) ms, length b)"
      using "1.IH"(2) [OF _ GObj] d "1.prems"(3) by (metis linorder_not_less)
    then have "readsBack depth (jObject # putLen ms @ b) (GObj (map (\<lambda>(k, v). (k, normAny L v)) ms))"
      using "1.prems"(3) by (intro readsBack_object [OF d]) auto
    then show ?thesis using b(1) GObj by auto
  qed (use app leaf d "1.prems"(3) in \<open>auto split: option.splits if_splits\<close>)
next
  case (2 L out depth)
  then show ?case by simp
next
  case (3 L out el els depth)
  then obtain o1 where o1: "appendJSONBin L out el depth = Inr o1" "appendElems L o1 els depth = Inr o2"
    by (auto simp: res_simps)
  obtain b' where b': "o2 = o1 @ b'" "length els \<le> length b'"
    "\<And>rest. dec_seq (\<lambda>d. readJSONBin d depth) (length els) (b' @ rest) = Inr (map (normAny L) els, length b')"
    using "3.IH"(2) [OF o1] "3.prems"(2,3) by auto
  obtain b where b: "o1 = out @ b" "readsBack depth b (normAny L el)"
    using "3.IH"(1) [OF o1(1)] "3.prems"(2,3) b'(1) by auto
  then have "1 \<le> length b" by (cases b) (simp_all add: readsBack_def)
  then have "Suc (length els) \<le> length (b @ b')" using b'(2) by simp
  then show ?case
    using b b'(1,3) by (intro exI [of _ "b @ b'"]) (simp add: readsBack_def)
next
  case (4 L out depth)
  then show ?case by simp
next
  case (5 L out k v ms depth)
  then obtain o1 where o1: "appendJSONBin L (out @ putLen k @ k) v depth = Inr o1" "appendMembers L o1 ms depth = Inr o2"
    by (auto simp: res_simps)
  let ?obj = "obj @ [(k, normAny L v)]"
  have "sortedObj (?obj @ ms)" using "5.prems"(2) by simp
  then obtain b' where b': "o2 = o1 @ b'" "length ms \<le> length b'"
    "\<And>rest. readMembers (\<lambda>d. readJSONBin d depth) (length ms) ?obj (b' @ rest) =
       Inr (?obj @ map (\<lambda>(k, v). (k, normAny L v)) ms, length b')"
    using "5.IH"(2) [OF o1, of ?obj] "5.prems"(3,4) by auto
  obtain b where b: "o1 = (out @ putLen k @ k) @ b" "readsBack depth b (normAny L v)"
    using "5.IH"(1) [OF o1(1)] "5.prems"(3,4) b'(1) by auto
  have "length k < 2 ^ 32" using b(1) b'(1) "5.prems"(4) by simp
  moreover have below: "\<forall>m\<in>set obj. fst m < k" using "5.prems"(2) by (auto simp: sorted_wrt_append)
  then have "map_of obj k = None" by (force simp: map_of_eq_None_iff)
  moreover have "objSet k (normAny L v) obj = ?obj" using below by (rule objSet_last)
  ultimately have "readMembers (\<lambda>d. readJSONBin d depth) (Suc (length ms)) obj (putLen k @ k @ b @ b' @ rest) =
      Inr (?obj @ map (\<lambda>(k, v). (k, normAny L v)) ms, 4 + length k + length b + length b')" for rest
    using b'(3) b(2) by (intro readMembers_step) auto
  then show ?case
    using b(1) b'(1,2) by (intro exI [of _ "putLen k @ k @ b @ b'"]) (auto simp: add.assoc)
qed

text \<open>The reader stays within its input and does not panic, whatever the bytes are.\<close>

definition reader :: "(bytes \<Rightarrow> ('v \<times> nat) res) \<Rightarrow> bool" where
  "reader f \<longleftrightarrow> (\<forall>data. f data \<noteq> Inl Panic \<and> (\<forall>v n. f data = Inr (v, n) \<longrightarrow> n \<le> length data))"

lemma readerD: "reader f \<Longrightarrow> f data \<noteq> Inl Panic" "reader f \<Longrightarrow> f data = Inr (v, n) \<Longrightarrow> n \<le> length data"
  unfolding reader_def by blast+

lemma dec_seq_reader: "reader f \<Longrightarrow> reader (dec_seq f n)"
proof (induction n)
  case (Suc n)
  then have IH: "reader (dec_seq f n)" by simp
  have "dec_seq f (Suc n) data \<noteq> Inl Panic \<and> (\<forall>v m. dec_seq f (Suc n) data = Inr (v, m) \<longrightarrow> m \<le> length data)" for data
    using readerD [OF Suc.prems, of data] readerD [OF IH]
    by (fastforce simp: res_simps split: if_splits)
  then show ?case by (simp add: reader_def)
qed (simp add: reader_def)

lemma readKey_reader: "reader readKey"
  by (auto simp: reader_def readKey_def Let_def)

lemma readMembers_reader: "reader f \<Longrightarrow> reader (readMembers f n obj)"
proof (induction n arbitrary: obj)
  case (Suc n)
  then have IH: "reader (readMembers f n obj)" for obj by simp
  have "readMembers f (Suc n) obj data \<noteq> Inl Panic
      \<and> (\<forall>v m. readMembers f (Suc n) obj data = Inr (v, m) \<longrightarrow> m \<le> length data)" for data
    using readerD [OF readKey_reader, of data] readerD [OF Suc.prems] readerD [OF IH]
    by (fastforce simp: res_simps split: if_splits)
  then show ?case by (simp add: reader_def)
qed (simp add: reader_def)

lemma readJSONBin_reader: "reader (\<lambda>data. readJSONBin data depth)"
proof (induction "jsonMaxDepth + 1 - depth" arbitrary: depth)
  case 0
  then show ?case by (simp add: reader_def readJSONBin.simps)
next
  case (Suc n)
  then have IH: "reader (\<lambda>data. readJSONBin data (depth + 1))" by simp
  note seqs = readerD [OF dec_seq_reader [OF IH]] readerD [OF readMembers_reader [OF IH]]
  have "readJSONBin data depth \<noteq> Inl Panic \<and> (\<forall>v m. readJSONBin data depth = Inr (v, m) \<longrightarrow> m \<le> length data)" for data
    using seqs(1,2) [of _ "drop 5 data"] seqs(3,4) [of _ "[]" "drop 5 data"]
    by (subst (1 2) readJSONBin.simps) (fastforce simp: res_simps Let_def split: list.splits if_splits)
  then show ?case by (simp add: reader_def)
qed


section \<open>What the encoder accepts\<close>

fun anyDepth :: "goany \<Rightarrow> nat" where
  "anyDepth (GArr vs) = foldr max (map (\<lambda>v. Suc (anyDepth v)) vs) 0"
| "anyDepth (GObj ms) = foldr max (map (\<lambda>(k, v). Suc (anyDepth v)) ms) 0"
| "anyDepth v = 0"

fun numbersOk :: "golib \<Rightarrow> goany \<Rightarrow> bool" where
  "numbersOk L (GNumber x) \<longleftrightarrow> parseInt x \<noteq> None \<or> fParse L x \<noteq> None"
| "numbersOk L (GInt i) \<longleftrightarrow> False"
| "numbersOk L (GArr vs) \<longleftrightarrow> list_all (numbersOk L) vs"
| "numbersOk L (GObj ms) \<longleftrightarrow> list_all (\<lambda>(k, v). numbersOk L v) ms"
| "numbersOk L v \<longleftrightarrow> True"

lemma foldr_max_le: "foldr max xs 0 \<le> n \<longleftrightarrow> (\<forall>x\<in>set xs. x \<le> (n :: nat))"
  by (induction xs) auto

lemma depth_below:
  assumes "d \<le> (n :: nat)"
  shows "d + foldr max (map (\<lambda>x. Suc (f x)) xs) 0 \<le> n \<longleftrightarrow> (\<forall>x\<in>set xs. d + 1 + f x \<le> n)"
  using foldr_max_le [of "map (\<lambda>x. Suc (f x)) xs" "n - d"] assms by (auto simp: le_diff_conv2 add.commute)

lemma append_accepts:
  "(\<exists>b. appendJSONBin L out v depth = Inr b) \<longleftrightarrow> depth + anyDepth v \<le> jsonMaxDepth \<and> numbersOk L v"
  "(\<exists>b. appendElems L out els depth = Inr b) \<longleftrightarrow>
     (\<forall>v\<in>set els. depth + anyDepth v \<le> jsonMaxDepth \<and> numbersOk L v)"
  "(\<exists>b. appendMembers L out ms depth = Inr b) \<longleftrightarrow>
     (\<forall>m\<in>set ms. depth + anyDepth (snd m) \<le> jsonMaxDepth \<and> numbersOk L (snd m))"
proof (induction L out v depth and L out els depth and L out ms depth
    rule: appendJSONBin_appendElems_appendMembers.induct)
  case (1 L out v depth)
  show ?case
  proof (cases "depth \<le> jsonMaxDepth")
    case False
    then show ?thesis by (subst appendJSONBin.simps) simp
  next
    case True
    note eq = appendJSONBin.simps [of L out _ depth]
    show ?thesis
    proof (cases v)
      case (GArr vs)
      then show ?thesis
        using "1.IH"(1) [OF _ GArr] True depth_below [OF True, of anyDepth vs] by (simp add: eq list_all_iff ball_conj_distrib)
    next
      case (GObj ms)
      then show ?thesis
        using "1.IH"(2) [OF _ GObj] True depth_below [OF True, of "anyDepth \<circ> snd" ms]
        by (simp add: eq list_all_iff ball_conj_distrib comp_def case_prod_unfold)
    qed (use True in \<open>auto simp: eq split: option.splits\<close>)
  qed
qed (auto simp: res_simps)


section \<open>Properties\<close>

lemma jsonAny_decode:
  assumes "encodeJSON L text = Inr bin" "json_first text = Some (j, rest)" "length bin < 2 ^ 32"
  shows "readsBack 0 bin (normAny L (jsonAny j))"
  using append_readsBack(1) [of L "[]" "jsonAny j" 0 bin] jsonAny_sorted [of j] assms
  by (simp add: encodeJSON_def)

lemma readsBack_all: "readsBack depth b v \<Longrightarrow> readJSONBin b depth = Inr (v, length b)"
  unfolding readsBack_def by (metis append_Nil2)

text \<open>
  C26. The binary form keeps the value: what \<open>decodeJSON\<close> returns for the encoding of a JSON text is the
  value that the text denotes, with integers in the 64-bit range as integers and other numbers as floats,
  and the last of several members with one key.
\<close>

theorem jsonbin_roundtrip:
  assumes "encodeJSON L text = Inr bin" "json_first text = Some (j, rest)" "length bin < 2 ^ 32"
  shows "decodeJSON bin = Inr (normAny L (jsonAny j))"
  using readsBack_all [OF jsonAny_decode [OF assms]] by (simp add: decodeJSON_def)

lemma json_first_print: "json_ok 0 j \<Longrightarrow> json_first (json_print j) = Some (j, [])"
  using pvalue_print [of 0 j "[]" "2 * length (json_print j) + 2"]
  by (simp add: json_first_def num_end_def del: pvalue.simps)

theorem jsonbin_roundtrip_witness:
  "\<exists>bin. encodeJSON asciiLib (json_print (JObj [(''b'', JNull), (''a'', JArr [JBool True]), (''b'', JStr ''x'')])) = Inr bin
     \<and> decodeJSON bin = Inr (GObj [(''a'', GArr [GBool True]), (''b'', GStr ''x'')])"
proof -
  let ?j = "JObj [(''b'', JNull), (''a'', JArr [JBool True]), (''b'', JStr ''x'')]"
  have any: "jsonAny ?j = GObj [(''a'', GArr [GBool True]), (''b'', GStr ''x'')]"
    by (simp add: objOf_def less_list_code)
  have first: "json_first (json_print ?j) = Some (?j, [])"
    by (rule json_first_print) (simp add: maxNestingDepth_def valid_utf8_ascii)
  obtain bin where bin: "encodeJSON asciiLib (json_print ?j) = Inr bin" "length bin = 27"
    unfolding encodeJSON_def first option.case prod.case any by (simp add: appendJSONBin.simps jsonMaxDepth_def)
  then show ?thesis using jsonbin_roundtrip [OF bin(1) first] any by simp
qed

text \<open>
  C29. The encoder accepts a well-formed JSON text exactly when its nesting is at most 32 and each of its
  numbers is a 64-bit integer or a finite float; there is no other reason to refuse it.
\<close>

theorem jsonbin_accepts:
  assumes "json_first text = Some (j, rest)"
  shows "(\<exists>bin. encodeJSON L text = Inr bin) \<longleftrightarrow> anyDepth (jsonAny j) \<le> 32 \<and> numbersOk L (jsonAny j)"
  using append_accepts(1) [of L "[]" "jsonAny j" 0] assms by (simp add: encodeJSON_def jsonMaxDepth_def)

fun nested :: "nat \<Rightarrow> json" where
  "nested 0 = JNull"
| "nested (Suc n) = JArr [nested n]"

lemma nested_props: "d + n \<le> maxNestingDepth \<Longrightarrow> json_ok d (nested n)" "anyDepth (jsonAny (nested n)) = n"
  by (induction n arbitrary: d) auto

theorem jsonbin_accepts_witness: "\<nexists>bin. encodeJSON asciiLib (json_print (nested 33)) = Inr bin"
proof -
  have "json_first (json_print (nested 33)) = Some (nested 33, [])"
    by (intro json_first_print nested_props) (simp add: maxNestingDepth_def)
  then show ?thesis using jsonbin_accepts [of _ "nested 33" "[]" asciiLib] nested_props(2) [of 33] by simp
qed

fun canonical :: "json \<Rightarrow> bool" where
  \<comment> \<open>members in key order without duplicates, numbers that are printed 64-bit integers\<close>
  "canonical (JNum l) \<longleftrightarrow> (\<exists>i. l = formatInt i)"
| "canonical (JArr vs) \<longleftrightarrow> list_all canonical vs"
| "canonical (JObj ms) \<longleftrightarrow> sortedObj ms \<and> list_all (\<lambda>(k, v). canonical v) ms"
| "canonical v \<longleftrightarrow> True"

lemma canonical_back:
  "canonical j \<Longrightarrow> anyJson L (normAny L (jsonAny j)) = j \<and> allFinite (normAny L (jsonAny j))"
proof (induction j)
  case (JNum l)
  then show ?case by (auto simp: parseInt_formatInt)
next
  case (JArr vs)
  then show ?case by (auto simp: list_all_iff comp_def intro: map_idI)
next
  case (JObj ms)
  have "objOf (map (\<lambda>(k, v). (k, jsonAny v)) ms) = map (\<lambda>(k, v). (k, jsonAny v)) ms"
    using JObj.prems by (intro objOf_id) (simp add: comp_def case_prod_beta)
  moreover have "anyJson L (normAny L (jsonAny v)) = v \<and> allFinite (normAny L (jsonAny v))" if "(k, v) \<in> set ms" for k v
    using JObj.IH [OF that] JObj.prems that by (auto simp: list_all_iff)
  ultimately show ?case by (auto simp: list_all_iff comp_def case_prod_beta intro!: map_idI)
qed simp_all

text \<open>
  C27. Storing a JSON column and reading it back as text: a canonical text comes back byte for byte.
\<close>

theorem json_text_roundtrip:
  assumes "canonical j" "json_ok 0 j" "encodeJSON L (json_print j) = Inr bin" "length bin < 2 ^ 32"
  shows "jsonToText L bin = Inr (json_print j)"
proof -
  have "readJSONBin bin 0 = Inr (normAny L (jsonAny j), length bin)"
    using assms by (intro readsBack_all jsonAny_decode [OF assms(3) json_first_print])
  then show ?thesis using canonical_back [OF assms(1), of L] by (simp add: jsonToText_def decodeJSON_def marshalAny_def)
qed

abbreviation sampleJson :: json where
  "sampleJson \<equiv> JObj [(''a'', JArr [JBool True, JNull]), (''b'', JNum (formatInt (-5)))]"

lemma sampleJson_ok: "json_ok 0 sampleJson" "json_ok 0 (JObj [(''a'', sampleJson)])"
  using formatInt_num_lit [of "-5"] by (simp_all add: maxNestingDepth_def valid_utf8_ascii)

lemma sampleJson_any:
  "jsonAny sampleJson = GObj [(''a'', GArr [GBool True, GNil]), (''b'', GNumber (formatInt (-5)))]"
  by (simp add: objOf_def less_list_code)

theorem json_text_roundtrip_witness:
  "\<exists>bin. encodeJSON asciiLib (json_print sampleJson) = Inr bin \<and> jsonToText asciiLib bin = Inr (json_print sampleJson)"
proof -
  obtain bin where bin: "encodeJSON asciiLib (json_print sampleJson) = Inr bin" "length bin = 31"
    unfolding encodeJSON_def json_first_print [OF sampleJson_ok(1)] option.case prod.case sampleJson_any
    by (simp add: appendJSONBin.simps jsonMaxDepth_def parseInt_formatInt)
  moreover have "canonical sampleJson" by (auto simp: less_list_code)
  ultimately show ?thesis using json_text_roundtrip [OF _ sampleJson_ok(1), of asciiLib bin] by simp
qed

fun jsonAt :: "json \<Rightarrow> string list \<Rightarrow> json option" where
  \<comment> \<open>the value at a path in a JSON text: the last member with the key counts\<close>
  "jsonAt j [] = Some j"
| "jsonAt (JObj ms) (seg # segs) = (case map_of (rev ms) seg of None \<Rightarrow> None | Some j \<Rightarrow> jsonAt j segs)"
| "jsonAt j (seg # segs) = None"

lemma map_of_map_snd: "map_of (map (\<lambda>(k, v). (k, f v)) ms) x = map_option f (map_of ms x)"
  by (induction ms) auto

lemma walkPath_norm: "walkPath (normAny L v) segs = map_option (normAny L) (walkPath v segs)"
proof (induction v segs rule: walkPath.induct)
  case (2 cur seg segs)
  then show ?case by (cases cur) (auto simp: map_of_map_snd split: option.splits)
qed simp

lemma walkPath_jsonAny: "walkPath (jsonAny j) segs = map_option jsonAny (jsonAt j segs)"
proof (induction j segs rule: jsonAt.induct)
  case (2 ms seg segs)
  then show ?case
    by (auto simp: objOf_lookup rev_map map_of_map_snd split: option.splits)
qed simp_all

lemma jsonExtract_encoded:
  assumes "encodeJSON L text = Inr bin" "json_first text = Some (j, rest)" "length bin < 2 ^ 32"
    and "parseJSONPath L path = Inr segs"
  shows "jsonExtract L bin path =
    (case jsonAt j segs of
       None \<Rightarrow> Inr None
     | Some w \<Rightarrow> ebind (jsonLeafToValue L (normAny L (jsonAny w))) (\<lambda>x. Inr (Some x)))"
proof -
  have "readJSONBin bin 0 = Inr (normAny L (jsonAny j), length bin)"
    by (rule readsBack_all [OF jsonAny_decode [OF assms(1-3)]])
  then show ?thesis
    using assms(4) by (simp add: jsonExtract_def walkPath_norm walkPath_jsonAny split: option.splits)
qed

text \<open>
  C28. \<open>json_extract\<close> on an encoded text returns the value at the path in the text, as INTEGER or
  TEXT, and nothing when the path leads to no member.
\<close>

theorem json_extract_text:
  assumes "encodeJSON L text = Inr bin" "json_first text = Some (j, rest)" "length bin < 2 ^ 32"
    and "parseJSONPath L path = Inr segs"
  shows "jsonExtract L bin path =
    (case jsonAt j segs of
       None \<Rightarrow> Inr None
     | Some w \<Rightarrow> ebind (jsonLeafToValue L (normAny L (jsonAny w))) (\<lambda>x. Inr (Some x)))"
  by (rule jsonExtract_encoded [OF assms])

theorem json_extract_text_witness:
  "\<exists>bin. encodeJSON asciiLib (json_print (JObj [(''a'', sampleJson)])) = Inr bin
     \<and> jsonExtract asciiLib bin ''$.a.b'' = Inr (Some (intValue (-5)))"
proof -
  let ?j = "JObj [(''a'', sampleJson)]"
  have j: "jsonAny ?j = GObj [(''a'', GObj [(''a'', GArr [GBool True, GNil]), (''b'', GNumber (formatInt (-5)))])]"
    by (simp add: objOf_def less_list_code)
  have first: "json_first (json_print ?j) = Some (?j, [])" by (rule json_first_print [OF sampleJson_ok(2)])
  obtain bin where bin: "encodeJSON asciiLib (json_print ?j) = Inr bin" "length bin = 41"
    unfolding encodeJSON_def first option.case prod.case j
    by (simp add: appendJSONBin.simps jsonMaxDepth_def parseInt_formatInt)
  have "parseJSONPath asciiLib ''$.a.b'' = Inr [''a'', ''b'']" by code_simp
  then show ?thesis
    using json_extract_text [OF bin(1) first] bin by (simp add: jsonLeafToValue_def parseInt_formatInt)
qed

lemma f64Int_Trunc: "f64Int x = Some n \<Longrightarrow> f64Trunc x = Some n"
  by (auto simp: f64Int_def f64Trunc_def Let_def split: if_splits)

text \<open>
  C38. Which numbers \<open>json_extract\<close> returns as INTEGER: take a number in a JSON text that is not written as a 64-bit
  integer and that \<open>strconv.ParseFloat\<close> reads as the float x. If x is a whole number from \<open>-2^63\<close> up to but excluding \<open>2^63\<close>, the extracted
  INTEGER is exactly x. If x is \<open>2^63\<close>, it is what the platform makes of a conversion
  that overflows, because the range test compares with \<open>math.MaxInt64\<close> rounded up to \<open>2^63\<close>. Every other x is extracted as TEXT.
\<close>

theorem json_extract_float:
  assumes "encodeJSON L text = Inr bin" "json_first text = Some (j, rest)" "length bin < 2 ^ 32"
    and "parseJSONPath L path = Inr segs" "jsonAt j segs = Some (JNum s)" "parseInt s = None" "fParse L s = Some x"
  shows "case f64Int x of
      None \<Rightarrow> jsonExtract L bin path = Inr (Some (textValue (fFormat L x)))
    | Some n \<Rightarrow>
        if - (2 ^ 63) \<le> n \<and> n < 2 ^ 63 then \<exists>i. jsonExtract L bin path = Inr (Some (intValue i)) \<and> sint i = n
        else jsonExtract L bin path = Inr (Some (if n = 2 ^ 63 then intValue (fOverflow L x) else textValue (fFormat L x)))"
proof -
  have leaf: "jsonExtract L bin path =
      Inr (Some (if f64Integral x then intValue (f64ToInt64 L x) else textValue (fFormat L x)))"
    using jsonExtract_encoded [OF assms(1-4)] assms(5-7) by (simp add: jsonLeafToValue_def)
  show ?thesis
  proof (cases "f64Int x")
    case None
    then show ?thesis using leaf by (simp add: f64Integral_def)
  next
    case (Some n)
    have "sint (word_of_int n :: i64) = n" if "- (2 ^ 63) \<le> n" "n < 2 ^ 63"
      using that by (simp add: int_word_sint mod_pos_pos_trivial)
    then show ?thesis using leaf Some f64Int_Trunc [OF Some] by (auto simp: f64Integral_def f64ToInt64_def)
  qed
qed

definition floatLib :: golib where
  \<comment> \<open>two of the numbers that \<open>ParseFloat\<close> reads, and the overflow of a 64-bit Intel machine\<close>
  "floatLib = asciiLib\<lparr>fParse := (\<lambda>s. if s = ''1e3'' then Some 0x408F400000000000 else if s = ''9223372036854775808'' then Some 0x43E0000000000000 else None),
     fOverflow := (\<lambda>b. - (2 ^ 63))\<rparr>"

abbreviation floatJson :: json where
  "floatJson \<equiv> JObj [(''a'', JNum ''1e3''), (''b'', JNum ''9223372036854775808'')]"

theorem json_extract_float_witness:
  "\<exists>bin i. encodeJSON floatLib (json_print floatJson) = Inr bin \<and> jsonExtract floatLib bin ''$.a'' = Inr (Some (intValue i)) \<and> sint i = 1000
     \<and> jsonExtract floatLib bin ''$.b'' = Inr (Some (intValue (- (2 ^ 63))))"
proof -
  have first: "json_first (json_print floatJson) = Some (floatJson, [])" by code_simp
  have num: "parseInt ''1e3'' = None" "parseInt ''9223372036854775808'' = None"
    by (simp_all add: parseInt_def parseUint_def Let_def is_digit_def digit_val_def)
  have f: "f64Int 0x408F400000000000 = Some 1000" "f64Int 0x43E0000000000000 = Some (2 ^ 63)"
    by (simp_all add: f64Int_def f64Trunc_def f64Exp_def f64Mant_def f64Sign_def Let_def)
  have j: "jsonAny floatJson = GObj [(''a'', GNumber ''1e3''), (''b'', GNumber ''9223372036854775808'')]" by (simp add: objOf_def less_list_code)
  obtain bin where bin: "encodeJSON floatLib (json_print floatJson) = Inr bin" "length bin < 2 ^ 32"
    unfolding encodeJSON_def first option.case prod.case j
    by (simp add: appendJSONBin.simps jsonMaxDepth_def num floatLib_def)
  have path: "parseJSONPath floatLib ''$.a'' = Inr [''a'']" "parseJSONPath floatLib ''$.b'' = Inr [''b'']" by code_simp+
  have "\<exists>i. jsonExtract floatLib bin ''$.a'' = Inr (Some (intValue i)) \<and> sint i = 1000"
    using json_extract_float [OF bin(1) first bin(2) path(1), of "''1e3''" "0x408F400000000000"] by (simp add: num f floatLib_def)
  moreover have "jsonExtract floatLib bin ''$.b'' = Inr (Some (intValue (- (2 ^ 63))))"
    using json_extract_float [OF bin(1) first bin(2) path(2), of "''9223372036854775808''" "0x43E0000000000000"]
    by (simp add: num f) (simp add: floatLib_def)
  ultimately show ?thesis using bin(1) by blast
qed

end
