(* ===== verification/Catalog.thy ===== *)
theory Catalog
  imports Golib Db Row Btree Jsonbin
begin

text \<open>
  The catalog: table definitions (\<open>catalog.go\<close>) and index definitions (the first part of
  \<open>secondary.go\<close>), their JSON form, and the functions that save, load, drop and list them in a
  transaction. Both kinds of entries are JSON documents under a common key prefix; what listing them
  returns is proved once for both, in \<open>SqlDdl\<close>.
\<close>

record ColumnDef =
  colName :: string
  colTyp :: colType
  colPK :: bool

record TableDef =
  tblName :: string
  tblColumns :: "ColumnDef list"

record IndexDef =
  ixName :: string
  ixTable :: string
  ixColumn :: string
  ixPath :: string

definition zeroColumn :: ColumnDef where
  "zeroColumn = \<lparr>colName = [], colTyp = [], colPK = False\<rparr>"

definition zeroTable :: TableDef where
  "zeroTable = \<lparr>tblName = [], tblColumns = []\<rparr>"

definition zeroIndex :: IndexDef where
  "zeroIndex = \<lparr>ixName = [], ixTable = [], ixColumn = [], ixPath = []\<rparr>"

definition pkColumn :: "TableDef \<Rightarrow> (ColumnDef \<times> nat) res" where
  "pkColumn def =
     (case List.find (\<lambda>i. colPK (tblColumns def ! i)) [0..<length (tblColumns def)] of
        Some i \<Rightarrow> Inr (tblColumns def ! i, i)
      | None \<Rightarrow> Inl (ErrSQL ''table has no primary key''))"

definition columnIndex :: "golib \<Rightarrow> TableDef \<Rightarrow> string \<Rightarrow> nat res" where
  "columnIndex L def name =
     (case List.find (\<lambda>i. equalFold L (colName (tblColumns def ! i)) name) [0..<length (tblColumns def)] of
        Some i \<Rightarrow> Inr i
      | None \<Rightarrow> Inl (ErrSQL ''unknown column''))"


section \<open>JSON form\<close>

definition columnJson :: "ColumnDef \<Rightarrow> json" where
  \<comment> \<open>the struct tags \<open>name\<close>, \<open>type\<close>, \<open>pk,omitempty\<close>\<close>
  "columnJson c =
     JObj ([(''name'', JStr (colName c)), (''type'', JStr (colTyp c))] @ (if colPK c then [(''pk'', JBool True)] else []))"

definition tableJson :: "TableDef \<Rightarrow> json" where
  "tableJson def = JObj [(''name'', JStr (tblName def)), (''columns'', JArr (map columnJson (tblColumns def)))]"

definition indexJson :: "IndexDef \<Rightarrow> json" where
  "indexJson def =
     JObj ([(''name'', JStr (ixName def)), (''table'', JStr (ixTable def)), (''column'', JStr (ixColumn def))]
       @ (if ixPath def = [] then [] else [(''path'', JStr (ixPath def))]))"

definition setString :: "(string \<Rightarrow> 'a \<Rightarrow> 'a) \<Rightarrow> json \<Rightarrow> 'a \<Rightarrow> 'a option" where
  \<comment> \<open>a JSON value decoded into a string field\<close>
  "setString upd v x = (case v of JStr s \<Rightarrow> Some (upd s x) | JNull \<Rightarrow> Some x | _ \<Rightarrow> None)"

definition columnField :: "string \<times> json \<Rightarrow> ColumnDef \<Rightarrow> ColumnDef option" where
  "columnField m c =
     (case m of (k, v) \<Rightarrow>
        if isField ''name'' k then setString (\<lambda>s. colName_update (\<lambda>_. s)) v c
        else if isField ''type'' k then setString (\<lambda>s. colTyp_update (\<lambda>_. s)) v c
        else if isField ''pk'' k then
          (case v of JBool b \<Rightarrow> Some (c\<lparr>colPK := b\<rparr>) | JNull \<Rightarrow> Some c | _ \<Rightarrow> None)
        else Some c)"

definition unmarshalColumn :: "ColumnDef \<Rightarrow> json \<Rightarrow> ColumnDef option" where
  "unmarshalColumn c v = (case v of JObj ms \<Rightarrow> foldMembers columnField ms c | JNull \<Rightarrow> Some c | _ \<Rightarrow> None)"

fun unmarshalColumns :: "ColumnDef list \<Rightarrow> json list \<Rightarrow> ColumnDef list option" where
  "unmarshalColumns old [] = Some []"
| "unmarshalColumns old (v # vs) =
     (case unmarshalColumn (if old = [] then zeroColumn else hd old) v of
        None \<Rightarrow> None
      | Some c \<Rightarrow> map_option ((#) c) (unmarshalColumns (tl old) vs))"

definition tableField :: "string \<times> json \<Rightarrow> TableDef \<Rightarrow> TableDef option" where
  "tableField m def =
     (case m of (k, v) \<Rightarrow>
        if isField ''name'' k then setString (\<lambda>s. tblName_update (\<lambda>_. s)) v def
        else if isField ''columns'' k then
          (case v of
             JArr vs \<Rightarrow> map_option (\<lambda>cs. def\<lparr>tblColumns := cs\<rparr>) (unmarshalColumns (tblColumns def) vs)
           | JNull \<Rightarrow> Some (def\<lparr>tblColumns := []\<rparr>)
           | _ \<Rightarrow> None)
        else Some def)"

definition indexField :: "string \<times> json \<Rightarrow> IndexDef \<Rightarrow> IndexDef option" where
  "indexField m def =
     (case m of (k, v) \<Rightarrow>
        if isField ''name'' k then setString (\<lambda>s. ixName_update (\<lambda>_. s)) v def
        else if isField ''table'' k then setString (\<lambda>s. ixTable_update (\<lambda>_. s)) v def
        else if isField ''column'' k then setString (\<lambda>s. ixColumn_update (\<lambda>_. s)) v def
        else if isField ''path'' k then setString (\<lambda>s. ixPath_update (\<lambda>_. s)) v def
        else Some def)"

definition unmarshalDoc :: "(string \<times> json \<Rightarrow> 'a \<Rightarrow> 'a option) \<Rightarrow> 'a \<Rightarrow> bytes \<Rightarrow> 'a res" where
  \<comment> \<open>\<open>json.Unmarshal\<close> into a struct that starts out zero\<close>
  "unmarshalDoc field zero raw =
     (case json_parse raw of
        Some (JObj ms) \<Rightarrow> (case foldMembers field ms zero of Some x \<Rightarrow> Inr x | None \<Rightarrow> Inl ErrJSON)
      | Some JNull \<Rightarrow> Inr zero
      | _ \<Rightarrow> Inl ErrJSON)"

abbreviation unmarshalTable :: "bytes \<Rightarrow> TableDef res" where
  "unmarshalTable \<equiv> unmarshalDoc tableField zeroTable"

abbreviation unmarshalIndex :: "bytes \<Rightarrow> IndexDef res" where
  "unmarshalIndex \<equiv> unmarshalDoc indexField zeroIndex"

definition marshalTable :: "TableDef \<Rightarrow> bytes" where
  "marshalTable def = json_print (tableJson def)"

definition marshalIndex :: "IndexDef \<Rightarrow> bytes" where
  "marshalIndex def = json_print (indexJson def)"


section \<open>Entries in the store\<close>

definition catalogIndexKey :: "string \<Rightarrow> string" where
  "catalogIndexKey name = reservedPrefix @ ''meta/indexes/'' @ name"

definition catalogIndexPrefix :: string where
  "catalogIndexPrefix = reservedPrefix @ ''meta/indexes/''"

definition saveTableDef :: "TableDef \<Rightarrow> tx \<Rightarrow> err option \<times> tx" where
  "saveTableDef def t = txPut (catalogTableKey (tblName def)) (marshalTable def) t"

definition loadTableDef :: "string \<Rightarrow> tx \<Rightarrow> ('z) db_scheme \<Rightarrow> TableDef res \<times> ('z) db_scheme" where
  "loadTableDef name t d =
     (case txGet (catalogTableKey name) t d of
        (None, d1) \<Rightarrow> (Inl (ErrSQL ''no such table''), d1)
      | (Some raw, d1) \<Rightarrow> (unmarshalTable raw, d1))"

definition dropTableDef :: "string \<Rightarrow> tx \<Rightarrow> err option \<times> tx" where
  "dropTableDef name t = txDel (catalogTableKey name) t"

fun eseq :: "'a res list \<Rightarrow> 'a list res" where
  \<comment> \<open>collect the results, or stop at the first error\<close>
  "eseq [] = Inr []"
| "eseq (x # xs) = ebind x (\<lambda>y. ebind (eseq xs) (\<lambda>ys. Inr (y # ys)))"

definition listTableDefs :: "tx \<Rightarrow> ('z) db_scheme \<Rightarrow> TableDef list res \<times> ('z) db_scheme" where
  "listTableDefs t d =
     (case scanPrefix catalogTablePrefix t d of (pairs, d1) \<Rightarrow> (eseq (map (\<lambda>(k, v). unmarshalTable v) pairs), d1))"

definition saveIndexDef :: "IndexDef \<Rightarrow> tx \<Rightarrow> err option \<times> tx" where
  "saveIndexDef def t = txPut (catalogIndexKey (ixName def)) (marshalIndex def) t"

definition dropIndexDef :: "string \<Rightarrow> tx \<Rightarrow> err option \<times> tx" where
  "dropIndexDef name t = txDel (catalogIndexKey name) t"

definition listIndexDefs :: "tx \<Rightarrow> ('z) db_scheme \<Rightarrow> IndexDef list res \<times> ('z) db_scheme" where
  "listIndexDefs t d =
     (case scanPrefix catalogIndexPrefix t d of (pairs, d1) \<Rightarrow> (eseq (map (\<lambda>(k, v). unmarshalIndex v) pairs), d1))"


section \<open>Unmarshalling inverts marshalling\<close>

definition tableTextOk :: "TableDef \<Rightarrow> bool" where
  "tableTextOk def \<longleftrightarrow>
     valid_utf8 (tblName def) \<and> list_all (\<lambda>c. valid_utf8 (colName c) \<and> valid_utf8 (colTyp c)) (tblColumns def)"

definition indexTextOk :: "IndexDef \<Rightarrow> bool" where
  "indexTextOk def \<longleftrightarrow>
     valid_utf8 (ixName def) \<and> valid_utf8 (ixTable def) \<and> valid_utf8 (ixColumn def) \<and> valid_utf8 (ixPath def)"

lemma isField_catalog:
  "isField ''name'' ''name''" "\<not> isField ''name'' ''type''" "\<not> isField ''name'' ''pk''" "isField ''type'' ''type''"
  "\<not> isField ''type'' ''pk''" "isField ''pk'' ''pk''" "\<not> isField ''name'' ''columns''" "isField ''columns'' ''columns''"
  "\<not> isField ''name'' ''table''" "\<not> isField ''name'' ''column''" "\<not> isField ''name'' ''path''"
  "isField ''table'' ''table''" "\<not> isField ''table'' ''column''" "\<not> isField ''table'' ''path''"
  "isField ''column'' ''column''" "\<not> isField ''column'' ''path''" "isField ''path'' ''path''"
  by code_simp+

lemma valid_utf8_catalog [simp]:
  "valid_utf8 ''name''" "valid_utf8 ''type''" "valid_utf8 ''pk''" "valid_utf8 ''columns''" "valid_utf8 ''table''"
  "valid_utf8 ''column''" "valid_utf8 ''path''"
  by (simp_all add: valid_utf8_ascii)

lemma unmarshal_columnJson: "unmarshalColumn zeroColumn (columnJson c) = Some c"
  by (simp add: unmarshalColumn_def columnJson_def columnField_def setString_def isField_catalog zeroColumn_def)

lemma unmarshal_columns: "unmarshalColumns [] (map columnJson cs) = Some cs"
  by (induction cs) (simp_all add: unmarshal_columnJson)

lemma json_ok_table: "tableTextOk def \<Longrightarrow> json_ok 0 (tableJson def)"
  by (auto simp: tableTextOk_def tableJson_def columnJson_def maxNestingDepth_def list_all_iff)

lemma json_ok_index: "indexTextOk def \<Longrightarrow> json_ok 0 (indexJson def)"
  by (auto simp: indexTextOk_def indexJson_def maxNestingDepth_def)

lemma unmarshal_table: "tableTextOk def \<Longrightarrow> unmarshalTable (marshalTable def) = Inr def"
  using json_parse_print [OF json_ok_table, of def]
  by (simp add: unmarshalDoc_def marshalTable_def tableJson_def tableField_def setString_def isField_catalog
      unmarshal_columns zeroTable_def)

lemma unmarshal_index: "indexTextOk def \<Longrightarrow> unmarshalIndex (marshalIndex def) = Inr def"
  using json_parse_print [OF json_ok_index, of def]
  by (simp add: unmarshalDoc_def marshalIndex_def indexJson_def indexField_def setString_def isField_catalog
      zeroIndex_def)

end
