(* ===== verification/Secondary.thy ===== *)
theory Secondary
  imports Catalog BtreeMap
begin

text \<open>
  Secondary indexes, the second part of \<open>secondary.go\<close>: composite keys, insertion, removal, lookup
  and the value that a row contributes. A lookup is a scan of the B+tree over the stretch of keys with
  a common prefix; the lemmas derive what it returns from the contract of an ordered index.
\<close>

record secondaryIdx =
  siDef :: IndexDef
  siTree :: btree

definition newSecondaryIdx :: "IndexDef \<Rightarrow> secondaryIdx" where
  "newSecondaryIdx def = \<lparr>siDef = def, siTree = newBTree\<rparr>"

abbreviation nul :: char where
  "nul \<equiv> CHR 0x00"

definition valuePrefix :: "sqlval \<Rightarrow> string" where
  \<comment> \<open>the switch that \<open>compositeKey\<close> and \<open>compositePrefix\<close> share\<close>
  "valuePrefix val =
     (if vTyp val = TypeInteger then ''I:'' @ formatInt (vInt val)
      else if vTyp val = TypeText then ''T:'' @ vText val
      else ''N:'')"

definition compositeKey :: "sqlval \<Rightarrow> pkKey \<Rightarrow> pkKey" where
  "compositeKey val pk = pkFromString (valuePrefix val @ [nul] @ formatPK pk)"

definition parseCompositeKey :: "pkKey \<Rightarrow> pkKey res" where
  "parseCompositeKey key =
     (case dropWhile (\<lambda>c. c \<noteq> nul) (pkS key) of
        [] \<Rightarrow> Inl (ErrSQL ''bad composite key'')
      | _ # rest \<Rightarrow> Inr (pkFromString rest))"

definition compositePrefix :: "sqlval \<Rightarrow> pkKey" where
  "compositePrefix val = pkFromString (valuePrefix val @ [nul])"

definition secInsert :: "sqlval \<Rightarrow> pkKey \<Rightarrow> string \<Rightarrow> secondaryIdx \<Rightarrow> secondaryIdx option" where
  "secInsert val pk rk si =
     map_option (\<lambda>t. si\<lparr>siTree := t\<rparr>) (btPut (siTree si) (compositeKey val pk) rk)"

definition secRemove :: "sqlval \<Rightarrow> pkKey \<Rightarrow> secondaryIdx \<Rightarrow> secondaryIdx option" where
  "secRemove val pk si =
     map_option (\<lambda>t. si\<lparr>siTree := t\<rparr>) (btDelete (siTree si) (compositeKey val pk))"

definition secLookup :: "sqlval \<Rightarrow> secondaryIdx \<Rightarrow> string list res option" where
  "secLookup val si =
     (let p = compositePrefix val in
      Option.bind (btSeek (siTree si) p)
        (collectWhile (btNext (siTree si)) (\<lambda>k. hasPrefix (pkS k) (pkS p))))"

definition valueFromRow :: "golib \<Rightarrow> IndexDef \<Rightarrow> TableDef \<Rightarrow> sqlval list \<Rightarrow> sqlval option res" where
  \<comment> \<open>\<open>None\<close>: the row does not appear in the index\<close>
  "valueFromRow L ix def vals =
     ebind (columnIndex L def (ixColumn ix)) (\<lambda>ci.
       if ci \<ge> length vals then Inr None
       else
         let col = vals ! ci in
         if vNull col then Inr None
         else if ixPath ix \<noteq> [] then
           (if vTyp col \<noteq> TypeJSON then Inr None else indexableExtract L (vBlob col) (ixPath ix))
         else if vTyp col = TypeInteger \<or> vTyp col = TypeText then Inr (Some col)
         else Inr None)"


section \<open>Keys with a common prefix are a stretch of the key order\<close>

lemma prefix_le: "prefix p a \<Longrightarrow> p \<le> (a :: string)"
proof (induction p arbitrary: a)
  case (Cons c p)
  then show ?case by (cases a) auto
qed simp

lemma prefix_stretch: "p \<le> a \<Longrightarrow> a \<le> b \<Longrightarrow> prefix p b \<Longrightarrow> prefix p (a :: string)"
proof (induction p arbitrary: a b)
  case (Cons c p)
  then show ?case by (cases a; cases b) (auto split: if_splits)
qed simp

fun ordPrefix :: "string \<Rightarrow> pkOrd \<Rightarrow> bool" where
  "ordPrefix p (StrOrd s) = prefix p s"
| "ordPrefix p (IntOrd i) = False"

definition strKeys :: "btree \<Rightarrow> bool" where
  \<comment> \<open>a secondary index holds string keys only\<close>
  "strKeys t \<longleftrightarrow> (\<forall>e\<in>set (btEntries t). \<exists>s. fst e = StrOrd s)"

lemma secLookup_entries:
  assumes "btInv (siTree si)" "strKeys (siTree si)"
  shows "secLookup val si =
    Some (Inr (map snd (filter (\<lambda>e. ordPrefix (valuePrefix val @ [nul]) (fst e)) (btEntries (siTree si)))))"
proof -
  let ?p = "valuePrefix val @ [nul]"
  have k: "pkv (compositePrefix val) = StrOrd ?p" by (simp add: compositePrefix_def pkFromString_def pkv_def)
  have "Option.bind (btSeek (siTree si) (compositePrefix val))
      (collectWhile (btNext (siTree si)) (\<lambda>k. prefix (pkS (compositePrefix val)) (pkS k))) =
    Some (Inr (map snd (filter (\<lambda>e. ordPrefix ?p (fst e)) (btEntries (siTree si)))))"
  proof (rule bt.stretch_scan [OF assms(1)])
    fix key
    assume "pkv key \<in> fst ` set (btEntries (siTree si))"
    then obtain s where "pkv key = StrOrd s" using assms(2) by (fastforce simp: strKeys_def)
    then show "prefix (pkS (compositePrefix val)) (pkS key) \<longleftrightarrow> ordPrefix ?p (pkv key)"
      by (auto simp: pkv_def compositePrefix_def pkFromString_def split: if_splits)
  next
    fix a
    assume "ordPrefix ?p a"
    then show "pkv (compositePrefix val) \<le> a" unfolding k by (cases a) (auto intro: prefix_le)
  next
    fix a b
    assume "pkv (compositePrefix val) \<le> a" "a < b" "ordPrefix ?p b"
    then show "ordPrefix ?p a"
      unfolding k by (cases a; cases b) (auto intro: prefix_stretch less_imp_le)
  qed
  then show ?thesis by (simp add: secLookup_def Let_def)
qed

end
