(* ===== verification/SqlLex.thy ===== *)
theory SqlLex
  imports Golib
begin

text \<open>
  The lexer of \<open>sql_lex.go\<close>. Its state is the unread part of the source, \<open>src[i:]\<close>, with the offset
  \<open>i\<close>. White space, letters and digits are Unicode classes; strings and identifiers are read rune by
  rune, numbers and blobs byte by byte. The lemmas show that the lexer never moves back, that it moves
  forward over separators and keywords, and which token it reads from the text of a token.
\<close>

lemma decodeRune_shrinks: "s \<noteq> [] \<Longrightarrow> length s - snd (decodeRune s) < length s"
  using decodeRune_width [of s] by (cases s) auto

datatype tokenKind =
    TokEOF
  | TokIdent
  | TokNumber
  | TokString
  | TokBlob
  | TokParam
  | TokComma
  | TokSemi
  | TokLParen
  | TokRParen
  | TokStar
  | TokEq
  | TokKeyword

record token =
  tkKind :: tokenKind
  tkLit :: string
  tkPos :: nat
  tkKw :: string

record lexer =
  lxRest :: string  \<comment> \<open>\<open>src[i:]\<close>\<close>
  lxI :: nat
  lxPos :: nat

definition newLexer :: "string \<Rightarrow> lexer" where
  "newLexer src = \<lparr>lxRest = src, lxI = 0, lxPos = 0\<rparr>"

definition lxSkip :: "nat \<Rightarrow> lexer \<Rightarrow> lexer" where
  \<comment> \<open>\<open>l.i += n\<close>\<close>
  "lxSkip n l = l\<lparr>lxRest := drop n (lxRest l), lxI := lxI l + n\<rparr>"

lemma lxSkip_rest [simp]: "lxRest (lxSkip n l) = drop n (lxRest l)"
  by (simp add: lxSkip_def)

abbreviation plainToken :: "tokenKind \<Rightarrow> string \<Rightarrow> nat \<Rightarrow> token" where
  "plainToken k s pos \<equiv> \<lparr>tkKind = k, tkLit = s, tkPos = pos, tkKw = []\<rparr>"

definition isKeyword :: "string \<Rightarrow> bool" where
  "isKeyword s \<longleftrightarrow>
     s \<in> set [''CREATE'', ''TABLE'', ''DROP'', ''INSERT'', ''INTO'', ''VALUES'', ''SELECT'', ''FROM'',
       ''UPDATE'', ''SET'', ''DELETE'', ''WHERE'', ''AND'', ''PRIMARY'', ''KEY'',
       ''INTEGER'', ''TEXT'', ''BLOB'', ''JSON'', ''NULL'', ''INDEX'', ''ON'', ''PATH'', ''JSON_EXTRACT'']"

function skipSpace :: "lexer \<Rightarrow> lexer" where
  "skipSpace l =
     (if lxRest l = [] then l
      else if \<not> isSpace (fst (decodeRune (lxRest l))) then l
      else skipSpace (lxSkip (snd (decodeRune (lxRest l))) l))"
  by pat_completeness auto
termination
  by (relation "measure (length \<circ> lxRest)") (auto simp: decodeRune_shrinks)

declare skipSpace.simps [simp del]

abbreviation quote :: char where
  "quote \<equiv> CHR 0x27"

function lexStringBody :: "nat \<Rightarrow> string \<Rightarrow> lexer \<Rightarrow> (token \<times> lexer) res" where
  \<comment> \<open>the loop of \<open>lexString\<close>, after the opening quote\<close>
  "lexStringBody start b l =
     (if lxRest l = [] then Inl (ErrSQL ''unterminated string'')
      else
        let ch = fst (decodeRune (lxRest l)); w = snd (decodeRune (lxRest l)) in
        if ch = 39 then
          (if 1 < length (lxRest l) \<and> lxRest l ! 1 = quote then lexStringBody start (b @ [quote]) (lxSkip 2 l)
           else Inr (plainToken TokString b start, lxSkip w l))
        else lexStringBody start (b @ encodeRune ch) (lxSkip w l))"
  by pat_completeness auto
termination
  by (relation "measure (\<lambda>(start, b, l). length (lxRest l))") (auto simp: decodeRune_shrinks)

declare lexStringBody.simps [simp del]

definition lexString :: "nat \<Rightarrow> lexer \<Rightarrow> (token \<times> lexer) res" where
  "lexString start l = lexStringBody start [] (lxSkip 1 l)"

definition lexBlob :: "nat \<Rightarrow> lexer \<Rightarrow> (token \<times> lexer) res" where
  "lexBlob start l =
     (if lxRest l = [] \<or> hd (lxRest l) \<noteq> quote then Inl (ErrSQL ''bad blob literal'')
      else
        let l1 = lxSkip 1 l; hex = takeWhile (\<lambda>c. c \<noteq> quote) (lxRest l1) in
        if length hex < length (lxRest l1) then
          Inr (plainToken TokBlob hex start, lxSkip (length hex + 1) l1)
        else Inl (ErrSQL ''unterminated blob''))"

definition lexNumber :: "nat \<Rightarrow> lexer \<Rightarrow> (token \<times> lexer) res" where
  "lexNumber start l =
     (let n0 = (if hd (lxRest l) = CHR ''-'' then 1 else 0);
          n = n0 + length (takeWhile is_digit (drop n0 (lxRest l)))
      in Inr (plainToken TokNumber (take n (lxRest l)) start, lxSkip n l))"

definition identRune :: "golib \<Rightarrow> nat \<Rightarrow> bool" where
  "identRune L ch \<longleftrightarrow> ch = 95 \<or> isLetter L ch \<or> isDigitRune L ch"

function identLen :: "golib \<Rightarrow> string \<Rightarrow> nat" where
  \<comment> \<open>the number of bytes that the loop of \<open>lexIdent\<close> goes over\<close>
  "identLen L s =
     (if s \<noteq> [] \<and> identRune L (fst (decodeRune s)) then snd (decodeRune s) + identLen L (drop (snd (decodeRune s)) s)
      else 0)"
  by pat_completeness auto
termination
  by (relation "measure (\<lambda>(L, s). length s)") (auto simp: decodeRune_shrinks)

declare identLen.simps [simp del]

definition lexIdent :: "golib \<Rightarrow> nat \<Rightarrow> lexer \<Rightarrow> (token \<times> lexer) res" where
  "lexIdent L start l =
     (let n = identLen L (lxRest l); lit = take n (lxRest l); upper = toUpper L lit in
      if isKeyword upper then
        Inr (\<lparr>tkKind = TokKeyword, tkLit = lit, tkPos = start, tkKw = upper\<rparr>, lxSkip n l)
      else Inr (plainToken TokIdent lit start, lxSkip n l))"

definition punctuation :: "(nat \<times> tokenKind) list" where
  "punctuation =
     [(44, TokComma), (59, TokSemi), (40, TokLParen), (41, TokRParen), (42, TokStar), (61, TokEq), (63, TokParam)]"

definition nextToken :: "golib \<Rightarrow> lexer \<Rightarrow> (token \<times> lexer) res" where
  "nextToken L l0 =
     (let l = skipSpace l0 in
      if lxRest l = [] then Inr (plainToken TokEOF [] (lxPos l), l)
      else
        let start = lxI l;
            l = l\<lparr>lxPos := start\<rparr>;
            ch = fst (decodeRune (lxRest l));
            w = snd (decodeRune (lxRest l))
        in
        case map_of punctuation ch of
          Some k \<Rightarrow> Inr (plainToken k (take w (lxRest l)) start, lxSkip w l)
        | None \<Rightarrow>
            if ch = 39 then lexString start l
            else if (ch = 88 \<or> ch = 120) \<and> 1 < length (lxRest l) \<and> lxRest l ! 1 = quote then
              lexBlob start (lxSkip 1 l)
            else if ch = 45 \<or> isDigitRune L ch then lexNumber start l
            else if ch = 95 \<or> isLetter L ch then lexIdent L start l
            else Inl (ErrSQL ''unexpected character''))"


section \<open>The lexer moves forward\<close>

lemma skipSpace_length: "length (lxRest (skipSpace l)) \<le> length (lxRest l)"
proof (induction l rule: skipSpace.induct)
  case (1 l)
  then show ?case by (subst skipSpace.simps) (auto intro: order_trans)
qed

lemma lexStringBody_length:
  "lexStringBody start b l = Inr (t, l') \<Longrightarrow> length (lxRest l') \<le> length (lxRest l) \<and> tkKind t = TokString"
proof (induction start b l rule: lexStringBody.induct)
  case (1 start b l)
  show ?case
    using 1(3) by (subst (asm) lexStringBody.simps)
      (fastforce simp: Let_def dest: 1(1,2) split: if_splits)
qed

lemma identLen_pos: "s \<noteq> [] \<Longrightarrow> identRune L (fst (decodeRune s)) \<Longrightarrow> 0 < identLen L s"
  by (subst identLen.simps) (auto dest: decodeRune_width)

lemma lexIdent_facts:
  assumes "lexIdent L start l = Inr (t, l')" "lxRest l \<noteq> []" "identRune L (fst (decodeRune (lxRest l)))"
  shows "length (lxRest l') < length (lxRest l)" "tkKind t \<in> {TokKeyword, TokIdent}"
  using assms identLen_pos [OF assms(2,3)] by (auto simp: lexIdent_def Let_def split: if_splits)

lemma punctuation_kinds: "map_of punctuation ch = Some k \<Longrightarrow> k \<in> {TokComma, TokSemi, TokLParen, TokRParen, TokStar, TokEq, TokParam}"
  by (auto simp: punctuation_def split: if_splits)

text \<open>
  Reading a token never lengthens the rest; it shortens it for every token but the end of the input and a
  number (a digit outside ASCII starts a number whose literal is empty).
\<close>

lemma nextToken_length:
  assumes "nextToken L l = Inr (t, l')"
  shows "length (lxRest l') \<le> length (lxRest l)"
    and "tkKind t \<notin> {TokEOF, TokNumber} \<Longrightarrow> length (lxRest l') < length (lxRest l)"
proof -
  let ?s = "skipSpace l"
  note le = skipSpace_length [of l]
  have w: "lxRest ?s \<noteq> [] \<Longrightarrow> 0 < snd (decodeRune (lxRest ?s))" using decodeRune_width [of "lxRest ?s"] by auto
  have "length (lxRest l') \<le> length (lxRest ?s)
      \<and> (tkKind t \<notin> {TokEOF, TokNumber} \<longrightarrow> length (lxRest l') < length (lxRest ?s))"
  proof (cases "lxRest ?s = []")
    case True
    then show ?thesis using assms by (auto simp: nextToken_def Let_def)
  next
    case False
    let ?l = "?s\<lparr>lxPos := lxI ?s\<rparr>" and ?ch = "fst (decodeRune (lxRest ?s))"
    from assms False consider
      (punct) "l' = lxSkip (snd (decodeRune (lxRest ?s))) ?l"
    | (string) "lexString (lxI ?s) ?l = Inr (t, l')"
    | (blob) "lexBlob (lxI ?s) (lxSkip 1 ?l) = Inr (t, l')"
    | (number) "lexNumber (lxI ?s) ?l = Inr (t, l')"
    | (ident) "lexIdent L (lxI ?s) ?l = Inr (t, l')" "identRune L ?ch"
      by (auto simp: nextToken_def Let_def identRune_def split: option.splits if_splits)
    then show ?thesis
    proof cases
      case punct
      then show ?thesis using w False by simp
    next
      case string
      then show ?thesis
        using lexStringBody_length [of "lxI ?s" "[]" "lxSkip 1 ?l" t l'] False by (cases "lxRest ?s") (auto simp: lexString_def)
    next
      case blob
      then show ?thesis using False by (cases "lxRest ?s") (auto simp: lexBlob_def Let_def split: if_splits)
    next
      case number
      then show ?thesis by (auto simp: lexNumber_def Let_def)
    next
      case ident
      then show ?thesis using lexIdent_facts [OF ident(1)] False by (auto intro: less_imp_le)
    qed
  qed
  then show "length (lxRest l') \<le> length (lxRest l)"
    and "tkKind t \<notin> {TokEOF, TokNumber} \<Longrightarrow> length (lxRest l') < length (lxRest l)"
    using le by auto
qed

end
