(* ===== verification/SqlParse.thy ===== *)
theory SqlParse
  imports SqlLex Catalog
begin

text \<open>
  The syntax trees of \<open>sql_ast.go\<close> and the recursive-descent parser of \<open>sql_parse.go\<close>. A struct with a
  \<open>kind\<close> field, of which only the fields of that kind are ever set, is a datatype. The parser state is
  passed explicitly. The loops over comma-separated (or \<open>AND\<close>-separated) items are one function,
  \<open>sepList\<close>; it asks that an item followed by a separator has shortened the input, which every item of
  the grammar does, so the test never fails and the loop ends.
\<close>

section \<open>Syntax trees\<close>

datatype expr =
    ExprNull
  | ExprInt i64
  | ExprText string
  | ExprBlob bytes
  | ExprParam nat

datatype selectItem =
    SelectStar
  | SelectColumn string
  | SelectExtract string string  \<comment> \<open>column, path\<close>

datatype pred =
    PredColumn string expr
  | PredExtract string string expr  \<comment> \<open>column, path, value\<close>

record assign =
  asColumn :: string
  asValue :: expr

datatype stmt =
    CreateTableStmt string "ColumnDef list"
  | DropTableStmt string
  | InsertStmt string "string list" "expr list"
  | SelectStmt string "selectItem list" "pred list"
  | UpdateStmt string "assign list" "pred list"
  | DeleteStmt string "pred list"
  | CreateIndexStmt string string string string  \<comment> \<open>index, table, column, path\<close>
  | DropIndexStmt string


section \<open>The parser state\<close>

record parser =
  pLexer :: lexer
  pTok :: token
  pPeek :: token
  pHasP :: bool
  pNArg :: nat

definition advance :: "golib \<Rightarrow> parser \<Rightarrow> parser res" where
  "advance L p =
     (if pHasP p then Inr (p\<lparr>pTok := pPeek p, pHasP := False\<rparr>)
      else ebind (nextToken L (pLexer p)) (\<lambda>(t, l). Inr (p\<lparr>pLexer := l, pTok := t\<rparr>)))"

definition atKeyword :: "string \<Rightarrow> parser \<Rightarrow> bool" where
  "atKeyword kw p \<longleftrightarrow> tkKind (pTok p) = TokKeyword \<and> tkKw (pTok p) = kw"

definition expectKeyword :: "golib \<Rightarrow> string \<Rightarrow> parser \<Rightarrow> parser res" where
  "expectKeyword L kw p = (if \<not> atKeyword kw p then Inl (ErrSQL (''expected '' @ kw)) else advance L p)"

definition expect :: "golib \<Rightarrow> tokenKind \<Rightarrow> string \<Rightarrow> parser \<Rightarrow> parser res" where
  "expect L kind label p =
     (if tkKind (pTok p) \<noteq> kind then Inl (ErrSQL (''expected '' @ label)) else advance L p)"

abbreviation restLen :: "parser \<Rightarrow> nat" where
  "restLen p \<equiv> length (lxRest (pLexer p))"

lemma advance_length: "advance L p = Inr p' \<Longrightarrow> restLen p' \<le> restLen p"
  by (auto simp: advance_def res_simps dest: nextToken_length split: if_splits)

function sepList :: "golib \<Rightarrow> (parser \<Rightarrow> ('a \<times> parser) res) \<Rightarrow> (parser \<Rightarrow> bool) \<Rightarrow> parser \<Rightarrow> ('a list \<times> parser) res" where
  "sepList L item sep p =
     ebind (item p) (\<lambda>(x, p1).
       if \<not> sep p1 then Inr ([x], p1)
       else if restLen p1 < restLen p then
         ebind (advance L p1) (\<lambda>p2. ebind (sepList L item sep p2) (\<lambda>(xs, p3). Inr (x # xs, p3)))
       else Inl Panic)"
  by pat_completeness auto
termination
  by (relation "measure (\<lambda>(L, item, sep, p). restLen p)") (auto dest!: advance_length)

declare sepList.simps [simp del]

definition atComma :: "parser \<Rightarrow> bool" where
  "atComma p \<longleftrightarrow> tkKind (pTok p) = TokComma"


section \<open>Identifiers and expressions\<close>

definition parseIdent :: "golib \<Rightarrow> parser \<Rightarrow> (string \<times> parser) res" where
  "parseIdent L p =
     (if tkKind (pTok p) = TokIdent \<or> tkKind (pTok p) = TokKeyword then
        ebind (advance L p) (\<lambda>p1. Inr (tkLit (pTok p), p1))
      else Inl (ErrSQL ''expected identifier''))"

fun hexDecode :: "string \<Rightarrow> bytes option" where
  \<comment> \<open>\<open>hex.DecodeString\<close>\<close>
  "hexDecode [] = Some []"
| "hexDecode [a] = None"
| "hexDecode (a # b # cs) =
     (case (unhex a, unhex b, hexDecode cs) of
        (Some x, Some y, Some bs) \<Rightarrow> Some (char_of (x * 16 + y) # bs)
      | _ \<Rightarrow> None)"

definition parseExpr :: "golib \<Rightarrow> parser \<Rightarrow> (expr \<times> parser) res" where
  "parseExpr L p =
     (case tkKind (pTok p) of
        TokParam \<Rightarrow>
          (let idx = pNArg p in
           ebind (advance L (p\<lparr>pNArg := idx + 1\<rparr>)) (\<lambda>p1. Inr (ExprParam idx, p1)))
      | TokNumber \<Rightarrow>
          (case parseInt (tkLit (pTok p)) of
             None \<Rightarrow> Inl (ErrSQL ''bad integer'')
           | Some v \<Rightarrow> ebind (advance L p) (\<lambda>p1. Inr (ExprInt v, p1)))
      | TokString \<Rightarrow> ebind (advance L p) (\<lambda>p1. Inr (ExprText (tkLit (pTok p)), p1))
      | TokBlob \<Rightarrow>
          (case hexDecode (tkLit (pTok p)) of
             None \<Rightarrow> Inl (ErrSQL ''bad blob hex'')
           | Some b \<Rightarrow> ebind (advance L p) (\<lambda>p1. Inr (ExprBlob b, p1)))
      | TokKeyword \<Rightarrow>
          (if tkKw (pTok p) = ''NULL'' then ebind (advance L p) (\<lambda>p1. Inr (ExprNull, p1))
           else Inl (ErrSQL ''expected expression''))
      | _ \<Rightarrow> Inl (ErrSQL ''expected expression''))"

definition parsePathString :: "golib \<Rightarrow> parser \<Rightarrow> (string \<times> parser) res" where
  \<comment> \<open>the path literal of \<open>json_extract\<close> and of \<open>PATH\<close>: read, step over it, validate\<close>
  "parsePathString L p =
     (if tkKind (pTok p) \<noteq> TokString then Inl (ErrSQL ''expected path string'')
      else
        let path = tkLit (pTok p) in
        ebind (advance L p) (\<lambda>p1. ebind (parseJSONPath L path) (\<lambda>_. Inr (path, p1))))"

definition parseJSONExtractCall :: "golib \<Rightarrow> parser \<Rightarrow> (string \<times> string \<times> parser) res" where
  "parseJSONExtractCall L p0 =
     ebind (expectKeyword L ''JSON_EXTRACT'' p0) (\<lambda>p.
     ebind (expect L TokLParen ''('' p) (\<lambda>p.
     ebind (parseIdent L p) (\<lambda>(col, p).
     ebind (expect L TokComma '','' p) (\<lambda>p.
     ebind (parsePathString L p) (\<lambda>(path, p).
     ebind (expect L TokRParen '')'' p) (\<lambda>p. Inr (col, path, p)))))))"

definition parseSelectItem :: "golib \<Rightarrow> parser \<Rightarrow> (selectItem \<times> parser) res" where
  "parseSelectItem L p =
     (if atKeyword ''JSON_EXTRACT'' p then
        ebind (parseJSONExtractCall L p) (\<lambda>(col, path, p). Inr (SelectExtract col path, p))
      else ebind (parseIdent L p) (\<lambda>(c, p). Inr (SelectColumn c, p)))"

definition parsePred :: "golib \<Rightarrow> parser \<Rightarrow> (pred \<times> parser) res" where
  "parsePred L p =
     (if atKeyword ''JSON_EXTRACT'' p then
        ebind (parseJSONExtractCall L p) (\<lambda>(col, path, p).
        ebind (expect L TokEq ''='' p) (\<lambda>p.
        ebind (parseExpr L p) (\<lambda>(e, p). Inr (PredExtract col path e, p))))
      else
        ebind (parseIdent L p) (\<lambda>(col, p).
        ebind (expect L TokEq ''='' p) (\<lambda>p.
        ebind (parseExpr L p) (\<lambda>(e, p). Inr (PredColumn col e, p)))))"

definition parseWhereOptional :: "golib \<Rightarrow> parser \<Rightarrow> (pred list \<times> parser) res" where
  "parseWhereOptional L p =
     (if \<not> atKeyword ''WHERE'' p then Inr ([], p)
      else ebind (advance L p) (sepList L (parsePred L) (atKeyword ''AND'')))"


section \<open>Statements\<close>

definition parseColumnDef :: "golib \<Rightarrow> parser \<Rightarrow> (ColumnDef \<times> parser) res" where
  "parseColumnDef L p =
     ebind (parseIdent L p) (\<lambda>(name, p).
     if tkKind (pTok p) \<noteq> TokKeyword then Inl (ErrSQL ''expected type'')
     else
       let kw = tkKw (pTok p) in
       ebind (if kw = ''INTEGER'' then Inr TypeInteger
              else if kw = ''TEXT'' then Inr TypeText
              else if kw = ''BLOB'' then Inr TypeBlob
              else if kw = ''JSON'' then Inr TypeJSON
              else Inl (ErrSQL ''unknown type'')) (\<lambda>typ.
       ebind (advance L p) (\<lambda>p.
       ebind (if atKeyword ''PRIMARY'' p then
                ebind (advance L p) (\<lambda>p. ebind (expectKeyword L ''KEY'' p) (\<lambda>p. Inr (True, p)))
              else Inr (False, p)) (\<lambda>(pk, p).
       if pk \<and> typ \<noteq> TypeInteger \<and> typ \<noteq> TypeText then Inl (ErrSQL ''PRIMARY KEY must be INTEGER or TEXT'')
       else Inr (\<lparr>colName = name, colTyp = typ, colPK = pk\<rparr>, p)))))"

definition parseCreateIndex :: "golib \<Rightarrow> parser \<Rightarrow> (stmt \<times> parser) res" where
  "parseCreateIndex L p0 =
     ebind (expectKeyword L ''INDEX'' p0) (\<lambda>p.
     ebind (parseIdent L p) (\<lambda>(name, p).
     ebind (expectKeyword L ''ON'' p) (\<lambda>p.
     ebind (parseIdent L p) (\<lambda>(tbl, p).
     ebind (expect L TokLParen ''('' p) (\<lambda>p.
     ebind (parseIdent L p) (\<lambda>(col, p).
     if atComma p then Inl (ErrSQL ''multi-column indexes are not supported'')
     else
       ebind (expect L TokRParen '')'' p) (\<lambda>p.
       ebind (if atKeyword ''PATH'' p then ebind (advance L p) (parsePathString L) else Inr ([], p)) (\<lambda>(path, p).
         Inr (CreateIndexStmt name tbl col path, p)))))))))"

definition parseCreate :: "golib \<Rightarrow> parser \<Rightarrow> (stmt \<times> parser) res" where
  "parseCreate L p0 =
     ebind (expectKeyword L ''CREATE'' p0) (\<lambda>p.
     if atKeyword ''INDEX'' p then parseCreateIndex L p
     else
       ebind (expectKeyword L ''TABLE'' p) (\<lambda>p.
       ebind (parseIdent L p) (\<lambda>(name, p).
       ebind (expect L TokLParen ''('' p) (\<lambda>p.
       ebind (sepList L (parseColumnDef L) atComma p) (\<lambda>(cols, p).
       ebind (expect L TokRParen '')'' p) (\<lambda>p.
       if length (filter colPK cols) \<noteq> 1 then Inl (ErrSQL ''CREATE TABLE requires exactly one PRIMARY KEY'')
       else Inr (CreateTableStmt name cols, p)))))))"

definition parseDropIndex :: "golib \<Rightarrow> parser \<Rightarrow> (stmt \<times> parser) res" where
  "parseDropIndex L p0 =
     ebind (expectKeyword L ''INDEX'' p0) (\<lambda>p.
     ebind (parseIdent L p) (\<lambda>(name, p). Inr (DropIndexStmt name, p)))"

definition parseDrop :: "golib \<Rightarrow> parser \<Rightarrow> (stmt \<times> parser) res" where
  "parseDrop L p0 =
     ebind (expectKeyword L ''DROP'' p0) (\<lambda>p.
     if atKeyword ''INDEX'' p then parseDropIndex L p
     else
       ebind (expectKeyword L ''TABLE'' p) (\<lambda>p.
       ebind (parseIdent L p) (\<lambda>(name, p). Inr (DropTableStmt name, p))))"

definition parseInsertColumns :: "golib \<Rightarrow> parser \<Rightarrow> (string list \<times> parser) res" where
  "parseInsertColumns L p =
     (if tkKind (pTok p) = TokLParen then
        ebind (advance L p) (\<lambda>p.
        ebind (sepList L (parseIdent L) atComma p) (\<lambda>(cols, p).
        ebind (expect L TokRParen '')'' p) (\<lambda>p. Inr (cols, p))))
      else Inr ([], p))"

definition parseInsert :: "golib \<Rightarrow> parser \<Rightarrow> (stmt \<times> parser) res" where
  "parseInsert L p0 =
     ebind (expectKeyword L ''INSERT'' p0) (\<lambda>p.
     ebind (expectKeyword L ''INTO'' p) (\<lambda>p.
     ebind (parseIdent L p) (\<lambda>(tbl, p).
     ebind (parseInsertColumns L p) (\<lambda>(cols, p).
     ebind (expectKeyword L ''VALUES'' p) (\<lambda>p.
     ebind (expect L TokLParen ''('' p) (\<lambda>p.
     ebind (sepList L (parseExpr L) atComma p) (\<lambda>(vals, p).
     ebind (expect L TokRParen '')'' p) (\<lambda>p. Inr (InsertStmt tbl cols vals, p)))))))))"

definition parseSelect :: "golib \<Rightarrow> parser \<Rightarrow> (stmt \<times> parser) res" where
  "parseSelect L p0 =
     ebind (expectKeyword L ''SELECT'' p0) (\<lambda>p.
     ebind (if tkKind (pTok p) = TokStar then ebind (advance L p) (\<lambda>p. Inr ([SelectStar], p))
            else sepList L (parseSelectItem L) atComma p) (\<lambda>(cols, p).
     ebind (expectKeyword L ''FROM'' p) (\<lambda>p.
     ebind (parseIdent L p) (\<lambda>(tbl, p).
     ebind (parseWhereOptional L p) (\<lambda>(whr, p). Inr (SelectStmt tbl cols whr, p))))))"

definition parseAssign :: "golib \<Rightarrow> parser \<Rightarrow> (assign \<times> parser) res" where
  "parseAssign L p =
     ebind (parseIdent L p) (\<lambda>(col, p).
     ebind (expect L TokEq ''='' p) (\<lambda>p.
     ebind (parseExpr L p) (\<lambda>(e, p). Inr (\<lparr>asColumn = col, asValue = e\<rparr>, p))))"

definition parseUpdate :: "golib \<Rightarrow> parser \<Rightarrow> (stmt \<times> parser) res" where
  "parseUpdate L p0 =
     ebind (expectKeyword L ''UPDATE'' p0) (\<lambda>p.
     ebind (parseIdent L p) (\<lambda>(tbl, p).
     ebind (expectKeyword L ''SET'' p) (\<lambda>p.
     ebind (sepList L (parseAssign L) atComma p) (\<lambda>(sets, p).
     ebind (parseWhereOptional L p) (\<lambda>(whr, p). Inr (UpdateStmt tbl sets whr, p))))))"

definition parseDelete :: "golib \<Rightarrow> parser \<Rightarrow> (stmt \<times> parser) res" where
  "parseDelete L p0 =
     ebind (expectKeyword L ''DELETE'' p0) (\<lambda>p.
     ebind (expectKeyword L ''FROM'' p) (\<lambda>p.
     ebind (parseIdent L p) (\<lambda>(tbl, p).
     ebind (parseWhereOptional L p) (\<lambda>(whr, p). Inr (DeleteStmt tbl whr, p)))))"

definition parseStmt :: "golib \<Rightarrow> parser \<Rightarrow> (stmt \<times> parser) res" where
  "parseStmt L p =
     (if tkKind (pTok p) \<noteq> TokKeyword then Inl (ErrSQL ''expected statement'')
      else
        let kw = tkKw (pTok p) in
        if kw = ''CREATE'' then parseCreate L p
        else if kw = ''DROP'' then parseDrop L p
        else if kw = ''INSERT'' then parseInsert L p
        else if kw = ''SELECT'' then parseSelect L p
        else if kw = ''UPDATE'' then parseUpdate L p
        else if kw = ''DELETE'' then parseDelete L p
        else Inl (ErrSQL ''unsupported statement''))"

definition zeroToken :: token where
  "zeroToken = plainToken TokEOF [] 0"

definition parseSQL :: "golib \<Rightarrow> string \<Rightarrow> stmt res" where
  "parseSQL L src =
     ebind (advance L \<lparr>pLexer = newLexer src, pTok = zeroToken, pPeek = zeroToken, pHasP = False, pNArg = 0\<rparr>) (\<lambda>p.
     ebind (parseStmt L p) (\<lambda>(st, p).
     ebind (if tkKind (pTok p) = TokSemi then advance L p else Inr p) (\<lambda>p.
       if tkKind (pTok p) \<noteq> TokEOF then Inl (ErrSQL ''unexpected token'') else Inr st)))"

definition normalizeName :: "golib \<Rightarrow> string \<Rightarrow> string" where
  "normalizeName L s = toLower L s"

end
