(* ===== verification/SqlExec.thy ===== *)
theory SqlExec
  imports Secondary SqlParse
begin

text \<open>
  The execution of SQL statements: \<open>sql_exec.go\<close>. The database record is extended by the caches
  \<open>tables\<close>, \<open>indexes\<close> and \<open>secIndexes\<close>. A statement is a function from the database to its result and
  the new database; it consists of the transactions and critical sections of the code, in their order,
  with no other client in between. An \<open>Update\<close> takes what the file system answers to its commit as an
  argument. The secondary indexes, a Go map, are visited in the order of their names.
\<close>

record sqldb = db +
  tables :: "(string, TableDef) fmap"
  indexes :: "(string, btree) fmap"
  secIndexes :: "(string, secondaryIdx) fmap"

type_synonym execResult = "nat \<times> err option"  \<comment> \<open>\<open>Result.RowsAffected\<close> and the error\<close>

fun stepAll :: "('i \<Rightarrow> 's \<Rightarrow> err option \<times> 's) \<Rightarrow> 'i list \<Rightarrow> 's \<Rightarrow> err option \<times> 's" where
  \<comment> \<open>a loop whose body returns at the first error\<close>
  "stepAll f [] s = (None, s)"
| "stepAll f (x # xs) s =
     (case f x s of (Some e, s1) \<Rightarrow> (Some e, s1) | (None, s1) \<Rightarrow> stepAll f xs s1)"

definition nthRes :: "'a list \<Rightarrow> nat \<Rightarrow> 'a res" where
  "nthRes xs i = (if i < length xs then Inr (xs ! i) else Inl Panic)"

definition orPanic :: "'a option \<Rightarrow> 'a res" where
  "orPanic x = (case x of None \<Rightarrow> Inl Panic | Some y \<Rightarrow> Inr y)"


section \<open>Result rows\<close>

record rows =
  rwColumns :: "string list"
  rwData :: "sqlval list list"
  rwI :: int
  rwClosed :: bool

definition rowsNext :: "rows \<Rightarrow> bool \<times> rows" where
  "rowsNext r =
     (if rwClosed r then (False, r)
      else if rwI r + 1 \<ge> int (length (rwData r)) then (False, r\<lparr>rwI := int (length (rwData r))\<rparr>)
      else (True, r\<lparr>rwI := rwI r + 1\<rparr>))"

datatype scanDest = DestValue | DestAny | DestInt64 | DestString | DestBytes | DestOther

datatype scanned = ScValue sqlval | ScNil | ScInt i64 | ScText string | ScBytes bytes

definition assignScan :: "golib \<Rightarrow> scanDest \<Rightarrow> sqlval \<Rightarrow> scanned res" where
  "assignScan L dest v =
     (case dest of
        DestValue \<Rightarrow> Inr (ScValue v)
      | DestAny \<Rightarrow>
          if vNull v then Inr ScNil
          else if vTyp v = TypeInteger then Inr (ScInt (vInt v))
          else if vTyp v = TypeText then Inr (ScText (vText v))
          else if vTyp v = TypeBlob then Inr (ScBytes (vBlob v))
          else if vTyp v = TypeJSON then ebind (jsonToText L (vBlob v)) (\<lambda>s. Inr (ScText s))
          else Inr ScNil
      | DestInt64 \<Rightarrow>
          if vNull v then Inr (ScInt 0)
          else if vTyp v = TypeInteger then Inr (ScInt (vInt v))
          else Inl (ErrSQL ''cannot scan into *int64'')
      | DestString \<Rightarrow>
          if vNull v then Inr (ScText [])
          else if vTyp v = TypeText then Inr (ScText (vText v))
          else if vTyp v = TypeInteger then Inr (ScText (formatInt (vInt v)))
          else if vTyp v = TypeJSON then ebind (jsonToText L (vBlob v)) (\<lambda>s. Inr (ScText s))
          else Inl (ErrSQL ''cannot scan into *string'')
      | DestBytes \<Rightarrow>
          if vNull v then Inr ScNil
          else if vTyp v = TypeBlob then Inr (ScBytes (vBlob v))
          else if vTyp v = TypeText then Inr (ScBytes (vText v))
          else if vTyp v = TypeJSON then ebind (jsonToText L (vBlob v)) (\<lambda>s. Inr (ScBytes s))
          else Inl (ErrSQL ''cannot scan into *[]byte'')
      | DestOther \<Rightarrow> Inl (ErrSQL ''unsupported Scan destination''))"

definition rowsScan :: "golib \<Rightarrow> scanDest list \<Rightarrow> rows \<Rightarrow> scanned list res" where
  "rowsScan L dest r =
     (if rwClosed r \<or> rwI r < 0 \<or> rwI r \<ge> int (length (rwData r)) then
        Inl (ErrSQL ''Scan called without Next'')
      else
        let row = rwData r ! nat (rwI r) in
        if length dest \<noteq> length row then Inl (ErrSQL ''Scan: wrong number of destinations'')
        else eseq (map (\<lambda>(d, v). assignScan L d v) (zip dest row)))"

definition rowsClose :: "rows \<Rightarrow> rows" where
  "rowsClose r = r\<lparr>rwClosed := True\<rparr>"


section \<open>Arguments\<close>

datatype arg =
    ArgNil
  | ArgInt i64    \<comment> \<open>\<open>int\<close> and \<open>int64\<close>\<close>
  | ArgFloat u64
  | ArgText string
  | ArgBytes bytes
  | ArgOther

definition anyToExpr :: "golib \<Rightarrow> arg \<Rightarrow> expr res" where
  "anyToExpr L a =
     (case a of
        ArgNil \<Rightarrow> Inr ExprNull
      | ArgInt v \<Rightarrow> Inr (ExprInt v)
      | ArgFloat f \<Rightarrow> Inr (ExprInt (f64ToInt64 L f))
      | ArgText s \<Rightarrow> Inr (ExprText s)
      | ArgBytes b \<Rightarrow> Inr (ExprBlob b)
      | ArgOther \<Rightarrow> Inl (ErrSQL ''unsupported arg type''))"

definition fillParam :: "golib \<Rightarrow> arg list \<Rightarrow> expr \<Rightarrow> expr res" where
  \<comment> \<open>an expression that is no parameter is left alone\<close>
  "fillParam L args e =
     (case e of
        ExprParam i \<Rightarrow>
          if i \<ge> length args then Inl (ErrSQL ''missing argument for ?'') else anyToExpr L (args ! i)
      | _ \<Rightarrow> Inr e)"

fun predValue :: "pred \<Rightarrow> expr" where
  "predValue (PredColumn c e) = e"
| "predValue (PredExtract c path e) = e"

fun setPredValue :: "pred \<Rightarrow> expr \<Rightarrow> pred" where
  "setPredValue (PredColumn c _) e = PredColumn c e"
| "setPredValue (PredExtract c path _) e = PredExtract c path e"

fun stmtExprs :: "stmt \<Rightarrow> expr list" where
  \<comment> \<open>the expressions that \<open>maxParam\<close> checks\<close>
  "stmtExprs (InsertStmt tbl cols vals) = vals"
| "stmtExprs (SelectStmt tbl cols whr) = map predValue whr"
| "stmtExprs (UpdateStmt tbl sets whr) = map asValue sets @ map predValue whr"
| "stmtExprs (DeleteStmt tbl whr) = map predValue whr"
| "stmtExprs _ = []"

definition maxParam :: "stmt \<Rightarrow> int" where
  "maxParam st = foldl (\<lambda>m e. case e of ExprParam i \<Rightarrow> if int i > m then int i else m | _ \<Rightarrow> m) (-1) (stmtExprs st)"

definition fillPreds :: "golib \<Rightarrow> arg list \<Rightarrow> pred list \<Rightarrow> pred list res" where
  "fillPreds L args whr =
     eseq (map (\<lambda>w. ebind (fillParam L args (predValue w)) (\<lambda>e. Inr (setPredValue w e))) whr)"

definition bindArgs :: "golib \<Rightarrow> stmt \<Rightarrow> arg list \<Rightarrow> stmt res" where
  "bindArgs L st args =
     (if maxParam st \<ge> int (length args) then Inl (ErrSQL ''not enough arguments'')
      else
        (case st of
           InsertStmt tbl cols vals \<Rightarrow>
             ebind (eseq (map (fillParam L args) vals)) (\<lambda>vals. Inr (InsertStmt tbl cols vals))
         | SelectStmt tbl cols whr \<Rightarrow>
             ebind (fillPreds L args whr) (\<lambda>whr. Inr (SelectStmt tbl cols whr))
         | UpdateStmt tbl sets whr \<Rightarrow>
             ebind (eseq (map (\<lambda>a. ebind (fillParam L args (asValue a)) (\<lambda>e. Inr (a\<lparr>asValue := e\<rparr>))) sets)) (\<lambda>sets.
             ebind (fillPreds L args whr) (\<lambda>whr. Inr (UpdateStmt tbl sets whr)))
         | DeleteStmt tbl whr \<Rightarrow>
             ebind (fillPreds L args whr) (\<lambda>whr. Inr (DeleteStmt tbl whr))
         | _ \<Rightarrow> Inr st))"


section \<open>Values and predicates\<close>

definition exprToValue :: "golib \<Rightarrow> expr \<Rightarrow> colType \<Rightarrow> sqlval res" where
  "exprToValue L e typ =
     (if e = ExprNull then Inr (zeroValue\<lparr>vTyp := typ, vNull := True\<rparr>)
      else if typ = TypeInteger then
        (case e of ExprInt i \<Rightarrow> Inr (intValue i) | _ \<Rightarrow> Inl (ErrSQL ''expected INTEGER''))
      else if typ = TypeText then
        (case e of ExprText s \<Rightarrow> Inr (textValue s) | _ \<Rightarrow> Inl (ErrSQL ''expected TEXT''))
      else if typ = TypeBlob then
        (case e of ExprBlob b \<Rightarrow> Inr (zeroValue\<lparr>vTyp := TypeBlob, vBlob := b\<rparr>) | _ \<Rightarrow> Inl (ErrSQL ''expected BLOB''))
      else if typ = TypeJSON then
        ebind (case e of ExprText s \<Rightarrow> Inr s | ExprBlob b \<Rightarrow> Inr b | _ \<Rightarrow> Inl (ErrSQL ''expected JSON text'')) (\<lambda>raw.
        ebind (encodeJSON L raw) (\<lambda>bin. Inr (zeroValue\<lparr>vTyp := TypeJSON, vBlob := bin\<rparr>)))
      else Inl (ErrSQL ''unknown column type''))"

definition predValueForExtract :: "expr \<Rightarrow> sqlval res" where
  "predValueForExtract e =
     (case e of
        ExprInt i \<Rightarrow> Inr (intValue i)
      | ExprText s \<Rightarrow> Inr (textValue s)
      | ExprNull \<Rightarrow> Inr nullValue
      | _ \<Rightarrow> Inl (ErrSQL ''json_extract comparison expects INTEGER or TEXT''))"

definition valuesEqual :: "sqlval \<Rightarrow> sqlval \<Rightarrow> bool" where
  "valuesEqual a b \<longleftrightarrow>
     (if vNull a \<or> vNull b then vNull a \<and> vNull b
      else if vTyp a \<noteq> vTyp b then False
      else if vTyp a = TypeInteger then vInt a = vInt b
      else if vTyp a = TypeText then vText a = vText b
      else if vTyp a = TypeBlob \<or> vTyp a = TypeJSON then vBlob a = vBlob b
      else False)"

fun matchWhere :: "golib \<Rightarrow> TableDef \<Rightarrow> sqlval list \<Rightarrow> pred list \<Rightarrow> bool res" where
  "matchWhere L def vals [] = Inr True"
| "matchWhere L def vals (PredExtract col path e # ws) =
     (case columnIndex L def (normalizeName L col) of
        Inl _ \<Rightarrow> Inr False
      | Inr ci \<Rightarrow>
          ebind (nthRes vals ci) (\<lambda>v.
          if vNull v \<or> vTyp v \<noteq> TypeJSON then Inr False
          else
            ebind (jsonExtract L (vBlob v) path) (\<lambda>g.
            case g of
              None \<Rightarrow> Inr False
            | Some got \<Rightarrow>
                ebind (predValueForExtract e) (\<lambda>want.
                  if \<not> valuesEqual got want then Inr False else matchWhere L def vals ws))))"
| "matchWhere L def vals (PredColumn col e # ws) =
     (case columnIndex L def (normalizeName L col) of
        Inl _ \<Rightarrow> Inr False
      | Inr ci \<Rightarrow>
          (case exprToValue L e (colTyp (tblColumns def ! ci)) of
             Inl _ \<Rightarrow> Inr False
           | Inr want \<Rightarrow>
               ebind (nthRes vals ci) (\<lambda>v.
                 if \<not> valuesEqual v want then Inr False else matchWhere L def vals ws)))"


section \<open>Collecting rows\<close>

record rowItem =
  riPk :: pkKey
  riKey :: string
  riValues :: "sqlval list"

definition pkOfValue :: "colType \<Rightarrow> sqlval \<Rightarrow> pkKey" where
  \<comment> \<open>the switch on the type of the key column; a key of another type stays zero\<close>
  "pkOfValue typ v =
     (if typ = TypeInteger then pkFromInt (vInt v)
      else if typ = TypeText then pkFromString (vText v)
      else pkFromString [])"

definition rowByKey :: "golib \<Rightarrow> TableDef \<Rightarrow> ColumnDef \<Rightarrow> expr \<Rightarrow> tx \<Rightarrow> sqldb \<Rightarrow> rowItem list res \<times> sqldb" where
  \<comment> \<open>the fast path for an equality on the primary key\<close>
  "rowByKey L def pkCol e t d =
     (case exprToValue L e (colTyp pkCol) of
        Inl er \<Rightarrow> (Inl er, d)
      | Inr v \<Rightarrow>
          let k = pkOfValue (colTyp pkCol) v in
          case fmlookup (indexes d) (tblName def) of
            None \<Rightarrow> (Inr [], d)
          | Some idx \<Rightarrow>
              (case btGet idx k of
                 None \<Rightarrow> (Inl Panic, d)
               | Some None \<Rightarrow> (Inr [], d)
               | Some (Some rk) \<Rightarrow>
                   (case txGet rk t d of
                      (None, d1) \<Rightarrow> (Inr [], d1)
                    | (Some raw, d1) \<Rightarrow>
                        (ebind (unpackRow raw) (\<lambda>vals. Inr [\<lparr>riPk = k, riKey = rk, riValues = vals\<rparr>]), d1))))"

definition usableIndex :: "golib \<Rightarrow> TableDef \<Rightarrow> pred \<Rightarrow> secondaryIdx \<Rightarrow> bool" where
  "usableIndex L def w s \<longleftrightarrow>
     ixTable (siDef s) = tblName def
     \<and> (case w of
          PredColumn col e \<Rightarrow> ixPath (siDef s) = [] \<and> ixColumn (siDef s) = normalizeName L col
        | PredExtract col path e \<Rightarrow> ixPath (siDef s) = path \<and> ixColumn (siDef s) = normalizeName L col)"

definition findIndex :: "golib \<Rightarrow> TableDef \<Rightarrow> pred \<Rightarrow> sqldb \<Rightarrow> secondaryIdx option" where
  "findIndex L def w d =
     List.find (usableIndex L def w) (map (\<lambda>k. the (fmlookup (secIndexes d) k)) (fmkeys (secIndexes d)))"

definition indexValue :: "golib \<Rightarrow> TableDef \<Rightarrow> pred \<Rightarrow> sqlval res" where
  \<comment> \<open>the value to look up in a secondary index\<close>
  "indexValue L def w =
     (case w of
        PredExtract col path e \<Rightarrow> predValueForExtract e
      | PredColumn col e \<Rightarrow>
          ebind (columnIndex L def (normalizeName L col)) (\<lambda>ci. exprToValue L e (colTyp (tblColumns def ! ci))))"

fun fetchRows :: "TableDef \<Rightarrow> tx \<Rightarrow> string list \<Rightarrow> sqldb \<Rightarrow> rowItem list res \<times> sqldb" where
  \<comment> \<open>the loop over the row keys that an index returned\<close>
  "fetchRows def t [] d = (Inr [], d)"
| "fetchRows def t (rk # rks) d =
     (case txGet rk t d of
        (None, d1) \<Rightarrow> fetchRows def t rks d1
      | (Some raw, d1) \<Rightarrow>
          (case unpackRow raw of
             Inl e \<Rightarrow> (Inl e, d1)
           | Inr vals \<Rightarrow>
               (case parseRowKey (tblName def) rk of
                  None \<Rightarrow> fetchRows def t rks d1
                | Some enc \<Rightarrow>
                    (case pkKeyFromEncoded enc of
                       Inl e \<Rightarrow> (Inl e, d1)
                     | Inr k \<Rightarrow>
                         (case fetchRows def t rks d1 of (r, d2) \<Rightarrow>
                            (ebind r (\<lambda>items. Inr (\<lparr>riPk = k, riKey = rk, riValues = vals\<rparr> # items)), d2))))))"

definition rowsByIndex :: "golib \<Rightarrow> TableDef \<Rightarrow> pred \<Rightarrow> secondaryIdx \<Rightarrow> tx \<Rightarrow> sqldb \<Rightarrow> rowItem list res \<times> sqldb" where
  "rowsByIndex L def w si t d =
     (case indexValue L def w of
        Inl e \<Rightarrow> (Inl e, d)
      | Inr val \<Rightarrow>
          (case secLookup val si of
             None \<Rightarrow> (Inl Panic, d)
           | Some (Inl e) \<Rightarrow> (Inl e, d)
           | Some (Inr rks) \<Rightarrow> fetchRows def t rks d))"

fun scanRows :: "golib \<Rightarrow> TableDef \<Rightarrow> pred list \<Rightarrow> (string \<times> bytes) list \<Rightarrow> rowItem list res" where
  \<comment> \<open>the loop of the table scan\<close>
  "scanRows L def whr [] = Inr []"
| "scanRows L def whr ((key, raw) # ps) =
     ebind (unpackRow raw) (\<lambda>vals.
     ebind (matchWhere L def vals whr) (\<lambda>ok.
     if \<not> ok then scanRows L def whr ps
     else
       (case parseRowKey (tblName def) key of
          None \<Rightarrow> scanRows L def whr ps
        | Some enc \<Rightarrow>
            ebind (pkKeyFromEncoded enc) (\<lambda>k.
            ebind (scanRows L def whr ps) (\<lambda>items.
              Inr (\<lparr>riPk = k, riKey = key, riValues = vals\<rparr> # items))))))"

definition tableScan :: "golib \<Rightarrow> TableDef \<Rightarrow> pred list \<Rightarrow> tx \<Rightarrow> sqldb \<Rightarrow> rowItem list res \<times> sqldb" where
  "tableScan L def whr t d =
     (case scanPrefix (rowKeyPrefix (tblName def)) t d of (pairs, d1) \<Rightarrow> (scanRows L def whr pairs, d1))"

definition pkEquality :: "golib \<Rightarrow> ColumnDef \<Rightarrow> pred list \<Rightarrow> expr option" where
  "pkEquality L pkCol whr =
     (case whr of
        [PredColumn col e] \<Rightarrow> if normalizeName L col = colName pkCol then Some e else None
      | _ \<Rightarrow> None)"

definition collectRows :: "golib \<Rightarrow> TableDef \<Rightarrow> pred list \<Rightarrow> tx \<Rightarrow> sqldb \<Rightarrow> rowItem list res \<times> sqldb" where
  "collectRows L def whr t d =
     (case pkColumn def of
        Inl e \<Rightarrow> (Inl e, d)
      | Inr (pkCol, pkIdx) \<Rightarrow>
          (case pkEquality L pkCol whr of
             Some e \<Rightarrow> rowByKey L def pkCol e t d
           | None \<Rightarrow>
               (case (case whr of [w] \<Rightarrow> map_option (Pair w) (findIndex L def w d) | _ \<Rightarrow> None) of
                  Some (w, si) \<Rightarrow> rowsByIndex L def w si t d
                | None \<Rightarrow> tableScan L def whr t d)))"


section \<open>Definition statements\<close>

definition normalizeColumns :: "golib \<Rightarrow> ColumnDef list \<Rightarrow> ColumnDef list" where
  "normalizeColumns L cols = map (\<lambda>c. c\<lparr>colName := normalizeName L (colName c)\<rparr>) cols"

definition execCreate :: "golib \<Rightarrow> writeOutcome \<Rightarrow> string \<Rightarrow> ColumnDef list \<Rightarrow> sqldb \<Rightarrow> execResult \<times> sqldb" where
  "execCreate L out stName cols d =
     (let name = normalizeName L stName;
          def = \<lparr>tblName = name, tblColumns = normalizeColumns L cols\<rparr>
      in
      case dbUpdate out ()
             (\<lambda>t d. case txGet (catalogTableKey name) t d of
                (Some _, d1) \<Rightarrow> (Some (ErrSQL ''table already exists''), (), t, d1)
              | (None, d1) \<Rightarrow> (case saveTableDef def t of (e, t1) \<Rightarrow> (e, (), t1, d1))) d
      of
        (Some e, _, d1) \<Rightarrow> ((0, Some e), d1)
      | (None, _, d1) \<Rightarrow>
          ((0, None), d1\<lparr>tables := fmupd name def (tables d1), indexes := fmupd name newBTree (indexes d1)\<rparr>))"

definition dropRows :: "(string \<times> bytes) list \<Rightarrow> nat \<times> tx \<Rightarrow> err option \<times> nat \<times> tx" where
  \<comment> \<open>the loop over the rows of \<open>execDrop\<close>, with the counter \<open>n\<close>\<close>
  "dropRows pairs = stepAll (\<lambda>(key, _) (n, t). case txDel key t of (Some e, t1) \<Rightarrow> (Some e, n, t1) | (None, t1) \<Rightarrow> (None, n + 1, t1)) pairs"

definition dropIndexDefs :: "golib \<Rightarrow> string \<Rightarrow> IndexDef list \<Rightarrow> tx \<Rightarrow> err option \<times> tx" where
  "dropIndexDefs L name defs =
     stepAll (\<lambda>ix t. if normalizeName L (ixTable ix) = name then dropIndexDef (ixName ix) t else (None, t)) defs"

definition dropTx :: "golib \<Rightarrow> string \<Rightarrow> tx \<Rightarrow> sqldb \<Rightarrow> err option \<times> nat \<times> tx \<times> sqldb" where
  "dropTx L name t d =
     (case loadTableDef name t d of
        (Inl e, d1) \<Rightarrow> (Some e, 0, t, d1)
      | (Inr _, d1) \<Rightarrow>
          (case scanPrefix (rowKeyPrefix name) t d1 of (pairs, d2) \<Rightarrow>
             (case dropRows pairs (0, t) of
                (Some e, n, t1) \<Rightarrow> (Some e, n, t1, d2)
              | (None, n, t1) \<Rightarrow>
                  (case listIndexDefs t1 d2 of
                     (Inl e, d3) \<Rightarrow> (Some e, n, t1, d3)
                   | (Inr defs, d3) \<Rightarrow>
                       (case dropIndexDefs L name defs t1 of
                          (Some e, t2) \<Rightarrow> (Some e, n, t2, d3)
                        | (None, t2) \<Rightarrow> (case dropTableDef name t2 of (e, t3) \<Rightarrow> (e, n, t3, d3)))))))"

definition execDrop :: "golib \<Rightarrow> writeOutcome \<Rightarrow> string \<Rightarrow> sqldb \<Rightarrow> execResult \<times> sqldb" where
  "execDrop L out stName d =
     (let name = normalizeName L stName in
      case dbUpdate out 0 (dropTx L name) d of
        (Some e, _, d1) \<Rightarrow> ((0, Some e), d1)
      | (None, n, d1) \<Rightarrow>
          ((n, None),
           d1\<lparr>tables := fmdrop name (tables d1), indexes := fmdrop name (indexes d1),
              secIndexes := fmfilter (\<lambda>k. ixTable (siDef (the (fmlookup (secIndexes d1) k))) \<noteq> name) (secIndexes d1)\<rparr>))"

definition tableDef :: "string \<Rightarrow> sqldb \<Rightarrow> TableDef res" where
  "tableDef name d =
     (case fmlookup (tables d) name of None \<Rightarrow> Inl (ErrSQL ''no such table'') | Some def \<Rightarrow> Inr def)"


section \<open>Maintenance of the secondary indexes\<close>

definition secEach :: "string \<Rightarrow> (secondaryIdx \<Rightarrow> err option \<times> secondaryIdx) \<Rightarrow> sqldb \<Rightarrow> err option \<times> sqldb" where
  \<comment> \<open>\<open>for _, si := range db.secIndexes\<close> over those of one table\<close>
  "secEach name f d =
     stepAll (\<lambda>k d.
        let si = the (fmlookup (secIndexes d) k) in
        if ixTable (siDef si) \<noteq> name then (None, d)
        else (case f si of (e, si1) \<Rightarrow> (e, d\<lparr>secIndexes := fmupd k si1 (secIndexes d)\<rparr>)))
       (fmkeys (secIndexes d)) d"

definition secAdd :: "golib \<Rightarrow> TableDef \<Rightarrow> sqlval list \<Rightarrow> pkKey \<Rightarrow> string \<Rightarrow> secondaryIdx \<Rightarrow> err option \<times> secondaryIdx" where
  \<comment> \<open>add a row to an index, if it has a value for it\<close>
  "secAdd L def vals pk rk si =
     (case valueFromRow L (siDef si) def vals of
        Inl e \<Rightarrow> (Some e, si)
      | Inr None \<Rightarrow> (None, si)
      | Inr (Some iv) \<Rightarrow> (case secInsert iv pk rk si of None \<Rightarrow> (Some Panic, si) | Some si1 \<Rightarrow> (None, si1)))"

definition secDrop :: "golib \<Rightarrow> TableDef \<Rightarrow> sqlval list \<Rightarrow> pkKey \<Rightarrow> secondaryIdx \<Rightarrow> err option \<times> secondaryIdx" where
  "secDrop L def vals pk si =
     (case valueFromRow L (siDef si) def vals of
        Inl e \<Rightarrow> (Some e, si)
      | Inr None \<Rightarrow> (None, si)
      | Inr (Some iv) \<Rightarrow> (case secRemove iv pk si of None \<Rightarrow> (Some Panic, si) | Some si1 \<Rightarrow> (None, si1)))"

definition secReplace :: "golib \<Rightarrow> TableDef \<Rightarrow> sqlval list \<Rightarrow> sqlval list \<Rightarrow> pkKey \<Rightarrow> string \<Rightarrow> secondaryIdx \<Rightarrow> err option \<times> secondaryIdx" where
  \<comment> \<open>both values are computed before the index is touched\<close>
  "secReplace L def old new pk rk si =
     (case (valueFromRow L (siDef si) def old, valueFromRow L (siDef si) def new) of
        (Inl e, _) \<Rightarrow> (Some e, si)
      | (Inr _, Inl e) \<Rightarrow> (Some e, si)
      | (Inr _, Inr _) \<Rightarrow>
          (case secDrop L def old pk si of
             (Some e, si1) \<Rightarrow> (Some e, si1)
           | (None, si1) \<Rightarrow> secAdd L def new pk rk si1))"


section \<open>INSERT\<close>

definition insertColumns :: "golib \<Rightarrow> TableDef \<Rightarrow> string list \<Rightarrow> expr list \<Rightarrow> nat list res" where
  "insertColumns L def cols vals =
     (if cols = [] then
        (if length vals \<noteq> length (tblColumns def) then Inl (ErrSQL ''column count mismatch'')
         else Inr [0..<length (tblColumns def)])
      else if length cols \<noteq> length vals then Inl (ErrSQL ''column count mismatch'')
      else eseq (map (\<lambda>c. columnIndex L def (normalizeName L c)) cols))"

fun assignValues :: "golib \<Rightarrow> TableDef \<Rightarrow> (nat \<times> expr) list \<Rightarrow> sqlval list \<Rightarrow> sqlval list res" where
  \<comment> \<open>\<open>values[ci] = exprToValue(e, def.Columns[ci].Type)\<close> for each pair\<close>
  "assignValues L def [] values = Inr values"
| "assignValues L def ((ci, e) # ces) values =
     ebind (exprToValue L e (colTyp (tblColumns def ! ci))) (\<lambda>v.
       if ci < length values then assignValues L def ces (values[ci := v]) else Inl Panic)"

definition nullRow :: "TableDef \<Rightarrow> sqlval list" where
  "nullRow def = map (\<lambda>c. zeroValue\<lparr>vTyp := colTyp c, vNull := True\<rparr>) (tblColumns def)"

definition insertValues :: "golib \<Rightarrow> TableDef \<Rightarrow> string list \<Rightarrow> expr list \<Rightarrow> sqlval list res" where
  "insertValues L def cols vals =
     ebind (insertColumns L def cols vals) (\<lambda>idxs. assignValues L def (zip idxs vals) (nullRow def))"

definition encodePK :: "colType \<Rightarrow> sqlval \<Rightarrow> string res" where
  "encodePK typ v =
     (if typ = TypeInteger then Inr (encodePKInt (vInt v))
      else if typ = TypeText then Inr (encodePKString (vText v))
      else Inl (ErrSQL ''PRIMARY KEY must be INTEGER or TEXT''))"

definition insertRow :: "golib \<Rightarrow> TableDef \<Rightarrow> string \<Rightarrow> string list \<Rightarrow> expr list \<Rightarrow> (sqlval list \<times> pkKey \<times> string \<times> bytes) res" where
  \<comment> \<open>everything that \<open>execInsert\<close> computes before its transaction: the row, its key, its storage key and its page\<close>
  "insertRow L def name cols vals =
     ebind (pkColumn def) (\<lambda>(pkCol, pkIdx).
     ebind (insertValues L def cols vals) (\<lambda>values.
     ebind (nthRes values pkIdx) (\<lambda>pkv.
     if vNull pkv then Inl (ErrSQL ''PRIMARY KEY must not be NULL'')
     else
       ebind (encodePK (colTyp pkCol) pkv) (\<lambda>pkEnc.
       ebind (packRow values) (\<lambda>page.
         Inr (values, pkOfValue (colTyp pkCol) pkv, rowKey name pkEnc, page))))))"

definition insertTx :: "string \<Rightarrow> bytes \<Rightarrow> tx \<Rightarrow> sqldb \<Rightarrow> err option \<times> unit \<times> tx \<times> sqldb" where
  "insertTx rk page t d =
     (case txGet rk t d of
        (Some _, d1) \<Rightarrow> (Some (ErrSQL ''duplicate primary key''), (), t, d1)
      | (None, d1) \<Rightarrow> (case txPut rk page t of (e, t1) \<Rightarrow> (e, (), t1, d1)))"

definition indexRow :: "string \<Rightarrow> pkKey \<Rightarrow> string \<Rightarrow> sqldb \<Rightarrow> sqldb res" where
  "indexRow name pk rk d =
     (let tree = (case fmlookup (indexes d) name of None \<Rightarrow> newBTree | Some t \<Rightarrow> t) in
      ebind (orPanic (btPut tree pk rk)) (\<lambda>t1. Inr (d\<lparr>indexes := fmupd name t1 (indexes d)\<rparr>)))"

definition execInsert :: "golib \<Rightarrow> writeOutcome \<Rightarrow> string \<Rightarrow> string list \<Rightarrow> expr list \<Rightarrow> sqldb \<Rightarrow> execResult \<times> sqldb" where
  "execInsert L out stTable cols vals d =
     (let name = normalizeName L stTable in
      case ebind (tableDef name d) (\<lambda>def. ebind (insertRow L def name cols vals) (\<lambda>r. Inr (def, r))) of
        Inl e \<Rightarrow> ((0, Some e), d)
      | Inr (def, values, pk, rk, page) \<Rightarrow>
          (case dbUpdate out () (insertTx rk page) d of
             (Some e, _, d1) \<Rightarrow> ((0, Some e), d1)
           | (None, _, d1) \<Rightarrow>
               (case indexRow name pk rk d1 of
                  Inl e \<Rightarrow> ((0, Some e), d1)
                | Inr d2 \<Rightarrow>
                    (case secEach name (secAdd L def values pk rk) d2 of
                       (Some e, d3) \<Rightarrow> ((0, Some e), d3)
                     | (None, d3) \<Rightarrow> ((1, None), d3)))))"


section \<open>UPDATE\<close>

record updateItem =
  uiPk :: pkKey
  uiOld :: "sqlval list"
  uiNew :: "sqlval list"

definition assignPairs :: "golib \<Rightarrow> TableDef \<Rightarrow> assign list \<Rightarrow> sqlval list \<Rightarrow> sqlval list res" where
  \<comment> \<open>the loop over \<open>s.sets\<close>: column, value, store, one assignment after the other\<close>
  "assignPairs L def sets vals =
     foldl (\<lambda>r a. ebind r (\<lambda>vals.
       ebind (columnIndex L def (normalizeName L (asColumn a))) (\<lambda>ci. assignValues L def [(ci, asValue a)] vals)))
       (Inr vals) sets"

definition updateRow :: "golib \<Rightarrow> TableDef \<Rightarrow> assign list \<Rightarrow> rowItem \<Rightarrow> updateItem list \<times> tx \<Rightarrow> err option \<times> updateItem list \<times> tx" where
  "updateRow L def sets item s =
     (case s of (upd, t) \<Rightarrow>
        (case assignPairs L def sets (riValues item) of
           Inl e \<Rightarrow> (Some e, upd, t)
         | Inr vals \<Rightarrow>
             (case packRow vals of
                Inl e \<Rightarrow> (Some e, upd, t)
              | Inr page \<Rightarrow>
                  (case txPut (riKey item) page t of
                     (Some e, t1) \<Rightarrow> (Some e, upd, t1)
                   | (None, t1) \<Rightarrow>
                       (None, upd @ [\<lparr>uiPk = riPk item, uiOld = riValues item, uiNew = vals\<rparr>], t1)))))"

definition updateTx :: "golib \<Rightarrow> TableDef \<Rightarrow> assign list \<Rightarrow> pred list \<Rightarrow> tx \<Rightarrow> sqldb
    \<Rightarrow> err option \<times> updateItem list \<times> tx \<times> sqldb" where
  \<comment> \<open>\<open>affected\<close> is the length of \<open>updated\<close>\<close>
  "updateTx L def sets whr t d =
     (case collectRows L def whr t d of
        (Inl e, d1) \<Rightarrow> (Some e, [], t, d1)
      | (Inr items, d1) \<Rightarrow>
          (case stepAll (updateRow L def sets) items ([], t) of (e, upd, t1) \<Rightarrow> (e, upd, t1, d1)))"

definition execUpdate :: "golib \<Rightarrow> writeOutcome \<Rightarrow> string \<Rightarrow> assign list \<Rightarrow> pred list \<Rightarrow> sqldb \<Rightarrow> execResult \<times> sqldb" where
  "execUpdate L out stTable sets whr d =
     (let name = normalizeName L stTable in
      case ebind (tableDef name d) (\<lambda>def. ebind (pkColumn def) (\<lambda>(pkCol, pkIdx).
             if list_ex (\<lambda>a. normalizeName L (asColumn a) = colName pkCol) sets then
               Inl (ErrSQL ''cannot UPDATE primary key'')
             else Inr def)) of
        Inl e \<Rightarrow> ((0, Some e), d)
      | Inr def \<Rightarrow>
          (case dbUpdate out [] (updateTx L def sets whr) d of
             (Some e, upd, d1) \<Rightarrow> ((length upd, Some e), d1)
           | (None, upd, d1) \<Rightarrow>
               (case secEach name
                       (stepAll (\<lambda>u. secReplace L def (uiOld u) (uiNew u) (uiPk u) (rowKey name (pkEncode (uiPk u)))) upd) d1 of
                  (Some e, d2) \<Rightarrow> ((0, Some e), d2)
                | (None, d2) \<Rightarrow> ((length upd, None), d2))))"


section \<open>DELETE\<close>

definition deleteRow :: "rowItem \<Rightarrow> rowItem list \<times> tx \<Rightarrow> err option \<times> rowItem list \<times> tx" where
  "deleteRow item s =
     (case s of (removed, t) \<Rightarrow>
        (case txDel (riKey item) t of
           (Some e, t1) \<Rightarrow> (Some e, removed, t1)
         | (None, t1) \<Rightarrow> (None, removed @ [item], t1)))"

definition deleteTx :: "golib \<Rightarrow> TableDef \<Rightarrow> pred list \<Rightarrow> tx \<Rightarrow> sqldb \<Rightarrow> err option \<times> rowItem list \<times> tx \<times> sqldb" where
  "deleteTx L def whr t d =
     (case collectRows L def whr t d of
        (Inl e, d1) \<Rightarrow> (Some e, [], t, d1)
      | (Inr items, d1) \<Rightarrow> (case stepAll deleteRow items ([], t) of (e, removed, t1) \<Rightarrow> (e, removed, t1, d1)))"

definition unindexRows :: "string \<Rightarrow> rowItem list \<Rightarrow> sqldb \<Rightarrow> sqldb res" where
  "unindexRows name removed d =
     (case fmlookup (indexes d) name of
        None \<Rightarrow> Inr d
      | Some tree \<Rightarrow>
          ebind (foldl (\<lambda>r item. ebind r (\<lambda>t. orPanic (btDelete t (riPk item)))) (Inr tree) removed)
            (\<lambda>t. Inr (d\<lparr>indexes := fmupd name t (indexes d)\<rparr>)))"

definition execDelete :: "golib \<Rightarrow> writeOutcome \<Rightarrow> string \<Rightarrow> pred list \<Rightarrow> sqldb \<Rightarrow> execResult \<times> sqldb" where
  "execDelete L out stTable whr d =
     (let name = normalizeName L stTable in
      case ebind (tableDef name d) (\<lambda>def. ebind (pkColumn def) (\<lambda>_. Inr def)) of
        Inl e \<Rightarrow> ((0, Some e), d)
      | Inr def \<Rightarrow>
          (case dbUpdate out [] (deleteTx L def whr) d of
             (Some e, _, d1) \<Rightarrow> ((0, Some e), d1)
           | (None, removed, d1) \<Rightarrow>
               (case unindexRows name removed d1 of
                  Inl e \<Rightarrow> ((0, Some e), d1)
                | Inr d2 \<Rightarrow>
                    (case secEach name (stepAll (\<lambda>item. secDrop L def (riValues item) (riPk item)) removed) d2 of
                       (Some e, d3) \<Rightarrow> ((0, Some e), d3)
                     | (None, d3) \<Rightarrow> ((length removed, None), d3)))))"


section \<open>SELECT\<close>

datatype proj =
    ProjColumn nat string          \<comment> \<open>\<open>colIdx\<close>, \<open>name\<close>\<close>
  | ProjExtract nat string string  \<comment> \<open>\<open>colIdx\<close>, \<open>path\<close>, \<open>name\<close>\<close>

fun projName :: "proj \<Rightarrow> string" where
  "projName (ProjColumn i name) = name"
| "projName (ProjExtract i path name) = name"

definition starProjs :: "TableDef \<Rightarrow> proj list" where
  "starProjs def = map (\<lambda>i. ProjColumn i (colName (tblColumns def ! i))) [0..<length (tblColumns def)]"

definition itemProjs :: "golib \<Rightarrow> TableDef \<Rightarrow> selectItem \<Rightarrow> proj list res" where
  "itemProjs L def c =
     (case c of
        SelectStar \<Rightarrow> Inr (starProjs def)
      | SelectColumn col \<Rightarrow>
          ebind (columnIndex L def (normalizeName L col)) (\<lambda>i. Inr [ProjColumn i (colName (tblColumns def ! i))])
      | SelectExtract col path \<Rightarrow>
          ebind (columnIndex L def (normalizeName L col)) (\<lambda>i.
            if colTyp (tblColumns def ! i) \<noteq> TypeJSON then Inl (ErrSQL ''json_extract requires JSON column'')
            else Inr [ProjExtract i path
              (''json_extract('' @ colName (tblColumns def ! i) @ '', '' @ [quote] @ path @ [quote] @ '')'')]))"

definition selectProjs :: "golib \<Rightarrow> TableDef \<Rightarrow> selectItem list \<Rightarrow> proj list res" where
  "selectProjs L def cols =
     (if cols = [] \<or> cols = [SelectStar] then Inr (starProjs def)
      else ebind (eseq (map (itemProjs L def) cols)) (\<lambda>ps. Inr (concat ps)))"

definition projectValue :: "golib \<Rightarrow> sqlval list \<Rightarrow> proj \<Rightarrow> sqlval res" where
  "projectValue L vals p =
     (case p of
        ProjColumn i name \<Rightarrow> nthRes vals i
      | ProjExtract i path name \<Rightarrow>
          ebind (nthRes vals i) (\<lambda>col.
            if vNull col \<or> vTyp col \<noteq> TypeJSON then Inr nullValue
            else
              ebind (jsonExtract L (vBlob col) path) (\<lambda>r.
                Inr (case r of None \<Rightarrow> nullValue | Some v \<Rightarrow> v))))"

definition projectRows :: "golib \<Rightarrow> proj list \<Rightarrow> rowItem list \<Rightarrow> sqlval list list res" where
  "projectRows L projs items = eseq (map (\<lambda>item. eseq (map (projectValue L (riValues item)) projs)) items)"

definition selectTx :: "golib \<Rightarrow> TableDef \<Rightarrow> proj list \<Rightarrow> pred list \<Rightarrow> tx \<Rightarrow> sqldb
    \<Rightarrow> err option \<times> sqlval list list \<times> tx \<times> sqldb" where
  "selectTx L def projs whr t d =
     (case collectRows L def whr t d of
        (Inl e, d1) \<Rightarrow> (Some e, [], t, d1)
      | (Inr items, d1) \<Rightarrow>
          (case projectRows L projs items of Inl e \<Rightarrow> (Some e, [], t, d1) | Inr rs \<Rightarrow> (None, rs, t, d1)))"

definition execSelect :: "golib \<Rightarrow> string \<Rightarrow> selectItem list \<Rightarrow> pred list \<Rightarrow> sqldb \<Rightarrow> rows res \<times> sqldb" where
  "execSelect L stTable cols whr d =
     (let name = normalizeName L stTable in
      case ebind (tableDef name d) (\<lambda>def. ebind (selectProjs L def cols) (\<lambda>projs. Inr (def, projs))) of
        Inl e \<Rightarrow> (Inl e, d)
      | Inr (def, projs) \<Rightarrow>
          (case dbView [] (selectTx L def projs whr) d of
             (Some e, _, d1) \<Rightarrow> (Inl e, d1)
           | (None, rs, d1) \<Rightarrow>
               (Inr \<lparr>rwColumns = map projName projs, rwData = rs, rwI = -1, rwClosed = False\<rparr>, d1)))"


section \<open>Index statements\<close>

definition checkIndex :: "golib \<Rightarrow> TableDef \<Rightarrow> string \<Rightarrow> string \<Rightarrow> unit res" where
  \<comment> \<open>the conditions on the column and the path of a new index\<close>
  "checkIndex L def col path =
     ebind (pkColumn def) (\<lambda>(pkCol, _).
     if col = colName pkCol then Inl (ErrSQL ''cannot index primary key column'')
     else
       ebind (columnIndex L def col) (\<lambda>ci.
       let ct = colTyp (tblColumns def ! ci) in
       if path \<noteq> [] then
         (if ct \<noteq> TypeJSON then Inl (ErrSQL ''PATH indexes require a JSON column'')
          else ebind (parseJSONPath L path) (\<lambda>_. Inr ()))
       else if ct \<noteq> TypeInteger \<and> ct \<noteq> TypeText then
         Inl (ErrSQL ''secondary indexes only support INTEGER or TEXT columns'')
       else Inr ()))"

definition buildEntry :: "golib \<Rightarrow> TableDef \<Rightarrow> string \<Rightarrow> string \<times> bytes \<Rightarrow> secondaryIdx \<Rightarrow> err option \<times> secondaryIdx" where
  \<comment> \<open>one turn of the loop that fills an index from the stored rows\<close>
  "buildEntry L def name p si =
     (case p of (key, raw) \<Rightarrow>
        (case unpackRow raw of
           Inl e \<Rightarrow> (Some e, si)
         | Inr vals \<Rightarrow>
             (case parseRowKey name key of
                None \<Rightarrow> (None, si)
              | Some enc \<Rightarrow>
                  (case pkKeyFromEncoded enc of
                     Inl e \<Rightarrow> (Some e, si)
                   | Inr pk \<Rightarrow> secAdd L def vals pk key si))))"

definition buildTx :: "golib \<Rightarrow> TableDef \<Rightarrow> string \<Rightarrow> secondaryIdx \<Rightarrow> tx \<Rightarrow> sqldb \<Rightarrow> err option \<times> secondaryIdx \<times> tx \<times> sqldb" where
  "buildTx L def name si t d =
     (case scanPrefix (rowKeyPrefix name) t d of (pairs, d1) \<Rightarrow>
        (case stepAll (buildEntry L def name) pairs si of (e, si1) \<Rightarrow> (e, si1, t, d1)))"

definition execCreateIndex :: "golib \<Rightarrow> writeOutcome \<Rightarrow> string \<Rightarrow> string \<Rightarrow> string \<Rightarrow> string \<Rightarrow> sqldb \<Rightarrow> execResult \<times> sqldb" where
  "execCreateIndex L out stIndex stTable stColumn path d =
     (let idxName = normalizeName L stIndex;
          name = normalizeName L stTable;
          col = normalizeName L stColumn
      in
      case tableDef name d of
        Inl e \<Rightarrow> ((0, Some e), d)
      | Inr def \<Rightarrow>
          if fmlookup (secIndexes d) idxName \<noteq> None then ((0, Some (ErrSQL ''index already exists'')), d)
          else
            (case checkIndex L def col path of
               Inl e \<Rightarrow> ((0, Some e), d)
             | Inr _ \<Rightarrow>
                 let idef = \<lparr>ixName = idxName, ixTable = name, ixColumn = col, ixPath = path\<rparr> in
                 (case dbView (newSecondaryIdx idef) (buildTx L def name (newSecondaryIdx idef)) d of
                    (Some e, _, d1) \<Rightarrow> ((0, Some e), d1)
                  | (None, si, d1) \<Rightarrow>
                      (case dbUpdate out () (\<lambda>t d. case saveIndexDef idef t of (e, t1) \<Rightarrow> (e, (), t1, d)) d1 of
                         (Some e, _, d2) \<Rightarrow> ((0, Some e), d2)
                       | (None, _, d2) \<Rightarrow> ((0, None), d2\<lparr>secIndexes := fmupd idxName si (secIndexes d2)\<rparr>)))))"

definition execDropIndex :: "golib \<Rightarrow> writeOutcome \<Rightarrow> string \<Rightarrow> sqldb \<Rightarrow> execResult \<times> sqldb" where
  "execDropIndex L out stIndex d =
     (let idxName = normalizeName L stIndex in
      if fmlookup (secIndexes d) idxName = None then ((0, Some (ErrSQL ''no such index'')), d)
      else
        (case dbUpdate out () (\<lambda>t d. case dropIndexDef idxName t of (e, t1) \<Rightarrow> (e, (), t1, d)) d of
           (Some e, _, d1) \<Rightarrow> ((0, Some e), d1)
         | (None, _, d1) \<Rightarrow> ((0, None), d1\<lparr>secIndexes := fmdrop idxName (secIndexes d1)\<rparr>)))"


section \<open>Rebuilding the caches\<close>

definition buildTree :: "string \<Rightarrow> (string \<times> bytes) list \<Rightarrow> btree res" where
  \<comment> \<open>the primary-key index of a table from its stored rows\<close>
  "buildTree name pairs =
     foldl (\<lambda>r (key, _). ebind r (\<lambda>tree.
       (case parseRowKey name key of
          None \<Rightarrow> Inr tree
        | Some enc \<Rightarrow> ebind (pkKeyFromEncoded enc) (\<lambda>k. orPanic (btPut tree k key)))))
       (Inr newBTree) pairs"

definition rebuildTable :: "golib \<Rightarrow> tx \<Rightarrow> TableDef \<Rightarrow> sqldb \<Rightarrow> err option \<times> sqldb" where
  "rebuildTable L t def0 d =
     (let name = normalizeName L (tblName def0);
          def = \<lparr>tblName = name, tblColumns = normalizeColumns L (tblColumns def0)\<rparr>
      in
      case scanPrefix (rowKeyPrefix name) t (d\<lparr>tables := fmupd name def (tables d)\<rparr>) of (pairs, d1) \<Rightarrow>
        (case buildTree name pairs of
           Inl e \<Rightarrow> (Some e, d1)
         | Inr tree \<Rightarrow> (None, d1\<lparr>indexes := fmupd name tree (indexes d1)\<rparr>)))"

definition normalizeIndex :: "golib \<Rightarrow> IndexDef \<Rightarrow> IndexDef" where
  "normalizeIndex L ix =
     ix\<lparr>ixName := normalizeName L (ixName ix), ixTable := normalizeName L (ixTable ix),
        ixColumn := normalizeName L (ixColumn ix)\<rparr>"

definition rebuildIndex :: "golib \<Rightarrow> tx \<Rightarrow> IndexDef \<Rightarrow> sqldb \<Rightarrow> err option \<times> sqldb" where
  \<comment> \<open>the rows of \<open>rowCache\<close> are those that a scan of the same snapshot returns\<close>
  "rebuildIndex L t ix0 d =
     (let ix = normalizeIndex L ix0 in
      case fmlookup (tables d) (ixTable ix) of
        None \<Rightarrow> (None, d)
      | Some def \<Rightarrow>
          (case columnIndex L def (ixColumn ix) of
             Inl _ \<Rightarrow> (None, d)
           | Inr _ \<Rightarrow>
               (case stepAll (buildEntry L def (ixTable ix)) (fst (scanPrefix (rowKeyPrefix (ixTable ix)) t d))
                       (newSecondaryIdx ix) of
                  (Some e, _) \<Rightarrow> (Some e, d)
                | (None, si) \<Rightarrow> (None, d\<lparr>secIndexes := fmupd (ixName ix) si (secIndexes d)\<rparr>))))"

definition rebuildSQLState :: "golib \<Rightarrow> sqldb \<Rightarrow> sqldb res" where
  "rebuildSQLState L d0 =
     (let d = d0\<lparr>tables := fmempty, indexes := fmempty, secIndexes := fmempty\<rparr>;
          t = \<lparr>txId = nextTx d, readVersion = version d, writable = False, writes = fmempty, txClosed = False\<rparr>
      in
      case listTableDefs t d of
        (Inl e, _) \<Rightarrow> Inl e
      | (Inr defs, d1) \<Rightarrow>
          (case stepAll (rebuildTable L t) defs d1 of
             (Some e, _) \<Rightarrow> Inl e
           | (None, d2) \<Rightarrow>
               (case listIndexDefs t d2 of
                  (Inl e, _) \<Rightarrow> Inl e
                | (Inr ixs, d3) \<Rightarrow>
                    (case stepAll (rebuildIndex L t) ixs d3 of
                       (Some e, _) \<Rightarrow> Inl e
                     | (None, d4) \<Rightarrow> Inr d4))))"

definition OpenWithOptions :: "golib \<Rightarrow> bytes \<Rightarrow> sqldb res" where
  \<comment> \<open>without the start of the checkpoint worker, see \<open>maybeCheckpoint\<close>\<close>
  "OpenWithOptions L f =
     ebind (openStore f) (\<lambda>d.
       rebuildSQLState L (db.extend d \<lparr>tables = fmempty, indexes = fmempty, secIndexes = fmempty\<rparr>))"


section \<open>The entry points\<close>

definition execStmt :: "golib \<Rightarrow> writeOutcome \<Rightarrow> stmt \<Rightarrow> sqldb \<Rightarrow> execResult \<times> sqldb" where
  "execStmt L out st d =
     (case st of
        CreateTableStmt name cols \<Rightarrow> execCreate L out name cols d
      | DropTableStmt name \<Rightarrow> execDrop L out name d
      | InsertStmt tbl cols vals \<Rightarrow> execInsert L out tbl cols vals d
      | UpdateStmt tbl sets whr \<Rightarrow> execUpdate L out tbl sets whr d
      | DeleteStmt tbl whr \<Rightarrow> execDelete L out tbl whr d
      | CreateIndexStmt ix tbl col path \<Rightarrow> execCreateIndex L out ix tbl col path d
      | DropIndexStmt ix \<Rightarrow> execDropIndex L out ix d
      | SelectStmt _ _ _ \<Rightarrow> ((0, Some (ErrSQL ''use Query for SELECT'')), d))"

definition dbExec :: "golib \<Rightarrow> writeOutcome \<Rightarrow> string \<Rightarrow> arg list \<Rightarrow> sqldb \<Rightarrow> execResult \<times> sqldb" where
  "dbExec L out sql args d =
     (case ebind (parseSQL L sql) (\<lambda>st. bindArgs L st args) of
        Inl e \<Rightarrow> ((0, Some e), d)
      | Inr st \<Rightarrow> execStmt L out st d)"

definition dbQuery :: "golib \<Rightarrow> string \<Rightarrow> arg list \<Rightarrow> sqldb \<Rightarrow> rows res \<times> sqldb" where
  "dbQuery L sql args d =
     (case ebind (parseSQL L sql) (\<lambda>st. bindArgs L st args) of
        Inl e \<Rightarrow> (Inl e, d)
      | Inr st \<Rightarrow>
          (case st of
             SelectStmt tbl cols whr \<Rightarrow> execSelect L tbl cols whr d
           | _ \<Rightarrow> (Inl (ErrSQL ''Query requires SELECT''), d)))"

end
