(* ===== verification/SqlStore.thy ===== *)
theory SqlStore
  imports SqlExec
begin

text \<open>
  The store as one client sees it who runs one transaction after another. The content of the store is
  the map \<open>current\<close>; a transaction sees its own writes over it, a \<open>View\<close> leaves it alone, and an
  \<open>Update\<close> replaces it by what its transaction saw at the end, or leaves it alone when there was an
  error. The statements of the SQL layer are built from these two.
\<close>

named_theorems quiet_intros "operations that only read"

section \<open>Reading changes nothing that matters\<close>

definition activeFrom :: "('z) db_scheme \<Rightarrow> ('z) db_scheme \<Rightarrow> bool" where
  \<comment> \<open>no snapshots are registered but those that were, and new ones\<close>
  "activeFrom d d' \<longleftrightarrow>
     (\<forall>i rv. fmlookup (active d') i = Some rv \<longrightarrow> fmlookup (active d) i = Some rv \<or> rv = version d)"

lemma activeFrom_simps [simp]:
  "activeFrom d d" "activeFrom d (d'\<lparr>reads := r\<rparr>) = activeFrom d d'" "activeFrom d (d'\<lparr>nextTx := n\<rparr>) = activeFrom d d'"
  "activeFrom d (d\<lparr>active := fmdrop i (active d)\<rparr>)" "activeFrom d (d\<lparr>active := fmupd i (version d) (active d)\<rparr>)"
  by (simp_all add: activeFrom_def)

lemma activeFrom_trans: "activeFrom a b \<Longrightarrow> activeFrom b c \<Longrightarrow> version b = version a \<Longrightarrow> activeFrom a c"
  by (fastforce simp: activeFrom_def)

definition quiet :: "('z) db_scheme \<Rightarrow> ('z) db_scheme \<Rightarrow> bool" where
  "quiet d d' \<longleftrightarrow>
     version d' = version d \<and> history d' = history d \<and> fileOpen d' = fileOpen d \<and> dbClosed d' = dbClosed d
     \<and> dbFile d' = dbFile d \<and> db.more d' = db.more d \<and> activeFrom d d'"

lemma quiet_refl [simp, quiet_intros]: "quiet d d"
  by (simp add: quiet_def)

lemma quiet_trans: "quiet a b \<Longrightarrow> quiet b c \<Longrightarrow> quiet a c"
  using activeFrom_trans [of a b c] by (simp add: quiet_def)

lemma quiet_fields [quiet_intros]:
  "quiet d (d\<lparr>reads := r\<rparr>)" "quiet d (d\<lparr>nextTx := n\<rparr>)" "quiet d (unregister t d)"
  by (simp_all add: quiet_def unregister_def)

lemma quiet_versions: "quiet d d' \<Longrightarrow> versionsOf k d' = versionsOf k d"
  by (simp add: quiet_def versionsOf_def)

lemma quiet_current: "quiet d d' \<Longrightarrow> current d' = current d"
  by (simp add: fun_eq_iff current_def quiet_versions) (simp add: quiet_def)

lemma quiet_view: "quiet d d' \<Longrightarrow> viewOf t d' = viewOf t d"
  by (simp add: fun_eq_iff viewOf_def quiet_versions [of d d'] split: option.splits)

lemma sqldb_more:
  fixes d d' :: sqldb
  assumes "db.more d' = db.more d"
  shows "tables d' = tables d" "indexes d' = indexes d" "secIndexes d' = secIndexes d"
  using assms by (cases d; cases d'; simp)+

lemma quiet_sql:
  fixes d d' :: sqldb
  shows "quiet d d' \<Longrightarrow> tables d' = tables d \<and> indexes d' = indexes d \<and> secIndexes d' = secIndexes d"
  using sqldb_more [of d' d] by (simp add: quiet_def)

lemma txGet_quiet [quiet_intros]: "quiet d (snd (txGet k t d))"
  by (simp add: txGet_def quiet_intros split: option.splits)

lemma scanPrefix_quiet [quiet_intros]: "quiet d (snd (scanPrefix p t d))"
  by (simp add: scanPrefix_def quiet_intros split: prod.splits)

lemma scan_result:
  assumes "\<not> txClosed t"
  obtains ks where "sorted ks" "distinct ks" "\<And>k. k \<in> set ks \<longleftrightarrow> prefix p k \<and> viewOf t d k \<noteq> None"
    "fst (scanPrefix p t d) = map (\<lambda>k. (k, the (viewOf t d k))) ks"
proof -
  let ?S = "{k. prefix p k \<and> viewOf t d k \<noteq> None}"
  have "?S \<subseteq> fset (fmdom (writes t)) \<union> fset (fmdom (history d))"
    by (auto simp: viewOf_def versionsOf_def fmdom_lookup split: option.splits)
  then have "finite ?S" by (rule finite_subset) simp
  then show thesis
    using that [of "sorted_list_of_set ?S"] scanPrefix_view [OF assms, of "sorted_list_of_set ?S" p d] by simp
qed


section \<open>One client\<close>

definition seqOk :: "('z) db_scheme \<Rightarrow> bool" where
  "seqOk d \<longleftrightarrow>
     \<not> dbClosed d \<and> fileOpen d \<and> (\<forall>k. \<forall>v\<in>set (versionsOf k d). vvVersion v \<le> version d)
     \<and> unat (version d) + 1 < 2 ^ 64"

definition content :: "(string \<rightharpoonup> bytes) \<Rightarrow> (string, operation) fmap \<Rightarrow> (string \<rightharpoonup> bytes)" where
  \<comment> \<open>a store with pending writes over it\<close>
  "content m w k =
     (case fmlookup w k of None \<Rightarrow> m k | Some op \<Rightarrow> if opDelete op then None else Some (opValue op))"

lemma content_empty [simp]: "content m fmempty = m"
  by (simp add: content_def fun_eq_iff)

lemma content_write:
  "content m (fmupd k op w) = (content m w)(k := if opDelete op then None else Some (opValue op))"
  by (auto simp: content_def fun_eq_iff)

definition liveDeletes :: "(string \<rightharpoonup> bytes) \<Rightarrow> (string, operation) fmap \<Rightarrow> bool" where
  \<comment> \<open>only keys that are there are deleted\<close>
  "liveDeletes m w \<longleftrightarrow> (\<forall>k op. fmlookup w k = Some op \<longrightarrow> opDelete op \<longrightarrow> m k \<noteq> None)"

definition openTx :: "bool \<Rightarrow> ('z) db_scheme \<Rightarrow> tx \<Rightarrow> bool" where
  \<comment> \<open>an open transaction on the current state\<close>
  "openTx wr d t \<longleftrightarrow>
     \<not> txClosed t \<and> writable t = wr \<and> writesKeyed t \<and> readVersion t = version d \<and> liveDeletes (current d) (writes t)"

lemma openTx_view: "openTx wr d t \<Longrightarrow> viewOf t d = content (current d) (writes t)"
  by (auto simp: openTx_def fun_eq_iff viewOf_def content_def current_def split: option.splits)

lemma openTx_get:
  "openTx wr d t \<Longrightarrow> txGet k t d = (content (current d) (writes t) k, d\<lparr>reads := reads d + 1\<rparr>)"
  using openTx_view [of wr d t] by (simp add: openTx_def txGet_view)

lemma openTx_quiet: "quiet d d' \<Longrightarrow> openTx wr d' t = openTx wr d t"
  using quiet_current [of d d'] by (simp add: openTx_def quiet_def)

lemma openTx_put:
  assumes "openTx True d t"
  shows "\<exists>t'. txPut k v t = (None, t') \<and> openTx True d t' \<and> content m (writes t') = (content m (writes t))(k \<mapsto> v)"
  using assms by (auto simp: openTx_def txPut_def content_write writesKeyed_def liveDeletes_def)

lemma openTx_del:
  assumes "openTx True d t" "current d k \<noteq> None"
  shows "\<exists>t'. txDel k t = (None, t') \<and> openTx True d t' \<and> content m (writes t') = (content m (writes t))(k := None)"
  using assms by (auto simp: openTx_def txDel_def content_write writesKeyed_def liveDeletes_def)

definition freshTx :: "bool \<Rightarrow> ('z) db_scheme \<Rightarrow> tx" where
  "freshTx wr d = \<lparr>txId = nextTx d, readVersion = version d, writable = wr, writes = fmempty, txClosed = False\<rparr>"

definition begun :: "('z) db_scheme \<Rightarrow> ('z) db_scheme" where
  "begun d = d\<lparr>active := fmupd (nextTx d) (version d) (active d), nextTx := Suc (nextTx d)\<rparr>"

lemma dbBegin_fresh: "\<not> dbClosed d \<Longrightarrow> dbBegin wr d = (Inr (freshTx wr d), begun d)"
  by (simp add: dbBegin_def Let_def freshTx_def begun_def)

lemma begun_quiet [quiet_intros]: "quiet d (begun d)"
  by (simp add: begun_def quiet_def)

lemma freshTx_open: "openTx wr d (freshTx wr d)" "writes (freshTx wr d) = fmempty"
  by (simp_all add: openTx_def freshTx_def writesKeyed_def liveDeletes_def)

lemma rollback_quiet [quiet_intros]: "quiet d (snd (txRollback t d))"
  by (simp add: txRollback_def quiet_intros)

lemma dbView_seq:
  assumes "\<not> dbClosed d" "fn (freshTx False d) (begun d) = (e, x, t2, d2)" "quiet d d2"
  obtains d' where "dbView vars fn d = (e, x, d')" "quiet d d'"
  using that [of "snd (txRollback t2 d2)"] assms quiet_trans [OF assms(3) rollback_quiet]
  by (simp add: dbView_def dbBegin_fresh)

definition commitError :: "err option \<Rightarrow> writeOutcome \<Rightarrow> tx \<Rightarrow> err option" where
  "commitError e out t =
     (case e of Some e \<Rightarrow> Some e | None \<Rightarrow> if writes t = fmempty \<or> out = WriteOk then None else Some ErrIO)"

lemma commit_no_conflict:
  assumes "seqOk d" "openTx True d t"
  shows "\<not> list_ex (conflicting t d) ks"
proof -
  have "\<not> conflicting t d k" for k
  proof (cases "versionsOf k d" rule: rev_cases)
    case (snoc ys y)
    then have "y \<in> set (versionsOf k d)" by simp
    then have "vvVersion y \<le> version d" using assms(1) unfolding seqOk_def by blast
    then show ?thesis using snoc assms(2) by (simp add: conflicting_def openTx_def not_less)
  qed (simp add: conflicting_def)
  then show ?thesis by (simp add: list_ex_iff)
qed

lemma applied_current:
  assumes "seqOk d" "writesKeyed t"
  shows "current (dbApply d (commitRecord t d)) = content (current d) (writes t)"
    and "\<forall>k. \<forall>v\<in>set (versionsOf k (dbApply d (commitRecord t d))). vvVersion v \<le> version d + 1"
    and "version (dbApply d (commitRecord t d)) = version d + 1" "unat (version d + 1) = unat (version d) + 1"
proof -
  have u: "unat (version d + 1) = unat (version d) + 1"
    using assms(1) by (simp add: seqOk_def unat_word_ariths)
  then show "unat (version d + 1) = unat (version d) + 1" .
  have less: "version d < version d + 1" using u by (simp add: word_less_nat_alt)
  then have v: "max (version d) (version d + 1) = version d + 1" by (simp add: max_def less_imp_le)
  then show ver: "version (dbApply d (commitRecord t d)) = version d + 1" by (simp add: commitRecord_def)
  have vs: "versionsOf k (dbApply d (commitRecord t d)) = versionsOf k d @
      (case fmlookup (writes t) k of None \<Rightarrow> []
       | Some op \<Rightarrow> [\<lparr>vvVersion = version d + 1, vvValue = opValue op, vvDeleted = opDelete op\<rparr>])" for k
    unfolding dbApply_versions commitRecord_ops [OF assms(2)]
    by (simp add: commitRecord_def split: option.splits)
  have old: "\<forall>v\<in>set (versionsOf k d). vvVersion v \<le> version d" for k using assms(1) by (simp add: seqOk_def)
  then have old': "\<forall>v\<in>set (versionsOf k d). vvVersion v \<le> version d + 1" for k
    using less by (meson less_imp_le order_trans)
  show "\<forall>k. \<forall>v\<in>set (versionsOf k (dbApply d (commitRecord t d))). vvVersion v \<le> version d + 1"
    using old' by (auto simp: vs split: option.splits)
  have "readAt (version d + 1) (versionsOf k d) = readAt (version d) (versionsOf k d)" for k
  proof (cases "versionsOf k d" rule: rev_cases)
    case (snoc ys y)
    then have "vvVersion y \<le> version d" "vvVersion y \<le> version d + 1" using old [of k] old' [of k] by auto
    then show ?thesis using snoc by simp
  qed simp
  then show "current (dbApply d (commitRecord t d)) = content (current d) (writes t)"
    by (auto simp: fun_eq_iff current_def ver vs content_def simp del: dbApply_fields split: option.splits)
qed

lemma dbApply_more [simp]: "db.more (dbApply d r) = db.more d"
proof -
  have "db.more (foldl (applyOp v) d ops) = db.more d" for v ops
    by (induction ops arbitrary: d) (simp_all add: applyOp_def)
  then show ?thesis by (simp add: dbApply_def Let_def)
qed

definition roomFor :: "nat \<Rightarrow> ('z) db_scheme \<Rightarrow> bool" where
  \<comment> \<open>the version counter has room for further commits\<close>
  "roomFor n d \<longleftrightarrow> unat (version d) + n < 2 ^ 64"

definition settled :: "('z) db_scheme \<Rightarrow> bool" where
  \<comment> \<open>the versions of every key are in order, and none is newer than the counter\<close>
  "settled d \<longleftrightarrow>
     (\<forall>k. sorted_wrt (<) (map vvVersion (versionsOf k d)) \<and> (\<forall>x\<in>set (versionsOf k d). vvVersion x \<le> version d))
     \<and> (\<forall>i rv. fmlookup (active d) i = Some rv \<longrightarrow> rv \<le> version d)"

lemma settled_cong:
  assumes "history d' = history d" "version d' = version d" "activeFrom d d'" "settled d"
  shows "settled d'"
proof -
  have vs: "versionsOf k d' = versionsOf k d" for k using assms(1) by (simp add: versionsOf_def)
  have "rv \<le> version d" if "fmlookup (active d') i = Some rv" for i rv
    using assms(3,4) that unfolding activeFrom_def settled_def by (metis order_refl)
  then show ?thesis using assms(2,4) by (simp add: settled_def vs)
qed

lemma settled_quiet: "quiet d d' \<Longrightarrow> settled d \<Longrightarrow> settled d'"
  by (rule settled_cong) (simp_all add: quiet_def)

lemma settled_commit:
  assumes "settled b" "writesKeyed t" "version b \<le> version d" "version d < version d + 1"
    and d': "\<And>k. versionsOf k d' = versionsOf k (dbApply b (commitRecord t d))" "version d' = version d + 1"
      "\<And>i rv. fmlookup (active d') i = Some rv \<Longrightarrow> fmlookup (active b) i = Some rv"
  shows "settled d'"
proof -
  have vs: "versionsOf k d' = versionsOf k b @
      (case fmlookup (writes t) k of None \<Rightarrow> []
       | Some op \<Rightarrow> [\<lparr>vvVersion = version d + 1, vvValue = opValue op, vvDeleted = opDelete op\<rparr>])" for k
    unfolding d'(1) dbApply_versions commitRecord_ops [OF assms(2)] by (simp add: commitRecord_def split: option.splits)
  have less: "version b < version d + 1" using le_less_trans [OF assms(3,4)] .
  have old: "vvVersion x < version d + 1" if "x \<in> set (versionsOf k b)" for x k
    using assms(1) less that unfolding settled_def by (meson le_less_trans)
  have "rv \<le> version d + 1" if "fmlookup (active d') i = Some rv" for i rv
    using assms(1) less d'(3) [OF that] unfolding settled_def by (meson le_less_trans less_imp_le)
  moreover have "sorted_wrt (<) (map vvVersion (versionsOf k d'))" for k
    using assms(1) old by (auto simp: vs settled_def sorted_wrt_append split: option.split)
  moreover have "\<forall>x\<in>set (versionsOf k d'). vvVersion x \<le> version d + 1" for k
    using old by (auto simp: vs less_imp_le split: option.splits)
  ultimately show ?thesis by (simp add: settled_def d'(2))
qed

definition logged :: "('z) db_scheme \<Rightarrow> ('z) db_scheme \<Rightarrow> bool" where
  \<comment> \<open>nothing happened, or the log has grown by the record of a transaction whose writes are now in the store\<close>
  "logged d d' \<longleftrightarrow>
     dbFile d' = dbFile d \<and> current d' = current d \<and> version d' = version d
     \<or> (\<exists>t. writesKeyed t \<and> liveDeletes (current d) (writes t) \<and> dbFile d' = dbFile d @ encodeRecord (commitRecord t d)
          \<and> current d' = content (current d) (writes t) \<and> version d' = version d + 1)"

lemma logged_quiet: "quiet d d' \<Longrightarrow> logged d d'"
  using quiet_current [of d d'] by (simp add: logged_def quiet_def)

lemma logged_same: "quiet d d1 \<Longrightarrow> logged d1 d2 = logged d d2" "quiet d2 d3 \<Longrightarrow> logged d d3 = logged d d2"
  using quiet_current [of d d1] quiet_current [of d2 d3] by (simp_all add: logged_def quiet_def commitRecord_def)

lemma commit_seq:
  assumes seq: "seqOk d" and t: "openTx True d t"
  obtains t' d' where "txCommit out t d = (commitError None out t, t', d')"
    "current d' = (if commitError None out t = None then content (current d) (writes t) else current d)"
    "db.more d' = db.more d" "dbClosed d' = dbClosed d" "fileOpen d' = fileOpen d"
    "\<forall>k. \<forall>v\<in>set (versionsOf k d'). vvVersion v \<le> version d'"
    "unat (version d') \<le> unat (version d) + 1" "out = WriteOk \<longrightarrow> logged d d'" "settled d \<longrightarrow> settled d'"
proof -
  have tx: "\<not> txClosed t" "writable t" "\<not> dbClosed d" "fileOpen d" "writesKeyed t" "liveDeletes (current d) (writes t)"
    using assms by (simp_all add: openTx_def seqOk_def)
  have old: "\<forall>k. \<forall>v\<in>set (versionsOf k d). vvVersion v \<le> version d" using seq by (simp add: seqOk_def)
  show thesis
  proof (cases "writes t = fmempty")
    case True
    then show thesis
      using that [of "t\<lparr>txClosed := True\<rparr>" "unregister t d"] logged_quiet [OF quiet_fields(3), of d t] settled_quiet [OF quiet_fields(3), of d t] tx old quiet_current [OF quiet_fields(3), of t d]
      by (simp add: txCommit_def Let_def commitError_def quiet_versions [OF quiet_fields(3)]) (simp add: unregister_def)
  next
    case False
    obtain f e where f: "appendRecord (dbFile d) (commitRecord t d) out = (f, e)" by fastforce
    have e: "e = (if out = WriteOk then None else Some ErrIO)" using f by (auto simp: appendRecord_def split: writeOutcome.splits)
    show thesis
    proof (cases "out = WriteOk")
      case True
      let ?d2 = "dbApply (d\<lparr>dbFile := f\<rparr>) (commitRecord t d)"
      let ?d' = "unregister t (?d2\<lparr>commits := commits ?d2 + 1\<rparr>)"
      have seq': "seqOk (d\<lparr>dbFile := f\<rparr>)" using seq by (simp add: seqOk_def versionsOf_def)
      have rec: "commitRecord t (d\<lparr>dbFile := f\<rparr>) = commitRecord t d" by (simp add: commitRecord_def)
      have cur: "current (d\<lparr>dbFile := f\<rparr>) = current d" by (simp add: fun_eq_iff current_def versionsOf_def)
      note ap = applied_current [OF seq' tx(5), unfolded rec cur]
      have q: "versionsOf k ?d' = versionsOf k ?d2" "version ?d' = version ?d2" for k
        by (simp_all add: unregister_def versionsOf_def)
      then have cur': "current ?d' = current ?d2" by (simp add: fun_eq_iff current_def)
      have "dbFile ?d' = dbFile d @ encodeRecord (commitRecord t d)" using f True by (simp add: appendRecord_def unregister_def)
      then have lg: "logged d ?d'" unfolding logged_def using tx(5,6) cur' ap(1,3) q(2) by auto
      have vd: "versionsOf k ?d' = versionsOf k (dbApply d (commitRecord t d))" for k
        using q(1) [of k] by (simp add: dbApply_versions)
      have "settled ?d'" if "settled d"
        by (rule settled_commit [OF that tx(5) order_refl _ vd]) (use ap(3,4) q(2) in \<open>auto simp: unregister_def word_less_nat_alt split: if_splits\<close>)
      then show thesis
        using that [of "t\<lparr>txClosed := True\<rparr>" ?d'] lg cur' commit_no_conflict [OF assms] False tx True f e ap q
        by (simp add: txCommit_def Let_def commitError_def appendTo_def) (simp add: unregister_def)
    next
      case fails: False
      let ?d' = "unregister t (d\<lparr>dbFile := f\<rparr>)"
      have "current ?d' = current d" "\<And>k. versionsOf k ?d' = versionsOf k d"
        by (simp_all add: fun_eq_iff current_def unregister_def versionsOf_def)
      moreover have "settled d \<longrightarrow> settled ?d'" using settled_cong [of ?d' d] by (simp add: unregister_def activeFrom_def)
      ultimately show thesis
        using that [of "t\<lparr>txClosed := True\<rparr>" ?d'] commit_no_conflict [OF assms] False tx fails f e old
        by (simp add: txCommit_def Let_def commitError_def appendTo_def) (simp add: unregister_def)
    qed
  qed
qed

definition seqNext :: "writeOutcome \<Rightarrow> ('z) db_scheme \<Rightarrow> ('z) db_scheme \<Rightarrow> bool" where
  \<comment> \<open>the state after at most one commit, with the log in step if the file system took the write\<close>
  "seqNext out d d' \<longleftrightarrow> seqOk d' \<and> unat (version d') \<le> unat (version d) + 1 \<and> (out = WriteOk \<longrightarrow> logged d d') \<and> (settled d \<longrightarrow> settled d')"

lemma dbUpdate_seq:
  assumes seq: "seqOk d" and room: "roomFor 2 d"
    and fn: "fn (freshTx True d) (begun d) = (e, x, t2, d2)" "quiet d d2" "openTx True d t2"
  obtains d' where "dbUpdate out vars fn d = (commitError e out t2, x, d')"
    "current d' = (if commitError e out t2 = None then content (current d) (writes t2) else current d)"
    "db.more d' = db.more d" "seqNext out d d'"
proof (cases e)
  case (Some e1)
  have q: "quiet d (snd (txRollback t2 d2))" using fn(2) rollback_quiet quiet_trans by blast
  then have "seqOk (snd (txRollback t2 d2))"
    using seq quiet_versions [OF q] by (simp add: seqOk_def quiet_def)
  then show thesis
    using that [of "snd (txRollback t2 d2)"] Some fn(1) seq quiet_current [OF q] logged_quiet [OF q] settled_quiet [OF q] q
    by (simp add: dbUpdate_def dbBegin_fresh seqOk_def seqNext_def commitError_def) (simp add: quiet_def)
next
  case None
  have seq2: "seqOk d2" using seq fn(2) quiet_versions [OF fn(2)] by (simp add: seqOk_def quiet_def)
  have t2: "openTx True d2 t2" using fn(2,3) openTx_quiet by blast
  obtain t3 d3 where c: "txCommit out t2 d2 = (commitError None out t2, t3, d3)"
    "current d3 = (if commitError None out t2 = None then content (current d2) (writes t2) else current d2)"
    "db.more d3 = db.more d2" "dbClosed d3 = dbClosed d2" "fileOpen d3 = fileOpen d2"
    "\<forall>k. \<forall>v\<in>set (versionsOf k d3). vvVersion v \<le> version d3" "unat (version d3) \<le> unat (version d2) + 1"
    "out = WriteOk \<longrightarrow> logged d2 d3" "settled d2 \<longrightarrow> settled d3"
    by (rule commit_seq [OF seq2 t2, of out])
  have q: "quiet d3 (snd (txRollback t3 d3))" by (rule rollback_quiet)
  have lg: "out = WriteOk \<longrightarrow> logged d (snd (txRollback t3 d3))" using c(8) logged_same(1) [OF fn(2)] logged_same(2) [OF q] by blast
  have st: "settled d \<longrightarrow> settled (snd (txRollback t3 d3))" using c(9) settled_quiet [OF fn(2)] settled_quiet [OF q] by blast
  have "seqOk (snd (txRollback t3 d3))"
    using q c seq2 fn(2) room quiet_versions [OF q] by (simp add: seqOk_def quiet_def roomFor_def)
  then show thesis
    using that [of "snd (txRollback t3 d3)"] None fn(1,2) seq c lg st quiet_current [OF q] quiet_current [OF fn(2)] q
    by (simp add: dbUpdate_def dbBegin_fresh seqOk_def seqNext_def) (simp add: quiet_def)
qed

text \<open>The two ways a client of \<open>dbUpdate\<close> uses it: its function fails, or it has something to commit.\<close>

lemma dbUpdate_fails:
  assumes "seqOk d" "roomFor 2 d" "fn (freshTx True d) (begun d) = (Some e, x, t2, d2)" "quiet d d2" "openTx True d t2"
  obtains d' where "dbUpdate out vars fn d = (Some e, x, d')" "current d' = current d" "db.more d' = db.more d" "seqNext out d d'"
proof -
  obtain d' where "dbUpdate out vars fn d = (commitError (Some e) out t2, x, d')"
    "current d' = (if commitError (Some e) out t2 = None then content (current d) (writes t2) else current d)"
    "db.more d' = db.more d" "seqNext out d d'"
    by (rule dbUpdate_seq [where fn = fn, OF assms])
  then show thesis using that [of d'] by (simp add: commitError_def)
qed

lemma dbUpdate_commits:
  assumes "seqOk d" "roomFor 2 d" "fn (freshTx True d) (begun d) = (None, x, t2, d2)" "quiet d d2" "openTx True d t2"
    and m: "content (current d) (writes t2) = m'" and ne: "writes t2 \<noteq> fmempty"
  obtains (failed) d' where "dbUpdate out vars fn d = (Some ErrIO, x, d')" "current d' = current d" "db.more d' = db.more d"
      "seqNext out d d'" "out \<noteq> WriteOk"
  | (committed) d' where "dbUpdate out vars fn d = (None, x, d')" "current d' = m'" "db.more d' = db.more d" "seqNext out d d'" "out = WriteOk"
proof -
  obtain d' where "dbUpdate out vars fn d = (commitError None out t2, x, d')"
    "current d' = (if commitError None out t2 = None then content (current d) (writes t2) else current d)"
    "db.more d' = db.more d" "seqNext out d d'"
    by (rule dbUpdate_seq [where fn = fn, OF assms(1-5)])
  then show thesis using failed [of d'] committed [of d'] m ne by (cases "out = WriteOk") (simp_all add: commitError_def)
qed

lemma put_writes: "txPut k v t = (None, t1) \<Longrightarrow> writes t1 \<noteq> fmempty"
  by (auto simp: txPut_def split: if_splits)

lemma del_writes: "txDel k t = (None, t1) \<Longrightarrow> writes t1 \<noteq> fmempty"
  by (auto simp: txDel_def split: if_splits)

end
