(* ===== verification/SqlIndex.thy ===== *)
theory SqlIndex
  imports SqlStore
begin

text \<open>
  What the caches of the SQL layer have to do with the stored data. The content of the store is a map
  \<open>m\<close> from keys to bytes. \<open>rowsOk\<close> says that what is stored under the row keys of a table are rows
  of that table; \<open>pkOk\<close> that a B+tree is the primary-key index of a table; \<open>secOk\<close> that a secondary
  index holds exactly the rows that have a value for it. The lemmas show how each of them survives the
  insertion, the removal and the replacement of one row, and of a list of rows.
\<close>

section \<open>Well-formed tables, rows and index definitions\<close>

definition valueOk :: "golib \<Rightarrow> colType \<Rightarrow> sqlval \<Rightarrow> bool" where
  "valueOk L typ v \<longleftrightarrow>
     normValue v = v
     \<and> (vNull v \<or> vTyp v = typ \<and> (typ = TypeJSON \<longrightarrow> (\<exists>a n. readJSONBin (vBlob v) 0 = Inr (a, n) \<and> allFinite a)))"

definition tableOk :: "golib \<Rightarrow> string \<Rightarrow> TableDef \<Rightarrow> bool" where
  "tableOk L n def \<longleftrightarrow>
     tblName def = n \<and> CHR ''/'' \<notin> set n \<and> normalizeName L n = n \<and> tableTextOk def
     \<and> normalizeColumns L (tblColumns def) = tblColumns def
     \<and> list_all (\<lambda>c. colTyp c \<in> {TypeInteger, TypeText, TypeBlob, TypeJSON}) (tblColumns def)
     \<and> (\<exists>c i. pkColumn def = Inr (c, i) \<and> colTyp c \<in> {TypeInteger, TypeText} \<and> columnIndex L def (colName c) = Inr i)"

definition rowOk :: "golib \<Rightarrow> TableDef \<Rightarrow> string \<Rightarrow> sqlval list \<Rightarrow> bool" where
  \<comment> \<open>values that fit the columns, stored under the encoding of their primary key\<close>
  "rowOk L def enc vals \<longleftrightarrow>
     list_all2 (\<lambda>c v. valueOk L (colTyp c) v) (tblColumns def) vals
     \<and> (\<forall>c i. pkColumn def = Inr (c, i) \<longrightarrow> \<not> vNull (vals ! i) \<and> enc = pkEncode (pkOfValue (colTyp c) (vals ! i)))"

definition ixOk :: "golib \<Rightarrow> TableDef \<Rightarrow> IndexDef \<Rightarrow> bool" where
  "ixOk L def ix \<longleftrightarrow>
     ixTable ix = tblName def \<and> indexTextOk ix \<and> normalizeIndex L ix = ix
     \<and> (\<exists>ci. columnIndex L def (ixColumn ix) = Inr ci
          \<and> (if ixPath ix = [] then colTyp (tblColumns def ! ci) \<in> {TypeInteger, TypeText}
             else colTyp (tblColumns def ! ci) = TypeJSON \<and> (\<exists>segs. parseJSONPath L (ixPath ix) = Inr segs)))"

lemma find_upt_Some:
  assumes "List.find P [0..<n] = Some i"
  shows "i < n" "P i"
  using assms by (auto simp: find_Some_iff)

lemma columnIndex_bound: "columnIndex L def name = Inr ci \<Longrightarrow> ci < length (tblColumns def)"
  by (auto simp: columnIndex_def find_Some_iff split: option.splits)

lemma pkColumn_Inr:
  assumes "pkColumn def = Inr (c, i)"
  shows "i < length (tblColumns def)" "tblColumns def ! i = c" "colPK c"
  using assms by (auto simp: pkColumn_def find_Some_iff split: option.splits)

lemma rowOk_lengths: "rowOk L def enc vals \<Longrightarrow> length vals = length (tblColumns def)"
  by (auto simp: rowOk_def dest: list_all2_lengthD)

lemma rowOk_value:
  "rowOk L def enc vals \<Longrightarrow> i < length (tblColumns def) \<Longrightarrow> valueOk L (colTyp (tblColumns def ! i)) (vals ! i)"
  by (auto simp: rowOk_def list_all2_conv_all_nth)

lemma valueOk_cases:
  assumes "valueOk L typ v" "typ \<in> {TypeInteger, TypeText, TypeBlob, TypeJSON}"
  obtains "v = nullValue" | "typ = TypeInteger" "v = intValue (vInt v)" | "typ = TypeText" "v = textValue (vText v)"
  | "typ = TypeBlob" "v = zeroValue\<lparr>vTyp := TypeBlob, vBlob := vBlob v\<rparr>"
  | "typ = TypeJSON" "v = zeroValue\<lparr>vTyp := TypeJSON, vBlob := vBlob v\<rparr>"
  using assms by (auto simp: valueOk_def normValue_def split: if_splits)


section \<open>Primary keys\<close>

lemma pkKeyFromEncoded_encode:
  "pkKeyFromEncoded (pkEncode k) = Inr (if isInt k then pkFromInt (pkI k) else pkFromString (pkS k))"
  by (simp add: pkKeyFromEncoded_def pkEncode_def)

lemma pkEncode_pkv: "pkEncode k = pkEncode k' \<longleftrightarrow> pkv k = pkv k'"
proof -
  have "pkv (if isInt j then pkFromInt (pkI j) else pkFromString (pkS j)) = pkv j" for j
    by (simp add: pkv_def pkFromInt_def pkFromString_def)
  then have "pkEncode k = pkEncode k' \<Longrightarrow> pkv k = pkv k'"
    using pkKeyFromEncoded_encode [of k] pkKeyFromEncoded_encode [of k'] by (metis sum.inject(2))
  moreover have "pkv k = pkv k' \<Longrightarrow> pkEncode k = pkEncode k'"
    by (auto simp: pkv_def pkEncode_def dest: signed_word_eqI split: if_splits)
  ultimately show ?thesis by blast
qed

lemma pkOfValue_canonical:
  "typ \<in> {TypeInteger, TypeText} \<Longrightarrow> pkKeyFromEncoded (pkEncode (pkOfValue typ v)) = Inr (pkOfValue typ v)"
  by (auto simp: pkKeyFromEncoded_encode pkOfValue_def pkFromInt_def pkFromString_def)

lemma formatPK_same_kind: "isInt k = isInt k' \<Longrightarrow> formatPK k = formatPK k' \<Longrightarrow> pkv k = pkv k'"
  by (auto simp: formatPK_def pkv_def formatInt_inj split: if_splits)

lemma rowOk_pk:
  assumes "tableOk L n def" "rowOk L def enc vals"
  obtains c i k where "pkColumn def = Inr (c, i)" "colTyp c \<in> {TypeInteger, TypeText}" "k = pkOfValue (colTyp c) (vals ! i)"
    "enc = pkEncode k" "pkKeyFromEncoded enc = Inr k" "isInt k = (colTyp c = TypeInteger)"
proof -
  from assms(1) obtain c i where c: "pkColumn def = Inr (c, i)" "colTyp c \<in> {TypeInteger, TypeText}"
    by (auto simp: tableOk_def)
  let ?k = "pkOfValue (colTyp c) (vals ! i)"
  have "enc = pkEncode ?k" using assms(2) c(1) by (simp add: rowOk_def)
  moreover have "isInt ?k = (colTyp c = TypeInteger)"
    using c(2) by (auto simp: pkOfValue_def pkFromInt_def pkFromString_def)
  ultimately show thesis using that [OF c refl] pkOfValue_canonical [OF c(2)] by simp
qed


section \<open>Rows of a table\<close>

definition rowsOk :: "golib \<Rightarrow> (string \<rightharpoonup> bytes) \<Rightarrow> TableDef \<Rightarrow> bool" where
  "rowsOk L m def \<longleftrightarrow>
     (\<forall>enc raw. m (rowKey (tblName def) enc) = Some raw \<longrightarrow> (\<exists>vals. unpackRow raw = Inr vals \<and> rowOk L def enc vals))"

definition stored :: "(string \<rightharpoonup> bytes) \<Rightarrow> TableDef \<Rightarrow> string \<Rightarrow> sqlval list \<Rightarrow> bool" where
  \<comment> \<open>the table holds this row under this key\<close>
  "stored m def enc vals \<longleftrightarrow> (\<exists>raw. m (rowKey (tblName def) enc) = Some raw \<and> unpackRow raw = Inr vals)"

lemma rowKey_inj [simp]: "rowKey n a = rowKey n b \<longleftrightarrow> a = b"
  by (simp add: rowKey_split)

lemma stored_ok: "rowsOk L m def \<Longrightarrow> stored m def enc vals \<Longrightarrow> rowOk L def enc vals"
  by (fastforce simp: rowsOk_def stored_def)

lemma stored_some:
  "rowsOk L m def \<Longrightarrow> m (rowKey (tblName def) enc) \<noteq> None \<longleftrightarrow> (\<exists>vals. stored m def enc vals)"
  by (fastforce simp: rowsOk_def stored_def)

lemma stored_unique: "stored m def enc vals \<Longrightarrow> stored m def enc vals' \<Longrightarrow> vals = vals'"
  by (auto simp: stored_def)

lemma stored_put:
  "unpackRow raw = Inr vals \<Longrightarrow>
   stored (m(rowKey (tblName def) enc \<mapsto> raw)) def e v \<longleftrightarrow> (if e = enc then v = vals else stored m def e v)"
  by (auto simp: stored_def)

lemma stored_del: "stored (m(rowKey (tblName def) enc := None)) def e v \<longleftrightarrow> e \<noteq> enc \<and> stored m def e v"
  by (auto simp: stored_def)

lemma rowsOk_put:
  "rowsOk L m def \<Longrightarrow> unpackRow raw = Inr vals \<Longrightarrow> rowOk L def enc vals \<Longrightarrow>
   rowsOk L (m(rowKey (tblName def) enc \<mapsto> raw)) def"
  by (auto simp: rowsOk_def)

lemma rowsOk_del: "rowsOk L m def \<Longrightarrow> rowsOk L (m(rowKey (tblName def) enc := None)) def"
  by (auto simp: rowsOk_def)


section \<open>The primary-key index\<close>

definition pkOk :: "(string \<rightharpoonup> bytes) \<Rightarrow> string \<Rightarrow> btree \<Rightarrow> bool" where
  "pkOk m n tree \<longleftrightarrow>
     btInv tree
     \<and> (\<forall>k. map_of (btEntries tree) (pkv k) =
           (if m (rowKey n (pkEncode k)) = None then None else Some (rowKey n (pkEncode k))))"

lemma pkOk_empty: "(\<And>enc. m (rowKey n enc) = None) \<Longrightarrow> pkOk m n newBTree"
  by (simp add: pkOk_def newBTree_inv)

lemma pkOk_put:
  assumes "pkOk m n tree"
  obtains tree' where "btPut tree k (rowKey n (pkEncode k)) = Some tree'" "pkOk (m(rowKey n (pkEncode k) \<mapsto> raw)) n tree'"
proof -
  from assms bt.put [of tree k "rowKey n (pkEncode k)"] obtain t where t:
    "btPut tree k (rowKey n (pkEncode k)) = Some t" "btInv t"
    "map_of (btEntries t) = (map_of (btEntries tree))(pkv k \<mapsto> rowKey n (pkEncode k))"
    by (auto simp: pkOk_def)
  then have "pkOk (m(rowKey n (pkEncode k) \<mapsto> raw)) n t"
    using assms by (auto simp: pkOk_def pkEncode_pkv)
  then show thesis using that t(1) by blast
qed

lemma pkOk_del:
  assumes "pkOk m n tree"
  obtains tree' where "btDelete tree k = Some tree'" "pkOk (m(rowKey n (pkEncode k) := None)) n tree'"
proof -
  from assms bt.del [of tree k] obtain t where t:
    "btDelete tree k = Some t" "btInv t" "map_of (btEntries t) = (map_of (btEntries tree))(pkv k := None)"
    by (auto simp: pkOk_def)
  then have "pkOk (m(rowKey n (pkEncode k) := None)) n t"
    using assms by (auto simp: pkOk_def pkEncode_pkv)
  then show thesis using that t(1) by blast
qed

lemma pkOk_replace: "pkOk m n tree \<Longrightarrow> m (rowKey n enc) \<noteq> None \<Longrightarrow> pkOk (m(rowKey n enc \<mapsto> raw)) n tree"
  by (auto simp: pkOk_def)

lemma pkOk_get:
  "pkOk m n tree \<Longrightarrow> btGet tree k =
     Some (if m (rowKey n (pkEncode k)) = None then None else Some (rowKey n (pkEncode k)))"
  by (simp add: pkOk_def bt.get)


section \<open>Values in a secondary index\<close>

lemma allFinite_walk: "allFinite v \<Longrightarrow> walkPath v segs = Some w \<Longrightarrow> allFinite w"
proof (induction v segs rule: walkPath.induct)
  case (2 cur seg segs)
  show ?case
  proof (cases cur)
    case (GObj ms)
    then obtain x where x: "map_of ms seg = Some x" "walkPath x segs = Some w"
      using "2.prems"(2) by (auto split: option.splits)
    then have "allFinite x" using "2.prems"(1) GObj map_of_SomeD [OF x(1)] by (auto simp: list_all_iff)
    then show ?thesis using "2.IH" [OF GObj x(1)] x(2) by simp
  qed (use "2.prems" in simp_all)
qed simp

definition leafValue :: "sqlval \<Rightarrow> bool" where
  "leafValue x \<longleftrightarrow> (vNull x \<or> vTyp x \<in> {TypeInteger, TypeText}) \<and> normValue x = x"

lemma leafValue_simps [simp]: "leafValue nullValue" "leafValue (intValue i)" "leafValue (textValue s)"
  by (simp_all add: leafValue_def normValue_def zeroValue_def)

lemma jsonLeaf_ok: "allFinite v \<Longrightarrow> \<exists>x. jsonLeafToValue L v = Inr x \<and> leafValue x"
  by (cases v) (auto simp: jsonLeafToValue_def marshalAny_def split: option.splits)

lemma jsonExtract_ok:
  assumes "readJSONBin b 0 = Inr (a, n)" "allFinite a" "parseJSONPath L path = Inr segs"
  obtains r where "jsonExtract L b path = Inr r"
    "\<And>x. r = Some x \<Longrightarrow> leafValue x"
proof (cases "walkPath a segs")
  case None
  then show thesis using that [of None] assms by (simp add: jsonExtract_def)
next
  case (Some w)
  then obtain x where "jsonLeafToValue L w = Inr x" "leafValue x"
    using jsonLeaf_ok [of w L] allFinite_walk [OF assms(2)] by metis
  then show thesis using that [of "Some x"] assms Some by (simp add: jsonExtract_def)
qed

definition keyValue :: "sqlval \<Rightarrow> bool" where
  \<comment> \<open>a value that a secondary index can hold\<close>
  "keyValue v \<longleftrightarrow> \<not> vNull v \<and> vTyp v \<in> {TypeInteger, TypeText} \<and> normValue v = v"

lemma keyValue_prefix: "keyValue v \<Longrightarrow> keyValue w \<Longrightarrow> valuePrefix v = valuePrefix w \<longleftrightarrow> v = w"
  by (cases v; cases w) (auto simp: keyValue_def valuePrefix_def normValue_def zeroValue_def formatInt_inj split: if_splits)

lemma keyValue_equal: "keyValue v \<Longrightarrow> keyValue w \<Longrightarrow> valuesEqual v w \<longleftrightarrow> v = w"
  by (cases v; cases w) (auto simp: keyValue_def valuesEqual_def normValue_def zeroValue_def split: if_splits)

lemma valueFromRow_ok:
  assumes "ixOk L def ix" "rowOk L def enc vals"
  obtains r where "valueFromRow L ix def vals = Inr r" "\<And>v. r = Some v \<Longrightarrow> keyValue v"
proof -
  from assms(1) obtain ci where ci: "columnIndex L def (ixColumn ix) = Inr ci"
    "if ixPath ix = [] then colTyp (tblColumns def ! ci) \<in> {TypeInteger, TypeText}
     else colTyp (tblColumns def ! ci) = TypeJSON \<and> (\<exists>segs. parseJSONPath L (ixPath ix) = Inr segs)"
    by (auto simp: ixOk_def)
  then have len: "ci < length vals" using columnIndex_bound rowOk_lengths [OF assms(2)] by simp
  have v: "valueOk L (colTyp (tblColumns def ! ci)) (vals ! ci)"
    using rowOk_value [OF assms(2)] columnIndex_bound [OF ci(1)] by blast
  show thesis
  proof (cases "vNull (vals ! ci)")
    case True
    then show thesis using that [of None] ci(1) len by (simp add: valueFromRow_def Let_def)
  next
    case False
    then have ty: "vTyp (vals ! ci) = colTyp (tblColumns def ! ci)" "normValue (vals ! ci) = vals ! ci"
      using v by (simp_all add: valueOk_def)
    show thesis
    proof (cases "ixPath ix = []")
      case True
      then show thesis using that [of "Some (vals ! ci)"] ci len False ty by (auto simp: valueFromRow_def Let_def keyValue_def)
    next
      case path: False
      then obtain segs where segs: "parseJSONPath L (ixPath ix) = Inr segs" and json: "vTyp (vals ! ci) = TypeJSON"
        using ci(2) ty(1) by auto
      obtain a n where "readJSONBin (vBlob (vals ! ci)) 0 = Inr (a, n)" "allFinite a"
        using v False json ty(1) by (auto simp: valueOk_def)
      then obtain r where r: "jsonExtract L (vBlob (vals ! ci)) (ixPath ix) = Inr r"
        "\<And>x. r = Some x \<Longrightarrow> leafValue x"
        using jsonExtract_ok [OF _ _ segs] by metis
      let ?r = "case r of None \<Rightarrow> None | Some x \<Rightarrow> if vNull x then None else Some x"
      have "valueFromRow L ix def vals = Inr ?r"
        using ci(1) len False path json r by (auto simp: valueFromRow_def Let_def indexableExtract_def leafValue_def split: option.splits)
      moreover have "keyValue v" if "?r = Some v" for v
        using that r(2) by (auto simp: keyValue_def leafValue_def split: option.splits if_splits)
      ultimately show thesis using that by blast
    qed
  qed
qed


section \<open>Secondary indexes\<close>

definition indexed :: "golib \<Rightarrow> (string \<rightharpoonup> bytes) \<Rightarrow> TableDef \<Rightarrow> IndexDef \<Rightarrow> string \<Rightarrow> string \<Rightarrow> bool" where
  \<comment> \<open>a stored row contributes this composite key with this row key\<close>
  "indexed L m def ix s rk \<longleftrightarrow>
     (\<exists>enc vals iv k. stored m def enc vals \<and> valueFromRow L ix def vals = Inr (Some iv)
        \<and> pkKeyFromEncoded enc = Inr k \<and> s = valuePrefix iv @ nul # formatPK k \<and> rk = rowKey (tblName def) enc)"

definition nulFree :: "golib \<Rightarrow> TableDef \<Rightarrow> IndexDef \<Rightarrow> sqlval list \<Rightarrow> bool" where
  \<comment> \<open>the value of a row in an index has no NUL byte\<close>
  "nulFree L def ix vals \<longleftrightarrow> (\<forall>iv. valueFromRow L ix def vals = Inr (Some iv) \<longrightarrow> nul \<notin> set (valuePrefix iv))"

definition secOk :: "golib \<Rightarrow> (string \<rightharpoonup> bytes) \<Rightarrow> TableDef \<Rightarrow> secondaryIdx \<Rightarrow> bool" where
  "secOk L m def si \<longleftrightarrow>
     btInv (siTree si) \<and> strKeys (siTree si)
     \<and> (\<forall>s rk. map_of (btEntries (siTree si)) (StrOrd s) = Some rk \<longleftrightarrow> indexed L m def (siDef si) s rk)
     \<and> (\<forall>enc vals. stored m def enc vals \<longrightarrow> nulFree L def (siDef si) vals)"

lemma split_at_nul:
  assumes "nul \<notin> set a" "nul \<notin> set b"
  shows "a @ nul # x = b @ nul # y \<longleftrightarrow> a = b \<and> x = y"
proof -
  have "takeWhile (\<lambda>c. c \<noteq> nul) (u @ nul # z) = u" if "nul \<notin> set u" for u z
    using that by (induction u) auto
  then show ?thesis using assms by (metis append_same_eq same_append_eq list.inject)
qed

text \<open>Two rows of one table have the same composite key only if they are the same row.\<close>

lemma composite_inj:
  assumes "tableOk L n def" "rowOk L def enc vals" "rowOk L def enc' vals'"
    and "pkKeyFromEncoded enc = Inr k" "pkKeyFromEncoded enc' = Inr k'"
    and "nul \<notin> set p" "nul \<notin> set p'" "p @ nul # formatPK k = p' @ nul # formatPK k'"
  shows "enc = enc' \<and> p = p'"
proof -
  obtain c i where k: "pkColumn def = Inr (c, i)" "enc = pkEncode k" "isInt k = (colTyp c = TypeInteger)"
    using rowOk_pk [OF assms(1,2)] assms(4) by (metis sum.inject(2))
  obtain c' i' where k': "pkColumn def = Inr (c', i')" "enc' = pkEncode k'" "isInt k' = (colTyp c' = TypeInteger)"
    using rowOk_pk [OF assms(1,3)] assms(5) by (metis sum.inject(2))
  have "p = p'" "formatPK k = formatPK k'" using split_at_nul [OF assms(6,7)] assms(8) by auto
  moreover have "isInt k = isInt k'" using k k' by simp
  ultimately show ?thesis using formatPK_same_kind k(2) k'(2) pkEncode_pkv by blast
qed

lemma indexed_del:
  assumes "stored m def enc vals"
  shows "indexed L (m(rowKey (tblName def) enc := None)) def ix s rk \<longleftrightarrow>
    indexed L m def ix s rk \<and> rk \<noteq> rowKey (tblName def) enc"
  unfolding indexed_def stored_del by (metis rowKey_inj)

lemma strKeys_dom: "strKeys t \<longleftrightarrow> (\<forall>a v. map_of (btEntries t) a = Some v \<longrightarrow> (\<exists>s. a = StrOrd s))"
proof -
  have "(\<exists>v. map_of (btEntries t) a = Some v) \<longleftrightarrow> (\<exists>e\<in>set (btEntries t). fst e = a)" for a
    using dom_map_of_conv_image_fst [of "btEntries t"] by (auto simp: dom_def set_eq_iff image_iff)
  then show ?thesis unfolding strKeys_def by metis
qed

lemma secOk_drop:
  assumes ok: "secOk L m def si" "rowsOk L m def" "tableOk L n def" "ixOk L def (siDef si)"
    and row: "stored m def enc vals" "pkKeyFromEncoded enc = Inr pk"
  obtains si' where "secDrop L def vals pk si = (None, si')" "siDef si' = siDef si"
    "secOk L (m(rowKey (tblName def) enc := None)) def si'"
proof -
  let ?m = "m(rowKey (tblName def) enc := None)" and ?ix = "siDef si"
  have rok: "rowOk L def enc vals" using stored_ok [OF ok(2) row(1)] .
  obtain r where r: "valueFromRow L ?ix def vals = Inr r" using valueFromRow_ok [OF ok(4) rok] by metis
  have free: "\<forall>e v. stored ?m def e v \<longrightarrow> nulFree L def ?ix v" using ok(1) by (auto simp: secOk_def stored_del)
  show thesis
  proof (cases r)
    case None
    have "rk \<noteq> rowKey (tblName def) enc" if "indexed L m def ?ix s rk" for s rk
      using that r None stored_unique [OF row(1)] by (auto simp: indexed_def)
    then have "secOk L ?m def si" using ok(1) free by (auto simp: secOk_def indexed_del [OF row(1)])
    then show thesis using that [of si] r None by (simp add: secDrop_def)
  next
    case (Some iv)
    let ?s = "valuePrefix iv @ nul # formatPK pk"
    have inv: "btInv (siTree si)" using ok(1) by (simp add: secOk_def)
    obtain t where t: "btDelete (siTree si) (compositeKey iv pk) = Some t" "btInv t"
      "map_of (btEntries t) = (map_of (btEntries (siTree si)))(StrOrd ?s := None)"
      using bt.del [OF inv, of "compositeKey iv pk"] by (auto simp: compositeKey_def pkFromString_def pkv_def)
    have key: "s = ?s \<longleftrightarrow> rk = rowKey (tblName def) enc" if ind: "indexed L m def ?ix s rk" for s rk
    proof -
      from ind obtain e v w k where e: "stored m def e v" "valueFromRow L ?ix def v = Inr (Some w)"
        "pkKeyFromEncoded e = Inr k" "s = valuePrefix w @ nul # formatPK k" "rk = rowKey (tblName def) e"
        by (auto simp: indexed_def)
      have nf: "nul \<notin> set (valuePrefix w)" "nul \<notin> set (valuePrefix iv)"
        using ok(1) e(1,2) row(1) r Some by (auto simp: secOk_def nulFree_def)
      have "e = enc" if "s = ?s"
        using composite_inj [OF ok(3) stored_ok [OF ok(2) e(1)] rok e(3) row(2) nf] e(4) that by (simp only: simp_thms)
      moreover have "s = ?s" if "e = enc"
      proof -
        have "v = vals" using stored_unique [of m def enc v vals] e(1) row(1) that by simp
        then show ?thesis using e(2-4) row(2) r Some that by simp
      qed
      moreover have "rk = rowKey (tblName def) enc \<longleftrightarrow> e = enc" using e(5) by simp
      ultimately show ?thesis by blast
    qed
    have "strKeys t" using ok(1) t(3) by (auto simp: secOk_def strKeys_dom split: if_splits)
    moreover have "map_of (btEntries t) (StrOrd s) = Some rk \<longleftrightarrow> indexed L ?m def ?ix s rk" for s rk
    proof -
      have "map_of (btEntries (siTree si)) (StrOrd s) = Some rk \<longleftrightarrow> indexed L m def ?ix s rk"
        using ok(1) by (simp add: secOk_def)
      then show ?thesis using key [of s rk] t(3) by (auto simp: indexed_del [OF row(1)])
    qed
    ultimately have "secOk L ?m def (si\<lparr>siTree := t\<rparr>)" using free t(2) unfolding secOk_def by simp
    then show thesis using that [of "si\<lparr>siTree := t\<rparr>"] r Some t(1) by (simp add: secDrop_def secRemove_def)
  qed
qed

lemma indexed_put:
  assumes "m (rowKey (tblName def) enc) = None" "unpackRow raw = Inr vals" "pkKeyFromEncoded enc = Inr pk"
  shows "indexed L (m(rowKey (tblName def) enc \<mapsto> raw)) def ix s rk \<longleftrightarrow>
    indexed L m def ix s rk
    \<or> (\<exists>iv. valueFromRow L ix def vals = Inr (Some iv) \<and> s = valuePrefix iv @ nul # formatPK pk \<and> rk = rowKey (tblName def) enc)"
proof -
  have "\<not> stored m def enc v" for v using assms(1) by (simp add: stored_def)
  then show ?thesis unfolding indexed_def stored_put [OF assms(2)] using assms(3) by (smt (verit) sum.inject(2))
qed

lemma secOk_add:
  assumes ok: "secOk L m def si" "rowsOk L m def" "tableOk L n def" "ixOk L def (siDef si)"
    and row: "m (rowKey (tblName def) enc) = None" "unpackRow raw = Inr vals" "rowOk L def enc vals"
      "pkKeyFromEncoded enc = Inr pk" "nulFree L def (siDef si) vals"
  obtains si' where "secAdd L def vals pk (rowKey (tblName def) enc) si = (None, si')" "siDef si' = siDef si"
    "secOk L (m(rowKey (tblName def) enc \<mapsto> raw)) def si'"
proof -
  let ?m = "m(rowKey (tblName def) enc \<mapsto> raw)" and ?ix = "siDef si"
  obtain r where r: "valueFromRow L ?ix def vals = Inr r" using valueFromRow_ok [OF ok(4) row(3)] by metis
  have free: "\<forall>e v. stored ?m def e v \<longrightarrow> nulFree L def ?ix v"
    using ok(1) row(5) by (simp add: secOk_def stored_put [OF row(2)])
  note ind = indexed_put [of m def enc raw vals pk L ?ix, OF row(1,2,4)]
  show thesis
  proof (cases r)
    case None
    then have "secOk L ?m def si" using ok(1) free r by (simp add: secOk_def ind)
    then show thesis using that [of si] r None by (simp add: secAdd_def)
  next
    case (Some iv)
    let ?s = "valuePrefix iv @ nul # formatPK pk"
    have inv: "btInv (siTree si)" using ok(1) by (simp add: secOk_def)
    obtain t where t: "btPut (siTree si) (compositeKey iv pk) (rowKey (tblName def) enc) = Some t" "btInv t"
      "map_of (btEntries t) = (map_of (btEntries (siTree si)))(StrOrd ?s \<mapsto> rowKey (tblName def) enc)"
      using bt.put [OF inv, of "compositeKey iv pk"] by (auto simp: compositeKey_def pkFromString_def pkv_def)
    have key: "\<not> indexed L m def ?ix ?s rk" for rk
    proof
      assume "indexed L m def ?ix ?s rk"
      then obtain e v w k where e: "stored m def e v" "valueFromRow L ?ix def v = Inr (Some w)"
        "pkKeyFromEncoded e = Inr k" "?s = valuePrefix w @ nul # formatPK k"
        by (auto simp: indexed_def)
      have nf: "nul \<notin> set (valuePrefix iv)" "nul \<notin> set (valuePrefix w)"
        using ok(1) e(1,2) row(5) r Some by (auto simp: secOk_def nulFree_def)
      have "enc = e"
        using composite_inj [OF ok(3) row(3) stored_ok [OF ok(2) e(1)] row(4) e(3) nf] e(4) by (simp only: simp_thms)
      then show False using e(1) row(1) by (simp add: stored_def)
    qed
    have "strKeys t" using ok(1) t(3) by (auto simp: secOk_def strKeys_dom split: if_splits)
    moreover have "map_of (btEntries t) (StrOrd s) = Some rk \<longleftrightarrow> indexed L ?m def ?ix s rk" for s rk
      using ok(1) r Some t(3) key unfolding secOk_def ind by auto
    ultimately have "secOk L ?m def (si\<lparr>siTree := t\<rparr>)"
      using free t(2) unfolding secOk_def by simp
    then show thesis using that [of "si\<lparr>siTree := t\<rparr>"] r Some t(1) by (simp add: secAdd_def secInsert_def)
  qed
qed

lemma secOk_replace:
  assumes ok: "secOk L m def si" "rowsOk L m def" "tableOk L n def" "ixOk L def (siDef si)"
    and old: "stored m def enc vals" "pkKeyFromEncoded enc = Inr pk"
    and new: "unpackRow raw = Inr vals'" "rowOk L def enc vals'" "nulFree L def (siDef si) vals'"
  obtains si' where "secReplace L def vals vals' pk (rowKey (tblName def) enc) si = (None, si')" "siDef si' = siDef si"
    "secOk L (m(rowKey (tblName def) enc \<mapsto> raw)) def si'"
proof -
  let ?k = "rowKey (tblName def) enc"
  obtain s1 where s1: "secDrop L def vals pk si = (None, s1)" "siDef s1 = siDef si" "secOk L (m(?k := None)) def s1"
    using secOk_drop [OF ok old] .
  obtain s2 where s2: "secAdd L def vals' pk ?k s1 = (None, s2)" "siDef s2 = siDef s1"
    "secOk L ((m(?k := None))(?k \<mapsto> raw)) def s2"
    using secOk_add [OF s1(3) rowsOk_del [OF ok(2)] ok(3), of enc raw vals' pk] ok(4) s1(2) new old(2) by auto
  obtain r where "valueFromRow L (siDef si) def vals = Inr r"
    using valueFromRow_ok [OF ok(4) stored_ok [OF ok(2) old(1)]] by metis
  moreover obtain r' where "valueFromRow L (siDef si) def vals' = Inr r'" using valueFromRow_ok [OF ok(4) new(2)] by metis
  ultimately show thesis using that [of s2] s1 s2 by (simp add: secReplace_def)
qed

lemma secOk_empty:
  assumes "\<And>enc. m (rowKey (tblName def) enc) = None"
  shows "secOk L m def (newSecondaryIdx ix)"
  using assms by (simp add: secOk_def newSecondaryIdx_def newBTree_inv strKeys_def indexed_def stored_def)

end
