(* ===== verification/SqlQuery.thy ===== *)
theory SqlQuery
  imports SqlIndex
begin

text \<open>
  How a statement finds its rows. \<open>sqlInv\<close> relates the caches of the SQL layer to the content of the
  store. Under it \<open>collectRows\<close>, whichever way it takes (the primary-key index, a secondary index or
  the scan of the table), returns each stored row that satisfies the predicates exactly once.
\<close>

section \<open>The invariant of the SQL layer\<close>

definition tableState :: "golib \<Rightarrow> (string \<rightharpoonup> bytes) \<Rightarrow> string \<Rightarrow> TableDef \<Rightarrow> btree option \<Rightarrow> bool" where
  "tableState L m n def tree \<longleftrightarrow> tableOk L n def \<and> rowsOk L m def \<and> (\<exists>t. tree = Some t \<and> pkOk m n t)"

definition indexState :: "golib \<Rightarrow> (string \<rightharpoonup> bytes) \<Rightarrow> (string, TableDef) fmap \<Rightarrow> string \<Rightarrow> secondaryIdx \<Rightarrow> bool" where
  "indexState L m tbls i si \<longleftrightarrow>
     ixName (siDef si) = i
     \<and> (\<exists>def. fmlookup tbls (ixTable (siDef si)) = Some def \<and> ixOk L def (siDef si) \<and> secOk L m def si)"

definition sqlInv :: "golib \<Rightarrow> sqldb \<Rightarrow> bool" where
  "sqlInv L d \<longleftrightarrow>
     (\<forall>n. current d (catalogTableKey n) = map_option marshalTable (fmlookup (tables d) n))
     \<and> (\<forall>i. current d (catalogIndexKey i) = map_option (marshalIndex \<circ> siDef) (fmlookup (secIndexes d) i))
     \<and> (\<forall>n def. fmlookup (tables d) n = Some def \<longrightarrow> tableState L (current d) n def (fmlookup (indexes d) n))
     \<and> (\<forall>n enc. fmlookup (tables d) n = None \<longrightarrow> CHR ''/'' \<notin> set n \<longrightarrow> current d (rowKey n enc) = None)
     \<and> (\<forall>i si. fmlookup (secIndexes d) i = Some si \<longrightarrow> indexState L (current d) (tables d) i si)"

lemma sqlInv_table:
  assumes "sqlInv L d" "fmlookup (tables d) n = Some def"
  obtains tree where "tableOk L n def" "rowsOk L (current d) def" "fmlookup (indexes d) n = Some tree"
    "pkOk (current d) n tree" "tblName def = n"
proof -
  have "tableState L (current d) n def (fmlookup (indexes d) n)" using assms unfolding sqlInv_def by blast
  then show thesis using that by (auto simp: tableState_def tableOk_def)
qed

lemma sqlInv_index:
  assumes "sqlInv L d" "fmlookup (secIndexes d) i = Some si"
  obtains def where "fmlookup (tables d) (ixTable (siDef si)) = Some def" "ixOk L def (siDef si)"
    "secOk L (current d) def si" "ixName (siDef si) = i"
proof -
  have "indexState L (current d) (tables d) i si" using assms unfolding sqlInv_def by blast
  then show thesis using that by (auto simp: indexState_def)
qed

lemma sqlInv_quiet:
  assumes "quiet d d'" "sqlInv L d"
  shows "sqlInv L d'"
  using quiet_current [OF assms(1)] quiet_sql [OF assms(1)] assms(2) by (simp add: sqlInv_def)


section \<open>The rows of a table\<close>

definition rowAt :: "(string \<rightharpoonup> bytes) \<Rightarrow> TableDef \<Rightarrow> string \<Rightarrow> rowItem" where
  \<comment> \<open>the row stored under a row key\<close>
  "rowAt m def k =
     \<lparr>riPk = projr (pkKeyFromEncoded (the (parseRowKey (tblName def) k))), riKey = k,
      riValues = projr (unpackRow (the (m k)))\<rparr>"

definition liveRows :: "(string \<rightharpoonup> bytes) \<Rightarrow> TableDef \<Rightarrow> string set" where
  "liveRows m def = {k. prefix (rowKeyPrefix (tblName def)) k \<and> m k \<noteq> None}"

definition hit :: "golib \<Rightarrow> (string \<rightharpoonup> bytes) \<Rightarrow> TableDef \<Rightarrow> pred list \<Rightarrow> string \<Rightarrow> bool" where
  "hit L m def whr k \<longleftrightarrow> matchWhere L def (riValues (rowAt m def k)) whr = Inr True"

lemma liveRows_cases:
  assumes "k \<in> liveRows m def" "rowsOk L m def" "tableOk L n def"
  obtains enc raw vals pk where "k = rowKey (tblName def) enc" "m k = Some raw" "unpackRow raw = Inr vals"
    "rowOk L def enc vals" "pkKeyFromEncoded enc = Inr pk" "enc = pkEncode pk" "stored m def enc vals"
    "rowAt m def k = \<lparr>riPk = pk, riKey = k, riValues = vals\<rparr>"
proof -
  from assms(1) obtain enc raw where k: "k = rowKey (tblName def) enc" "m k = Some raw"
    by (auto simp: liveRows_def rowKey_split prefix_def)
  then obtain vals where v: "unpackRow raw = Inr vals" "rowOk L def enc vals" using assms(2) by (auto simp: rowsOk_def)
  obtain pk where "enc = pkEncode pk" "pkKeyFromEncoded enc = Inr pk" using rowOk_pk [OF assms(3) v(2)] by metis
  then show thesis using that [OF k v] k v by (simp add: rowAt_def stored_def)
qed

lemma liveRows_rowKey: "rowKey (tblName def) enc \<in> liveRows m def \<longleftrightarrow> m (rowKey (tblName def) enc) \<noteq> None"
  by (simp add: liveRows_def rowKey_split)

lemma rowAt_key [simp]: "riKey (rowAt m def k) = k"
  by (simp add: rowAt_def)

lemma rowAt_inj: "inj_on (rowAt m def) A"
  by (metis inj_onI rowAt_key)


section \<open>The scan of a table\<close>

definition whereTotal :: "golib \<Rightarrow> TableDef \<Rightarrow> pred list \<Rightarrow> bool" where
  \<comment> \<open>the predicates can be evaluated on every row of the table\<close>
  "whereTotal L def whr \<longleftrightarrow> (\<forall>enc vals. rowOk L def enc vals \<longrightarrow> (\<exists>b. matchWhere L def vals whr = Inr b))"

definition predTotal :: "golib \<Rightarrow> pred \<Rightarrow> bool" where
  "predTotal L w \<longleftrightarrow>
     (case w of
        PredColumn col e \<Rightarrow> True
      | PredExtract col path e \<Rightarrow>
          (\<exists>segs. parseJSONPath L path = Inr segs) \<and> (\<exists>v. predValueForExtract e = Inr v))"

lemma ex_bool: "Ex Not" "\<exists>b. b"
  by auto

lemma whereTotalI:
  assumes "tableOk L n def" "list_all (predTotal L) whr"
  shows "whereTotal L def whr"
proof -
  have "\<exists>b. matchWhere L def vals whr = Inr b" if row: "rowOk L def enc vals" for enc vals
    using assms(2)
  proof (induction whr)
    case (Cons w ws)
    then have IH: "\<exists>b. matchWhere L def vals ws = Inr b" and w: "predTotal L w" by simp_all
    note len = rowOk_lengths [OF row] columnIndex_bound
    show ?case
    proof (cases w)
      case (PredColumn col e)
      then show ?thesis using IH len ex_bool by (simp add: nthRes_def split: sum.split)
    next
      case (PredExtract col path e)
      then obtain segs v where pe: "parseJSONPath L path = Inr segs" "predValueForExtract e = Inr v"
        using w by (auto simp: predTotal_def)
      have ex: "\<exists>r. jsonExtract L (vBlob (vals ! ci)) path = Inr r"
        if ci: "columnIndex L def (normalizeName L col) = Inr ci" "\<not> vNull (vals ! ci)" "vTyp (vals ! ci) = TypeJSON" for ci
      proof -
        have "valueOk L (colTyp (tblColumns def ! ci)) (vals ! ci)"
          using rowOk_value [OF row] columnIndex_bound [OF ci(1)] by blast
        then obtain a n where "readJSONBin (vBlob (vals ! ci)) 0 = Inr (a, n)" "allFinite a"
          using ci(2,3) by (auto simp: valueOk_def)
        then show ?thesis using jsonExtract_ok [OF _ _ pe(1)] by metis
      qed
      show ?thesis
      proof (cases "columnIndex L def (normalizeName L col)")
        case (Inr ci)
        then have "nthRes vals ci = Inr (vals ! ci)" using len by (simp add: nthRes_def)
        then show ?thesis using IH pe PredExtract Inr ex [OF Inr] by (auto simp: ex_bool split: option.split)
      qed (simp add: PredExtract ex_bool)
    qed
  qed auto
  then show ?thesis by (simp add: whereTotal_def)
qed

lemma scanRows_hits:
  assumes ok: "rowsOk L m def" "tableOk L n def" and total: "whereTotal L def whr"
  shows "set ks \<subseteq> liveRows m def \<Longrightarrow>
    scanRows L def whr (map (\<lambda>k. (k, the (m k))) ks) = Inr (map (rowAt m def) (filter (hit L m def whr) ks))"
proof (induction ks)
  case (Cons k ks)
  then have "k \<in> liveRows m def" by simp
  then obtain enc raw vals pk where k: "k = rowKey (tblName def) enc" "m k = Some raw" "unpackRow raw = Inr vals"
    "rowOk L def enc vals" "pkKeyFromEncoded enc = Inr pk" "rowAt m def k = \<lparr>riPk = pk, riKey = k, riValues = vals\<rparr>"
    by (rule liveRows_cases [OF _ ok])
  obtain b where b: "matchWhere L def vals whr = Inr b" using total k(4) by (auto simp: whereTotal_def)
  then have "hit L m def whr k = b" by (simp add: hit_def k(6))
  then show ?case using Cons k b by simp
qed simp

lemma tableScan_spec:
  assumes inv: "sqlInv L d" "fmlookup (tables d) n = Some def"
    and t: "openTx wr d t" "writes t = fmempty" and total: "whereTotal L def whr"
  obtains ks d' where "tableScan L def whr t d = (Inr (map (rowAt (current d) def) ks), d')" "quiet d d'" "distinct ks"
    "set ks = {k \<in> liveRows (current d) def. hit L (current d) def whr k}"
proof -
  have rok: "rowsOk L (current d) def" and tok: "tableOk L n def" using inv by (auto elim: sqlInv_table)
  have v: "viewOf t d = current d" using openTx_view [OF t(1)] t(2) by simp
  have cl: "\<not> txClosed t" using t(1) by (simp add: openTx_def)
  obtain ks where ks: "distinct ks" "\<And>k. k \<in> set ks \<longleftrightarrow> prefix (rowKeyPrefix (tblName def)) k \<and> viewOf t d k \<noteq> None"
    "fst (scanPrefix (rowKeyPrefix (tblName def)) t d) = map (\<lambda>k. (k, the (viewOf t d k))) ks"
    using scan_result [OF cl, of "rowKeyPrefix (tblName def)" d] by metis
  have set: "set ks = liveRows (current d) def" using ks(2) v by (auto simp: liveRows_def)
  obtain p d' where p: "scanPrefix (rowKeyPrefix (tblName def)) t d = (p, d')" by fastforce
  have "quiet d d'" using scanPrefix_quiet [of d "rowKeyPrefix (tblName def)" t] p by simp
  moreover have "scanRows L def whr p = Inr (map (rowAt (current d) def) (filter (hit L (current d) def whr) ks))"
    using scanRows_hits [OF rok tok total, of ks] set ks(3) p v by simp
  ultimately show thesis using that [of "filter (hit L (current d) def whr) ks" d'] p ks(1) set by (simp add: tableScan_def)
qed


section \<open>The primary-key index\<close>

definition predOk :: "golib \<Rightarrow> TableDef \<Rightarrow> pred \<Rightarrow> bool" where
  \<comment> \<open>a predicate whose literal fits what it is compared with, is not NULL and has no NUL byte\<close>
  "predOk L def w \<longleftrightarrow>
     predTotal L w
     \<and> (case w of
          PredColumn col e \<Rightarrow>
            (\<exists>ci v. columnIndex L def (normalizeName L col) = Inr ci
               \<and> exprToValue L e (colTyp (tblColumns def ! ci)) = Inr v \<and> \<not> vNull v \<and> nul \<notin> set (valuePrefix v))
        | PredExtract col path e \<Rightarrow>
            (\<exists>v. predValueForExtract e = Inr v \<and> \<not> vNull v \<and> nul \<notin> set (valuePrefix v)))"

lemma exprToValue_ok:
  assumes "exprToValue L e typ = Inr v"
  shows "vNull v \<or> vTyp v = typ \<and> normValue v = v" "vNull v \<Longrightarrow> v = zeroValue\<lparr>vTyp := typ, vNull := True\<rparr>"
  using assms by (auto simp: exprToValue_def normValue_def zeroValue_def ebind_def split: if_splits expr.splits sum.splits)

lemma exprToValue_key:
  "exprToValue L e typ = Inr v \<Longrightarrow> \<not> vNull v \<Longrightarrow> typ \<in> {TypeInteger, TypeText} \<Longrightarrow> keyValue v \<and> vTyp v = typ"
  using exprToValue_ok(1) [of L e _ v] by (auto simp: keyValue_def)

lemma keyValue_pk:
  assumes "keyValue v" "keyValue w" "vTyp v = vTyp w"
  shows "pkEncode (pkOfValue (vTyp w) v) = pkEncode (pkOfValue (vTyp w) w) \<longleftrightarrow> v = w"
  using assms unfolding pkEncode_pkv
  by (cases v; cases w) (auto simp: keyValue_def normValue_def zeroValue_def pkOfValue_def pkv_def pkFromInt_def pkFromString_def
      dest: signed_word_eqI split: if_splits)

lemma rowOk_key:
  assumes "rowOk L def enc vals" "pkColumn def = Inr (c, i)" "colTyp c \<in> {TypeInteger, TypeText}"
  shows "keyValue (vals ! i)" "vTyp (vals ! i) = colTyp c" "enc = pkEncode (pkOfValue (colTyp c) (vals ! i))"
proof -
  have "valueOk L (colTyp c) (vals ! i)" using rowOk_value [OF assms(1)] pkColumn_Inr [OF assms(2)] by metis
  moreover have "\<not> vNull (vals ! i)" "enc = pkEncode (pkOfValue (colTyp c) (vals ! i))"
    using assms(1,2) by (auto simp: rowOk_def)
  ultimately show "keyValue (vals ! i)" "vTyp (vals ! i) = colTyp c" "enc = pkEncode (pkOfValue (colTyp c) (vals ! i))"
    using assms(3) by (auto simp: valueOk_def keyValue_def)
qed

lemma rowByKey_get:
  assumes inv: "sqlInv L d" "fmlookup (tables d) n = Some def" and t: "openTx wr d t" "writes t = fmempty"
    and pk: "pkColumn def = Inr (c, i)" and v: "exprToValue L e (colTyp c) = Inr v"
    and rk: "rk = rowKey n (pkEncode (pkOfValue (colTyp c) v))"
  obtains d' where "rowByKey L def c e t d = (Inr (map (rowAt (current d) def) (if current d rk = None then [] else [rk])), d')"
    "quiet d d'"
proof -
  let ?m = "current d" and ?k = "pkOfValue (colTyp c) v"
  obtain tree where tb: "tableOk L n def" "rowsOk L ?m def" "fmlookup (indexes d) n = Some tree" "pkOk ?m n tree" "tblName def = n"
    using sqlInv_table [OF inv] .
  have ty: "colTyp c \<in> {TypeInteger, TypeText}" using tb(1) pk by (auto simp: tableOk_def)
  have g: "btGet tree ?k = Some (if ?m rk = None then None else Some rk)" using pkOk_get [OF tb(4)] rk by simp
  have get: "txGet rk t d = (?m rk, d\<lparr>reads := reads d + 1\<rparr>)" using openTx_get [OF t(1)] t(2) by simp
  show thesis
  proof (cases "?m rk")
    case None
    then show thesis using that [of d] v tb(3,5) g by (simp add: rowByKey_def Let_def)
  next
    case (Some raw)
    then have "rk \<in> liveRows ?m def" using liveRows_rowKey [of def "pkEncode ?k" ?m] tb(5) rk by simp
    then obtain vals where "unpackRow raw = Inr vals" "rowAt ?m def rk = \<lparr>riPk = ?k, riKey = rk, riValues = vals\<rparr>"
    proof (rule liveRows_cases [OF _ tb(2,1)])
      fix enc raw' vals pk'
      assume "rk = rowKey (tblName def) enc" "?m rk = Some raw'" "unpackRow raw' = Inr vals" "pkKeyFromEncoded enc = Inr pk'"
        "rowAt ?m def rk = \<lparr>riPk = pk', riKey = rk, riValues = vals\<rparr>"
      then show thesis using that [of vals] Some tb(5) pkOfValue_canonical [OF ty, of v] rk by simp
    qed
    then show thesis
      using that [of "d\<lparr>reads := reads d + 1\<rparr>"] v tb(3,5) g get Some by (auto simp: rowByKey_def Let_def quiet_intros)
  qed
qed

lemma pk_hits:
  assumes inv: "sqlInv L d" "fmlookup (tables d) n = Some def"
    and pk: "pkColumn def = Inr (c, i)" "normalizeName L col = colName c" and v: "exprToValue L e (colTyp c) = Inr v" "\<not> vNull v"
    and rk: "rk = rowKey n (pkEncode (pkOfValue (colTyp c) v))"
  shows "k \<in> liveRows (current d) def \<and> hit L (current d) def [PredColumn col e] k \<longleftrightarrow> k = rk \<and> current d rk \<noteq> None"
proof -
  let ?m = "current d"
  have tb: "tableOk L n def" "rowsOk L ?m def" "tblName def = n" using inv by (auto elim: sqlInv_table)
  have ty: "colTyp c \<in> {TypeInteger, TypeText}" and ci: "columnIndex L def (normalizeName L col) = Inr i"
    using tb(1) pk by (auto simp: tableOk_def)
  have ctyp: "colTyp (tblColumns def ! i) = colTyp c" using pkColumn_Inr [OF pk(1)] by simp
  have key: "keyValue v" "vTyp v = colTyp c" using exprToValue_key [OF v ty] by auto
  let ?k = "pkOfValue (colTyp c) v"
  have live: "hit L ?m def [PredColumn col e] k \<longleftrightarrow> k = rk" if lk: "k \<in> liveRows ?m def"
  proof -
    obtain enc vals where k: "k = rowKey (tblName def) enc" "rowOk L def enc vals" "riValues (rowAt ?m def k) = vals"
      using liveRows_cases [OF lk tb(2,1)] by (metis rowItem.select_convs(3))
    have len: "i < length vals" using rowOk_lengths [OF k(2)] pkColumn_Inr(1) [OF pk(1)] by simp
    note r = rowOk_key [OF k(2) pk(1) ty]
    have "hit L ?m def [PredColumn col e] k \<longleftrightarrow> vals ! i = v"
      using k(3) ci ctyp v(1) len keyValue_equal [OF r(1) key(1)] by (simp add: hit_def nthRes_def)
    also have "\<dots> \<longleftrightarrow> enc = pkEncode ?k" using keyValue_pk [OF r(1) key(1)] r(2,3) key(2) by simp
    also have "\<dots> \<longleftrightarrow> k = rk" using k(1) tb(3) rk by simp
    finally show ?thesis .
  qed
  then show ?thesis using liveRows_rowKey [of def "pkEncode ?k" ?m] tb(3) rk by auto
qed

lemma rowByKey_spec:
  assumes inv: "sqlInv L d" "fmlookup (tables d) n = Some def" and t: "openTx wr d t" "writes t = fmempty"
    and pk: "pkColumn def = Inr (c, i)" "normalizeName L col = colName c" and w: "predOk L def (PredColumn col e)"
  obtains ks d' where "rowByKey L def c e t d = (Inr (map (rowAt (current d) def) ks), d')" "quiet d d'" "distinct ks"
    "set ks = {k \<in> liveRows (current d) def. hit L (current d) def [PredColumn col e] k}"
proof -
  let ?m = "current d"
  have "tableOk L n def" using inv by (auto elim: sqlInv_table)
  then have ci: "columnIndex L def (normalizeName L col) = Inr i" using pk by (auto simp: tableOk_def)
  have ctyp: "colTyp (tblColumns def ! i) = colTyp c" using pkColumn_Inr [OF pk(1)] by simp
  obtain v where v: "exprToValue L e (colTyp c) = Inr v" "\<not> vNull v" using w ci ctyp by (auto simp: predOk_def)
  let ?rk = "rowKey n (pkEncode (pkOfValue (colTyp c) v))"
  obtain d' where "rowByKey L def c e t d = (Inr (map (rowAt ?m def) (if ?m ?rk = None then [] else [?rk])), d')" "quiet d d'"
    by (rule rowByKey_get [OF inv t pk(1) v(1) refl])
  then show thesis using that [of "if ?m ?rk = None then [] else [?rk]" d'] pk_hits [OF inv pk v refl] by auto
qed


section \<open>Secondary indexes\<close>

lemma btEntries_map: "btInv t \<Longrightarrow> (a, v) \<in> set (btEntries t) \<longleftrightarrow> map_of (btEntries t) a = Some v"
  using btEntries_sorted [of t] by (simp add: strict_sorted_iff)

lemma prefix_nul:
  "nul \<notin> set p \<Longrightarrow> nul \<notin> set q \<Longrightarrow> prefix (p @ [nul]) (q @ nul # x) \<longleftrightarrow> p = q"
  using split_at_nul [of q p x] by (auto simp: prefix_def)

lemma indexed_unique:
  "indexed L m def ix s rk \<Longrightarrow> indexed L m def ix s' rk \<Longrightarrow> s = s'"
  using stored_unique [of m def] by (fastforce simp: indexed_def)

lemma lookup_indexed:
  assumes ok: "secOk L m def si"
  obtains ks where "secLookup v si = Some (Inr ks)" "distinct ks"
    "\<forall>rk. rk \<in> set ks \<longleftrightarrow> (\<exists>s. indexed L m def (siDef si) s rk \<and> prefix (valuePrefix v @ [nul]) s)"
proof -
  let ?es = "filter (\<lambda>e. ordPrefix (valuePrefix v @ [nul]) (fst e)) (btEntries (siTree si))"
  have t: "btInv (siTree si)" "strKeys (siTree si)" using ok by (simp_all add: secOk_def)
  have mem: "e \<in> set (btEntries (siTree si)) \<longleftrightarrow> (\<exists>s rk. e = (StrOrd s, rk) \<and> indexed L m def (siDef si) s rk)" for e
  proof (cases e)
    case (Pair a rk)
    have "map_of (btEntries (siTree si)) a = Some rk \<Longrightarrow> \<exists>s. a = StrOrd s" using t(2) by (auto simp: strKeys_dom)
    then show ?thesis using ok btEntries_map [OF t(1), of a rk] Pair by (auto simp: secOk_def)
  qed
  have "distinct (map snd ?es)"
  proof -
    have "distinct (btEntries (siTree si))"
      using btEntries_sorted [OF t(1)] by (simp add: strict_sorted_iff distinct_map)
    moreover have "inj_on snd (set ?es)"
      by (rule inj_onI) (auto simp: mem dest: indexed_unique)
    ultimately show ?thesis by (simp add: distinct_map)
  qed
  moreover have "rk \<in> set (map snd ?es) \<longleftrightarrow> (\<exists>s. indexed L m def (siDef si) s rk \<and> prefix (valuePrefix v @ [nul]) s)" for rk
    by (auto simp: mem image_iff)
  ultimately show thesis using that secLookup_entries [OF t, of v] by blast
qed

lemma lookup_keys:
  assumes ok: "secOk L m def si" and v: "nul \<notin> set (valuePrefix v)"
  obtains ks where "secLookup v si = Some (Inr ks)" "distinct ks"
    "\<forall>rk. rk \<in> set ks \<longleftrightarrow> (\<exists>enc vals iv. stored m def enc vals \<and> valueFromRow L (siDef si) def vals = Inr (Some iv)
       \<and> (\<exists>k. pkKeyFromEncoded enc = Inr k) \<and> valuePrefix iv = valuePrefix v \<and> rk = rowKey (tblName def) enc)"
proof -
  have free: "nul \<notin> set (valuePrefix iv)" if "stored m def enc vals" "valueFromRow L (siDef si) def vals = Inr (Some iv)" for enc vals iv
    using ok that by (auto simp: secOk_def nulFree_def)
  have "(\<exists>s. indexed L m def (siDef si) s rk \<and> prefix (valuePrefix v @ [nul]) s) \<longleftrightarrow>
    (\<exists>enc vals iv. stored m def enc vals \<and> valueFromRow L (siDef si) def vals = Inr (Some iv)
      \<and> (\<exists>k. pkKeyFromEncoded enc = Inr k) \<and> valuePrefix iv = valuePrefix v \<and> rk = rowKey (tblName def) enc)" (is "?L \<longleftrightarrow> ?R") for rk
  proof
    assume ?L
    then show ?R unfolding indexed_def using prefix_nul [OF v] free by metis
  next
    assume ?R
    then show ?L unfolding indexed_def using prefix_nul [OF v] free by metis
  qed
  moreover obtain ks where "secLookup v si = Some (Inr ks)" "distinct ks"
    "\<forall>rk. rk \<in> set ks \<longleftrightarrow> (\<exists>s. indexed L m def (siDef si) s rk \<and> prefix (valuePrefix v @ [nul]) s)"
    by (rule lookup_indexed [OF ok])
  ultimately show thesis using that by presburger
qed

lemma fetchRows_spec:
  assumes ok: "rowsOk L (current d) def" "tableOk L n def"
  shows "openTx wr d t \<Longrightarrow> writes t = fmempty \<Longrightarrow> quiet d d1 \<Longrightarrow> set ks \<subseteq> liveRows (current d) def \<Longrightarrow>
    \<exists>d'. fetchRows def t ks d1 = (Inr (map (rowAt (current d) def) ks), d') \<and> quiet d d'"
proof (induction ks arbitrary: d1)
  case (Cons k ks)
  then have "k \<in> liveRows (current d) def" by simp
  then obtain enc raw vals pk where k: "k = rowKey (tblName def) enc" "current d k = Some raw" "unpackRow raw = Inr vals"
    "pkKeyFromEncoded enc = Inr pk" "rowAt (current d) def k = \<lparr>riPk = pk, riKey = k, riValues = vals\<rparr>"
    by (rule liveRows_cases [OF _ ok])
  let ?d = "d1\<lparr>reads := reads d1 + 1\<rparr>"
  have q: "quiet d ?d" using Cons.prems(3) quiet_fields(1) quiet_trans by blast
  have get: "txGet k t d1 = (Some raw, ?d)"
    using openTx_get [of wr d1 t k] openTx_quiet [OF Cons.prems(3)] Cons.prems(1,2) quiet_current [OF Cons.prems(3)] k(2) by simp
  obtain d' where "fetchRows def t ks ?d = (Inr (map (rowAt (current d) def) ks), d')" "quiet d d'"
    using Cons.IH [OF Cons.prems(1,2) q] Cons.prems(4) by auto
  then show ?case using get k by simp
qed simp


lemma valuesEqual_prefix:
  assumes "keyValue v" "vNull x \<or> keyValue x"
  shows "valuesEqual x v \<longleftrightarrow> \<not> vNull x \<and> valuePrefix x = valuePrefix v"
proof (cases "vNull x")
  case True
  then show ?thesis using assms(1) by (simp add: valuesEqual_def keyValue_def)
next
  case False
  then show ?thesis using assms keyValue_equal [of x v] keyValue_prefix [of x v] by simp
qed

lemma index_match_column:
  assumes ix: "ixOk L def ix" "ixPath ix = []" "ixColumn ix = normalizeName L col" and row: "rowOk L def enc vals"
    and v: "indexValue L def (PredColumn col e) = Inr v" "\<not> vNull v"
  shows "matchWhere L def vals [PredColumn col e] = Inr True \<longleftrightarrow>
    (\<exists>iv. valueFromRow L ix def vals = Inr (Some iv) \<and> valuePrefix iv = valuePrefix v)"
proof -
  obtain ci where ci: "columnIndex L def (normalizeName L col) = Inr ci"
    "exprToValue L e (colTyp (tblColumns def ! ci)) = Inr v"
    using v(1) by (auto simp: indexValue_def ebind_def split: sum.splits)
  have ty: "colTyp (tblColumns def ! ci) \<in> {TypeInteger, TypeText}" using ix ci(1) by (auto simp: ixOk_def)
  have key: "keyValue v" using exprToValue_key [OF ci(2) v(2) ty] by simp
  have len: "ci < length vals" using columnIndex_bound [OF ci(1)] rowOk_lengths [OF row] by simp
  have ok: "valueOk L (colTyp (tblColumns def ! ci)) (vals ! ci)"
    using rowOk_value [OF row] columnIndex_bound [OF ci(1)] by blast
  have "matchWhere L def vals [PredColumn col e] = Inr True \<longleftrightarrow> valuesEqual (vals ! ci) v"
    using ci len by (simp add: nthRes_def)
  also have "\<dots> \<longleftrightarrow> \<not> vNull (vals ! ci) \<and> valuePrefix (vals ! ci) = valuePrefix v"
    by (rule valuesEqual_prefix [OF key]) (use ok ty in \<open>auto simp: valueOk_def keyValue_def\<close>)
  moreover have "valueFromRow L ix def vals = Inr (if vNull (vals ! ci) then None else Some (vals ! ci))"
    using ci(1) ix(2,3) len ok ty by (auto simp: valueFromRow_def Let_def valueOk_def)
  ultimately show ?thesis by simp
qed

lemma index_match_extract:
  assumes ix: "ixOk L def ix" "ixPath ix = path" "ixColumn ix = normalizeName L col" and row: "rowOk L def enc vals"
    and v: "indexValue L def (PredExtract col path e) = Inr v" "\<not> vNull v" and segs: "parseJSONPath L path = Inr segs"
  shows "matchWhere L def vals [PredExtract col path e] = Inr True \<longleftrightarrow>
    (\<exists>iv. valueFromRow L ix def vals = Inr (Some iv) \<and> valuePrefix iv = valuePrefix v)"
proof -
  have want: "predValueForExtract e = Inr v" using v(1) by (simp add: indexValue_def)
  have path: "path \<noteq> []" using segs by (auto simp: parseJSONPath_def)
  have key: "keyValue v"
    using want v(2) by (auto simp: predValueForExtract_def keyValue_def normValue_def zeroValue_def split: expr.splits)
  obtain ci where ci: "columnIndex L def (normalizeName L col) = Inr ci" "colTyp (tblColumns def ! ci) = TypeJSON"
    using ix path by (auto simp: ixOk_def)
  have len: "ci < length vals" using columnIndex_bound [OF ci(1)] rowOk_lengths [OF row] by simp
  then have nth: "nthRes vals ci = Inr (vals ! ci)" by (simp add: nthRes_def)
  have ok: "valueOk L TypeJSON (vals ! ci)" using rowOk_value [OF row] columnIndex_bound [OF ci(1)] ci(2) by metis
  show ?thesis
  proof (cases "vNull (vals ! ci)")
    case True
    then show ?thesis using ci nth len ix(3) by (simp add: valueFromRow_def Let_def)
  next
    case False
    then obtain a n where "readJSONBin (vBlob (vals ! ci)) 0 = Inr (a, n)" "allFinite a" and json: "vTyp (vals ! ci) = TypeJSON"
      using ok by (auto simp: valueOk_def)
    then obtain r where r: "jsonExtract L (vBlob (vals ! ci)) path = Inr r" "\<And>x. r = Some x \<Longrightarrow> leafValue x"
      using jsonExtract_ok [OF _ _ segs] by metis
    have m: "matchWhere L def vals [PredExtract col path e] = Inr True \<longleftrightarrow> (\<exists>x. r = Some x \<and> valuesEqual x v)"
      using ci nth False json r(1) want by (cases r) simp_all
    have f: "valueFromRow L ix def vals = Inr (case r of None \<Rightarrow> None | Some x \<Rightarrow> if vNull x then None else Some x)"
      using ci len False json ix(2,3) path r
      by (auto simp: valueFromRow_def Let_def indexableExtract_def leafValue_def split: option.splits)
    have "valuesEqual x v \<longleftrightarrow> \<not> vNull x \<and> valuePrefix x = valuePrefix v" if "r = Some x" for x
      by (rule valuesEqual_prefix [OF key]) (use r(2) [OF that] in \<open>auto simp: leafValue_def keyValue_def\<close>)
    then show ?thesis using m f by (cases r) auto
  qed
qed

lemma index_match:
  assumes "ixOk L def (siDef si)" "usableIndex L def w si" "predOk L def w"
  obtains v where "indexValue L def w = Inr v" "nul \<notin> set (valuePrefix v)"
    "\<forall>enc vals. rowOk L def enc vals \<longrightarrow> matchWhere L def vals [w] = Inr True \<longleftrightarrow>
       (\<exists>iv. valueFromRow L (siDef si) def vals = Inr (Some iv) \<and> valuePrefix iv = valuePrefix v)"
proof -
  obtain v where v: "indexValue L def w = Inr v" "\<not> vNull v" "nul \<notin> set (valuePrefix v)"
    using assms(3) by (auto simp: predOk_def indexValue_def split: pred.splits)
  show thesis
  proof (cases w)
    case (PredColumn col e)
    then have "ixPath (siDef si) = []" "ixColumn (siDef si) = normalizeName L col"
      using assms(2) by (simp_all add: usableIndex_def)
    then show thesis using that [OF v(1,3)] index_match_column [OF assms(1)] v(1,2) PredColumn by simp
  next
    case (PredExtract col path e)
    then have ix: "ixPath (siDef si) = path" "ixColumn (siDef si) = normalizeName L col"
      using assms(2) by (simp_all add: usableIndex_def)
    obtain segs where "parseJSONPath L path = Inr segs"
      using assms(3) PredExtract by (auto simp: predOk_def predTotal_def)
    then show thesis using that [OF v(1,3)] index_match_extract [OF assms(1) ix _ _ v(2)] v(1) PredExtract by simp
  qed
qed

lemma find_in: "List.find P xs = Some x \<Longrightarrow> x \<in> set xs \<and> P x"
  by (induction xs) (auto split: if_splits)

lemma findIndex_Some:
  assumes "findIndex L def w d = Some si"
  obtains i where "fmlookup (secIndexes d) i = Some si" "usableIndex L def w si"
proof -
  have "si \<in> set (map (\<lambda>k. the (fmlookup (secIndexes d) k)) (fmkeys (secIndexes d)))" "usableIndex L def w si"
    using find_in [OF assms [unfolded findIndex_def]] by simp_all
  then show thesis using that by auto
qed

lemma rowsByIndex_spec:
  assumes inv: "sqlInv L d" "fmlookup (tables d) n = Some def" and t: "openTx wr d t" "writes t = fmempty"
    and w: "findIndex L def w d = Some si" "predOk L def w"
  obtains ks d' where "rowsByIndex L def w si t d = (Inr (map (rowAt (current d) def) ks), d')" "quiet d d'" "distinct ks"
    "set ks = {k \<in> liveRows (current d) def. hit L (current d) def [w] k}"
proof -
  let ?m = "current d"
  have tb: "tableOk L n def" "rowsOk L ?m def" "tblName def = n" using inv by (auto elim: sqlInv_table)
  obtain i where i: "fmlookup (secIndexes d) i = Some si" "usableIndex L def w si" using findIndex_Some [OF w(1)] .
  have ix: "ixOk L def (siDef si)" "secOk L ?m def si"
    using sqlInv_index [OF inv(1) i(1)] i(2) inv(2) tb(3) by (auto simp: usableIndex_def)
  obtain v where v: "indexValue L def w = Inr v" "nul \<notin> set (valuePrefix v)"
    "\<forall>enc vals. rowOk L def enc vals \<longrightarrow> matchWhere L def vals [w] = Inr True \<longleftrightarrow>
       (\<exists>iv. valueFromRow L (siDef si) def vals = Inr (Some iv) \<and> valuePrefix iv = valuePrefix v)"
    by (rule index_match [OF ix(1) i(2) w(2)])
  obtain ks where ks: "secLookup v si = Some (Inr ks)" "distinct ks"
    "\<forall>rk. rk \<in> set ks \<longleftrightarrow> (\<exists>enc vals iv. stored ?m def enc vals \<and> valueFromRow L (siDef si) def vals = Inr (Some iv)
       \<and> (\<exists>k. pkKeyFromEncoded enc = Inr k) \<and> valuePrefix iv = valuePrefix v \<and> rk = rowKey (tblName def) enc)"
    by (rule lookup_keys [OF ix(2) v(2)])
  have live: "set ks \<subseteq> liveRows ?m def" using ks(3) liveRows_rowKey [of def _ ?m] by (auto simp: stored_def)
  have "k \<in> set ks \<longleftrightarrow> hit L ?m def [w] k" if lk: "k \<in> liveRows ?m def" for k
  proof -
    obtain enc vals pk where k: "k = rowKey (tblName def) enc" "rowOk L def enc vals" "pkKeyFromEncoded enc = Inr pk"
      "stored ?m def enc vals" "riValues (rowAt ?m def k) = vals"
      using liveRows_cases [OF lk tb(2,1)] by (metis rowItem.select_convs(3))
    have "stored ?m def enc vs \<longleftrightarrow> vs = vals" for vs using k(4) stored_unique by blast
    then show ?thesis using ks(3) v(3) k unfolding hit_def k(5) by auto
  qed
  then have "set ks = {k \<in> liveRows ?m def. hit L ?m def [w] k}" using live by blast
  moreover obtain d' where "fetchRows def t ks d = (Inr (map (rowAt ?m def) ks), d')" "quiet d d'"
    using fetchRows_spec [OF tb(2,1) t quiet_refl live] by blast
  ultimately show thesis using that [of ks d'] v(1) ks(1,2) by (simp add: rowsByIndex_def)
qed


section \<open>Every way finds the same rows\<close>

lemma collectRows_spec:
  assumes inv: "sqlInv L d" "fmlookup (tables d) n = Some def" and t: "openTx wr d t" "writes t = fmempty"
    and w: "list_all (predOk L def) whr"
  obtains ks d' where "collectRows L def whr t d = (Inr (map (rowAt (current d) def) ks), d')" "quiet d d'" "distinct ks"
    "set ks = {k \<in> liveRows (current d) def. hit L (current d) def whr k}"
proof -
  have tok: "tableOk L n def" using inv by (auto elim: sqlInv_table)
  then obtain c i where pk: "pkColumn def = Inr (c, i)" by (auto simp: tableOk_def)
  have "list_all (predTotal L) whr" using w by (auto simp: list_all_iff predOk_def)
  note scan = tableScan_spec [OF inv t whereTotalI [OF tok this]]
  show thesis
  proof (cases "pkEquality L c whr")
    case (Some e)
    then obtain col where whr: "whr = [PredColumn col e]" "normalizeName L col = colName c"
      by (auto simp: pkEquality_def split: list.splits pred.splits if_splits)
    have ok: "predOk L def (PredColumn col e)" using w whr(1) by simp
    obtain ks d' where "rowByKey L def c e t d = (Inr (map (rowAt (current d) def) ks), d')" "quiet d d'" "distinct ks"
      "set ks = {k \<in> liveRows (current d) def. hit L (current d) def whr k}"
      unfolding whr(1) by (rule rowByKey_spec [OF inv t pk whr(2) ok])
    then show thesis using that [of ks d'] Some pk by (simp add: collectRows_def)
  next
    case None
    show thesis
    proof (cases "\<exists>w si. whr = [w] \<and> findIndex L def w d = Some si")
      case True
      then obtain w1 si where w1: "whr = [w1]" "findIndex L def w1 d = Some si" by blast
      have ok: "predOk L def w1" using w w1(1) by simp
      obtain ks d' where "rowsByIndex L def w1 si t d = (Inr (map (rowAt (current d) def) ks), d')" "quiet d d'" "distinct ks"
        "set ks = {k \<in> liveRows (current d) def. hit L (current d) def whr k}"
        unfolding w1(1) by (rule rowsByIndex_spec [OF inv t w1(2) ok])
      then show thesis using that [of ks d'] None pk w1 by (simp add: collectRows_def)
    next
      case False
      then have "(case whr of [w] \<Rightarrow> map_option (Pair w) (findIndex L def w d) | _ \<Rightarrow> None) = None"
        by (auto split: list.splits)
      moreover obtain ks d' where "tableScan L def whr t d = (Inr (map (rowAt (current d) def) ks), d')" "quiet d d'" "distinct ks"
        "set ks = {k \<in> liveRows (current d) def. hit L (current d) def whr k}"
        by (rule scan)
      ultimately show thesis using that [of ks d'] None pk by (simp add: collectRows_def)
    qed
  qed
qed


section \<open>Rows found are stored rows\<close>

text \<open>Whatever the predicates are, the rows that a statement works on are stored rows, each once.\<close>

definition liveItems :: "(string \<rightharpoonup> bytes) \<Rightarrow> TableDef \<Rightarrow> rowItem list res \<Rightarrow> bool" where
  "liveItems m def r \<longleftrightarrow>
     (case r of
        Inl e \<Rightarrow> True
      | Inr items \<Rightarrow> (\<exists>ks. items = map (rowAt m def) ks \<and> distinct ks \<and> set ks \<subseteq> liveRows m def))"

lemma liveItems_simps [simp, intro]:
  "liveItems m def (Inl e)"
  "distinct ks \<Longrightarrow> set ks \<subseteq> liveRows m def \<Longrightarrow> liveItems m def (Inr (map (rowAt m def) ks))"
  by (auto simp: liveItems_def)

lemma scanRows_live:
  assumes ok: "rowsOk L m def" "tableOk L n def"
  shows "set ks \<subseteq> liveRows m def \<Longrightarrow>
    (\<exists>e. scanRows L def whr (map (\<lambda>k. (k, the (m k))) ks) = Inl e)
    \<or> scanRows L def whr (map (\<lambda>k. (k, the (m k))) ks) = Inr (map (rowAt m def) (filter (hit L m def whr) ks))"
proof (induction ks)
  case (Cons k ks)
  then have "k \<in> liveRows m def" by simp
  then obtain enc raw vals pk where k: "k = rowKey (tblName def) enc" "m k = Some raw" "unpackRow raw = Inr vals"
    "rowOk L def enc vals" "pkKeyFromEncoded enc = Inr pk" "rowAt m def k = \<lparr>riPk = pk, riKey = k, riValues = vals\<rparr>"
    by (rule liveRows_cases [OF _ ok])
  show ?case
  proof (cases "matchWhere L def vals whr")
    case (Inl e)
    then show ?thesis using k by simp
  next
    case (Inr b)
    then have "hit L m def whr k = b" by (simp add: hit_def k(6))
    then show ?thesis using Cons k Inr by auto
  qed
qed simp

text \<open>Each of the three ways to find rows returns live rows, each once.\<close>

lemma rowByKey_live:
  assumes inv: "sqlInv L d" "fmlookup (tables d) n = Some def" and t: "openTx wr d t" "writes t = fmempty" and pk: "pkColumn def = Inr (c, i)"
  shows "liveItems (current d) def (fst (rowByKey L def c e t d)) \<and> quiet d (snd (rowByKey L def c e t d))"
proof (cases "exprToValue L e (colTyp c)")
  case (Inl er)
  then show ?thesis by (simp add: rowByKey_def)
next
  case (Inr v)
  let ?m = "current d" and ?rk = "rowKey n (pkEncode (pkOfValue (colTyp c) v))"
  obtain d' where r: "rowByKey L def c e t d = (Inr (map (rowAt ?m def) (if ?m ?rk = None then [] else [?rk])), d')" "quiet d d'"
    by (rule rowByKey_get [OF inv t pk Inr refl])
  have "tblName def = n" using inv by (auto elim: sqlInv_table)
  then have "liveItems ?m def (Inr (map (rowAt ?m def) (if ?m ?rk = None then [] else [?rk])))"
    using liveRows_rowKey [of def "pkEncode (pkOfValue (colTyp c) v)" ?m] by (intro liveItems_simps) auto
  then show ?thesis using r by simp
qed

lemma rowsByIndex_live:
  assumes inv: "sqlInv L d" "fmlookup (tables d) n = Some def" and t: "openTx wr d t" "writes t = fmempty" and w: "findIndex L def w d = Some si"
  shows "liveItems (current d) def (fst (rowsByIndex L def w si t d)) \<and> quiet d (snd (rowsByIndex L def w si t d))"
proof (cases "indexValue L def w")
  case (Inl er)
  then show ?thesis by (simp add: rowsByIndex_def)
next
  case (Inr v)
  let ?m = "current d"
  have tb: "tableOk L n def" "rowsOk L ?m def" "tblName def = n" using inv by (auto elim: sqlInv_table)
  obtain j where j: "fmlookup (secIndexes d) j = Some si" "usableIndex L def w si" using findIndex_Some [OF w] .
  have "secOk L ?m def si" using sqlInv_index [OF inv(1) j(1)] j(2) inv(2) tb(3) by (auto simp: usableIndex_def)
  then obtain ks where ks: "secLookup v si = Some (Inr ks)" "distinct ks"
    "\<forall>rk. rk \<in> set ks \<longleftrightarrow> (\<exists>s. indexed L ?m def (siDef si) s rk \<and> prefix (valuePrefix v @ [nul]) s)"
    by (rule lookup_indexed)
  have live: "set ks \<subseteq> liveRows ?m def" using ks(3) liveRows_rowKey [of def _ ?m] by (auto simp: indexed_def stored_def)
  obtain d' where "fetchRows def t ks d = (Inr (map (rowAt ?m def) ks), d')" "quiet d d'"
    using fetchRows_spec [OF tb(2,1) t quiet_refl live] by blast
  then show ?thesis using Inr ks(1,2) live by (simp add: rowsByIndex_def)
qed

lemma tableScan_live:
  assumes inv: "sqlInv L d" "fmlookup (tables d) n = Some def" and t: "openTx wr d t" "writes t = fmempty"
  shows "liveItems (current d) def (fst (tableScan L def whr t d)) \<and> quiet d (snd (tableScan L def whr t d))"
proof -
  let ?m = "current d"
  have tb: "tableOk L n def" "rowsOk L ?m def" using inv by (auto elim: sqlInv_table)
  have v: "viewOf t d = ?m" using openTx_view [OF t(1)] t(2) by simp
  have cl: "\<not> txClosed t" using t(1) by (simp add: openTx_def)
  obtain ks where ks: "distinct ks" "\<And>k. k \<in> set ks \<longleftrightarrow> prefix (rowKeyPrefix (tblName def)) k \<and> viewOf t d k \<noteq> None"
    "fst (scanPrefix (rowKeyPrefix (tblName def)) t d) = map (\<lambda>k. (k, the (viewOf t d k))) ks"
    using scan_result [OF cl, of "rowKeyPrefix (tblName def)" d] by metis
  have live: "set ks \<subseteq> liveRows ?m def" using ks(2) v by (auto simp: liveRows_def)
  obtain p d' where p: "scanPrefix (rowKeyPrefix (tblName def)) t d = (p, d')" by fastforce
  have "quiet d d'" using scanPrefix_quiet [of d "rowKeyPrefix (tblName def)" t] p by simp
  moreover have "liveItems ?m def (Inr (map (rowAt ?m def) (filter (hit L ?m def whr) ks)))"
    by (rule liveItems_simps(2)) (use ks(1) live in auto)
  then have "liveItems ?m def (scanRows L def whr p)"
    using scanRows_live [OF tb(2,1) live, of whr] ks(3) p v by auto
  ultimately show ?thesis using p by (simp add: tableScan_def)
qed

lemma collectRows_live:
  assumes inv: "sqlInv L d" "fmlookup (tables d) n = Some def" and t: "openTx wr d t" "writes t = fmempty"
  shows "liveItems (current d) def (fst (collectRows L def whr t d)) \<and> quiet d (snd (collectRows L def whr t d))"
proof -
  have "tableOk L n def" using inv by (auto elim: sqlInv_table)
  then obtain c i where pk: "pkColumn def = Inr (c, i)" by (auto simp: tableOk_def)
  then have "collectRows L def whr t d =
      (case pkEquality L c whr of
         Some e \<Rightarrow> rowByKey L def c e t d
       | None \<Rightarrow>
           (case (case whr of [w] \<Rightarrow> map_option (Pair w) (findIndex L def w d) | _ \<Rightarrow> None) of
              Some (w, si) \<Rightarrow> rowsByIndex L def w si t d
            | None \<Rightarrow> tableScan L def whr t d))"
    by (simp add: collectRows_def)
  then show ?thesis
    using rowByKey_live [OF inv t pk] rowsByIndex_live [OF inv t] tableScan_live [OF inv t] by (auto split: option.split list.split)
qed

end
