(* ===== verification/SqlRow.thy ===== *)
theory SqlRow
  imports SqlQuery
begin

text \<open>
  The rows that INSERT and UPDATE write: the values that an expression can have in a column fit that
  column, so that a packed row, read back, is a row of its table, stored under the key it belongs to.
\<close>

section \<open>JSON values\<close>

definition libFinite :: "golib \<Rightarrow> bool" where
  \<comment> \<open>\<open>strconv.ParseFloat\<close> of a JSON number is finite, or an error\<close>
  "libFinite L \<longleftrightarrow> (\<forall>s l r f. scan_number s = Some (l, r) \<longrightarrow> fParse L l = Some f \<longrightarrow> f64Finite f)"

fun scannedNums :: "json \<Rightarrow> bool" where
  \<comment> \<open>every number is one that the scanner accepts\<close>
  "scannedNums (JNum l) \<longleftrightarrow> (\<exists>s r. scan_number s = Some (l, r))"
| "scannedNums (JArr vs) \<longleftrightarrow> list_all scannedNums vs"
| "scannedNums (JObj ms) \<longleftrightarrow> list_all (\<lambda>(k, v). scannedNums v) ms"
| "scannedNums v \<longleftrightarrow> True"

lemma parse_nums:
  "pvalue n d s = Some (v, r) \<Longrightarrow> scannedNums v"
  "parr n d s = Some (vs, r) \<Longrightarrow> list_all scannedNums vs"
  "pobj n d s = Some (ms, r) \<Longrightarrow> list_all (\<lambda>(k, v). scannedNums v) ms"
proof (induction n d s and n d s and n d s arbitrary: v r and vs r and ms r rule: pvalue_parr_pobj.induct)
  case (2 n d s)
  show ?case
  proof (cases v)
    case (JNum l)
    then have "\<exists>s. scan_number s = Some (l, r)"
      using "2.prems" by (auto split: list.splits if_splits simp del: prefix_Cons)
    then show ?thesis using JNum by auto
  next
    case (JArr vs)
    then have "vs = [] \<or> (\<exists>c cs c2 cs2. skip_ws s = c # cs \<and> c \<noteq> CHR ''{'' \<and> c = CHR ''['' \<and> \<not> maxNestingDepth < Suc d
        \<and> skip_ws cs = c2 # cs2 \<and> c2 \<noteq> CHR '']'' \<and> parr n (Suc d) (c2 # cs2) = Some (vs, r))"
      using "2.prems" by (auto split: list.splits if_splits simp del: prefix_Cons)
    then show ?thesis using "2.IH"(2) JArr by auto
  next
    case (JObj ms)
    then have "ms = [] \<or> (\<exists>c cs c2 cs2. skip_ws s = c # cs \<and> c = CHR ''{'' \<and> \<not> maxNestingDepth < Suc d
        \<and> skip_ws cs = c2 # cs2 \<and> c2 \<noteq> CHR ''}'' \<and> pobj n (Suc d) (c2 # cs2) = Some (ms, r))"
      using "2.prems" by (auto split: list.splits if_splits simp del: prefix_Cons)
    then show ?thesis using "2.IH"(1) JObj by auto
  qed simp_all
next
  case (4 n d s)
  then show ?case by (auto split: list.splits if_splits option.splits prod.splits)
next
  case (6 n d s)
  then show ?case by (auto split: list.splits if_splits option.splits prod.split_asm)
qed simp_all

lemma json_first_nums: "json_first s = Some (j, r) \<Longrightarrow> scannedNums j"
  unfolding json_first_def by (rule parse_nums(1))

lemma normAny_finite:
  assumes "libFinite L"
  shows "scannedNums j \<Longrightarrow> allFinite (normAny L (jsonAny j))"
proof (induction j)
  case (JNum l)
  then show ?case using assms by (auto simp: libFinite_def split: option.splits)
next
  case (JArr vs)
  then show ?case by (auto simp: list_all_iff)
next
  case (JObj ms)
  let ?kvs = "map (\<lambda>(k, v). (k, jsonAny v)) ms"
  have "\<forall>v\<in>set (map snd ?kvs). allFinite (normAny L v)" using JObj by (fastforce simp: list_all_iff)
  then have "\<forall>v\<in>set (map snd (objOf ?kvs)). allFinite (normAny L v)" using objOf_values [of ?kvs] by blast
  then show ?case by (auto simp: list_all_iff)
qed simp_all

lemma encodeJSON_ok:
  assumes "libFinite L" "encodeJSON L text = Inr bin" "length bin < 2 ^ 32"
  shows "\<exists>a n. readJSONBin bin 0 = Inr (a, n) \<and> allFinite a"
proof -
  from assms(2) obtain j rest where j: "json_first text = Some (j, rest)"
    by (auto simp: encodeJSON_def split: option.splits)
  then have "readJSONBin bin 0 = Inr (normAny L (jsonAny j), length bin)"
    using readsBack_all [OF jsonAny_decode [OF assms(2) j assms(3)]] by simp
  then show ?thesis using normAny_finite [OF assms(1) json_first_nums [OF j]] by blast
qed


section \<open>Cells\<close>

definition cellOk :: "golib \<Rightarrow> colType \<Rightarrow> sqlval \<Rightarrow> bool" where
  \<comment> \<open>a value that was read from a column of this type or computed for it\<close>
  "cellOk L ty v \<longleftrightarrow> valueOk L ty v \<or> (\<exists>e. exprToValue L e ty = Inr v)"

lemma cellOk_flat: "cellOk L ty v \<Longrightarrow> vNull v \<or> normValue v = v"
  using exprToValue_ok(1) [of L _ ty v] by (auto simp: cellOk_def valueOk_def)

lemma cellOk_null: "cellOk L ty (zeroValue\<lparr>vTyp := ty, vNull := True\<rparr>)"
  by (auto simp: cellOk_def exprToValue_def intro!: exI [of _ ExprNull])

lemma cellOk_value:
  assumes "libFinite L" "cellOk L ty v" "sizeOk v"
  shows "valueOk L ty (normValue v)"
proof (cases "vNull v")
  case True
  then show ?thesis by (simp add: valueOk_def normValue_def zeroValue_def)
next
  case False
  show ?thesis
  proof (cases "valueOk L ty v")
    case True
    then show ?thesis by (simp add: valueOk_def)
  next
    case new: False
    then obtain e where e: "exprToValue L e ty = Inr v" using assms(2) by (auto simp: cellOk_def)
    then have v: "vTyp v = ty" "normValue v = v" using exprToValue_ok(1) False by blast+
    have "\<exists>a n. readJSONBin (vBlob v) 0 = Inr (a, n) \<and> allFinite a" if ty: "ty = TypeJSON"
    proof -
      obtain raw where "encodeJSON L raw = Inr (vBlob v)"
        using e False ty by (auto simp: exprToValue_def ebind_def split: if_splits expr.splits sum.splits)
      moreover have "length (vBlob v) < 2 ^ 32"
        using assms(3) False v(1) ty by (simp add: sizeOk_def encodeValue_def)
      ultimately show ?thesis using encodeJSON_ok [OF assms(1)] by blast
    qed
    then show ?thesis using v False by (simp add: valueOk_def)
  qed
qed

abbreviation cellsOk :: "golib \<Rightarrow> TableDef \<Rightarrow> sqlval list \<Rightarrow> bool" where
  "cellsOk L def vals \<equiv> list_all2 (\<lambda>c v. cellOk L (colTyp c) v) (tblColumns def) vals"

lemma nullRow_cells: "cellsOk L def (nullRow def)"
  by (simp add: nullRow_def list_all2_map2 cellOk_null list_all2_same)

lemma rowOk_cells: "rowOk L def enc vals \<Longrightarrow> cellsOk L def vals"
  unfolding rowOk_def cellOk_def by (auto elim: list_all2_mono)

lemma assignValues_cells:
  "assignValues L def ces vals = Inr vals' \<Longrightarrow> cellsOk L def vals \<Longrightarrow>
   cellsOk L def vals' \<and> (\<forall>j. j \<notin> fst ` set ces \<longrightarrow> vals' ! j = vals ! j)
   \<and> (\<forall>j<length vals. vals' ! j = vals ! j \<or> (\<exists>e\<in>snd ` set ces. exprToValue L e (colTyp (tblColumns def ! j)) = Inr (vals' ! j)))"
proof (induction ces arbitrary: vals)
  case (Cons ce ces)
  obtain ci e where ce: "ce = (ci, e)" by fastforce
  with Cons.prems obtain v where v: "exprToValue L e (colTyp (tblColumns def ! ci)) = Inr v" "ci < length vals"
    "assignValues L def ces (vals[ci := v]) = Inr vals'"
    by (auto simp: ebind_def split: sum.splits if_splits)
  have "cellOk L (colTyp (tblColumns def ! ci)) v" using v(1) by (auto simp: cellOk_def)
  then have "cellsOk L def (vals[ci := v])"
    using Cons.prems(2) v(2) by (auto simp: list_all2_conv_all_nth nth_list_update)
  note IH = Cons.IH [OF v(3) this]
  have "vals' ! j = vals ! j \<or> (\<exists>e\<in>snd ` set (ce # ces). exprToValue L e (colTyp (tblColumns def ! j)) = Inr (vals' ! j))"
    if "j < length vals" for j
    using IH that v(1,2) ce by (cases "j = ci") (fastforce simp: nth_list_update)+
  then show ?case using IH ce by auto
qed simp

lemma assignPairs_Nil [simp]: "assignPairs L def [] vals = Inr vals"
  by (simp add: assignPairs_def)

lemma foldl_ebind: "foldl (\<lambda>r a. ebind r (f a)) r0 xs = ebind r0 (\<lambda>x. foldl (\<lambda>r a. ebind r (f a)) (Inr x) xs)"
proof (cases r0)
  case (Inl e)
  have "foldl (\<lambda>r a. ebind r (f a)) (Inl e) xs = Inl e" by (induction xs) simp_all
  then show ?thesis using Inl by simp
qed simp

lemma assignPairs_Cons:
  "assignPairs L def (a # sets) vals =
     ebind (ebind (columnIndex L def (normalizeName L (asColumn a))) (\<lambda>ci. assignValues L def [(ci, asValue a)] vals))
       (assignPairs L def sets)"
  unfolding assignPairs_def foldl_Cons ebind_Inr
  by (rule foldl_ebind [of "\<lambda>a vals. ebind (columnIndex L def (normalizeName L (asColumn a))) (\<lambda>ci. assignValues L def [(ci, asValue a)] vals)"])

definition changedBy :: "golib \<Rightarrow> TableDef \<Rightarrow> expr set \<Rightarrow> sqlval list \<Rightarrow> sqlval list \<Rightarrow> bool" where
  \<comment> \<open>a row whose cells are old ones or values of these expressions\<close>
  "changedBy L def es old new \<longleftrightarrow>
     cellsOk L def old \<and> cellsOk L def new
     \<and> (\<forall>j<length old. new ! j = old ! j \<or> (\<exists>e\<in>es. \<exists>ty. exprToValue L e ty = Inr (new ! j)))"

lemma changedBy_refl: "cellsOk L def vals \<Longrightarrow> changedBy L def es vals vals"
  by (simp add: changedBy_def)

lemma changedBy_trans: "changedBy L def es a b \<Longrightarrow> changedBy L def es b c \<Longrightarrow> changedBy L def es a c"
  unfolding changedBy_def by (metis list_all2_lengthD)

lemma changedBy_mono: "changedBy L def es a b \<Longrightarrow> es \<subseteq> es' \<Longrightarrow> changedBy L def es' a b"
  unfolding changedBy_def by blast

lemma assignValues_changed:
  "assignValues L def ces vals = Inr vals' \<Longrightarrow> cellsOk L def vals \<Longrightarrow>
   changedBy L def (snd ` set ces) vals vals' \<and> (\<forall>j. j \<notin> fst ` set ces \<longrightarrow> vals' ! j = vals ! j)"
  using assignValues_cells [of L def ces vals vals'] unfolding changedBy_def by blast

lemma assignPairs_changed:
  assumes "\<forall>a\<in>set sets. columnIndex L def (normalizeName L (asColumn a)) \<noteq> Inr i"
  shows "assignPairs L def sets vals = Inr vals' \<Longrightarrow> cellsOk L def vals \<Longrightarrow>
    changedBy L def (asValue ` set sets) vals vals' \<and> vals' ! i = vals ! i"
  using assms
proof (induction sets arbitrary: vals)
  case Nil
  then show ?case by (simp add: changedBy_refl)
next
  case (Cons a sets)
  obtain ci v where v: "columnIndex L def (normalizeName L (asColumn a)) = Inr ci"
    "assignValues L def [(ci, asValue a)] vals = Inr v" "assignPairs L def sets v = Inr vals'"
    using Cons.prems(1) by (auto simp: assignPairs_Cons ebind_eq_Inr simp del: assignValues.simps)
  then have 1: "changedBy L def {asValue a} vals v" "v ! i = vals ! i"
    using assignValues_changed [OF v(2) Cons.prems(2)] Cons.prems(3) by auto
  then have "changedBy L def (asValue ` set sets) v vals' \<and> vals' ! i = v ! i"
    using Cons.IH [OF v(3)] Cons.prems(3) by (simp add: changedBy_def)
  then show ?case
    using 1 changedBy_trans [of L def "asValue ` set (a # sets)" vals v vals'] changedBy_mono [of L def _ _ _ "asValue ` set (a # sets)"]
    by auto
qed


section \<open>What assignments mean\<close>

text \<open>
  A description of the rows that INSERT and UPDATE write that does not follow their loops: the value a
  literal denotes in a column, the last assignment that names a column, and from them every cell of the new row.
\<close>

inductive denotes :: "golib \<Rightarrow> expr \<Rightarrow> colType \<Rightarrow> sqlval \<Rightarrow> bool" for L where
  d_null: "denotes L ExprNull ty (zeroValue\<lparr>vTyp := ty, vNull := True\<rparr>)"
| d_int: "denotes L (ExprInt i) TypeInteger (zeroValue\<lparr>vTyp := TypeInteger, vInt := i\<rparr>)"
| d_text: "denotes L (ExprText s) TypeText (zeroValue\<lparr>vTyp := TypeText, vText := s\<rparr>)"
| d_blob: "denotes L (ExprBlob b) TypeBlob (zeroValue\<lparr>vTyp := TypeBlob, vBlob := b\<rparr>)"
| d_json_text: "encodeJSON L s = Inr bin \<Longrightarrow> denotes L (ExprText s) TypeJSON (zeroValue\<lparr>vTyp := TypeJSON, vBlob := bin\<rparr>)"
| d_json_blob: "encodeJSON L b = Inr bin \<Longrightarrow> denotes L (ExprBlob b) TypeJSON (zeroValue\<lparr>vTyp := TypeJSON, vBlob := bin\<rparr>)"

lemma exprToValue_denotes: "exprToValue L e ty = Inr v \<longleftrightarrow> denotes L e ty v"
proof
  assume "exprToValue L e ty = Inr v"
  then show "denotes L e ty v"
    by (cases e) (auto simp: exprToValue_def ebind_eq_Inr split: if_splits intro: denotes.intros)
next
  assume "denotes L e ty v"
  then show "exprToValue L e ty = Inr v" by (cases rule: denotes.cases) (simp_all add: exprToValue_def)
qed

lemma denotes_unique: "denotes L e ty v \<Longrightarrow> denotes L e ty w \<Longrightarrow> v = w"
  unfolding exprToValue_denotes [symmetric] by simp

abbreviation assigns :: "golib \<Rightarrow> TableDef \<Rightarrow> assign \<Rightarrow> nat \<Rightarrow> bool" where
  "assigns L def a j \<equiv> columnIndex L def (normalizeName L (asColumn a)) = Inr j"

definition updatedRow :: "golib \<Rightarrow> TableDef \<Rightarrow> assign list \<Rightarrow> sqlval list \<Rightarrow> sqlval list \<Rightarrow> bool" where
  \<comment> \<open>every assignment names a column and its literal fits; a column has the value of the last
    assignment to it, or the one it had\<close>
  "updatedRow L def sets old new \<longleftrightarrow>
     length new = length old
     \<and> (\<forall>a\<in>set sets. \<exists>j v. assigns L def a j \<and> denotes L (asValue a) (colTyp (tblColumns def ! j)) v)
     \<and> (\<forall>j<length old.
          (case find (\<lambda>a. assigns L def a j) (rev sets) of
             None \<Rightarrow> new ! j = old ! j
           | Some a \<Rightarrow> denotes L (asValue a) (colTyp (tblColumns def ! j)) (new ! j)))"

definition insertedRow :: "golib \<Rightarrow> TableDef \<Rightarrow> string list \<Rightarrow> expr list \<Rightarrow> sqlval list \<Rightarrow> bool" where
  \<comment> \<open>without a column list one literal per column, in the order of the table; otherwise the literals go
    to the columns that are named, and the others are NULL\<close>
  "insertedRow L def cols es row \<longleftrightarrow>
     (if cols = [] then list_all2 (\<lambda>c (e, v). denotes L e (colTyp c) v) (tblColumns def) (zip es row) \<and> length es = length row
      else length cols = length es
        \<and> updatedRow L def (map (\<lambda>(c, e). \<lparr>asColumn = c, asValue = e\<rparr>) (zip cols es))
            (map (\<lambda>c. zeroValue\<lparr>vTyp := colTyp c, vNull := True\<rparr>) (tblColumns def)) row)"

lemma updatedRow_cell:
  assumes "updatedRow L def sets old new" "j < length old"
  shows "case find (\<lambda>a. assigns L def a j) (rev sets) of
      None \<Rightarrow> new ! j = old ! j
    | Some a \<Rightarrow> denotes L (asValue a) (colTyp (tblColumns def ! j)) (new ! j)"
  using assms unfolding updatedRow_def by blast

lemma updatedRow_unique:
  assumes "updatedRow L def sets old v" "updatedRow L def sets old w"
  shows "v = w"
proof (rule nth_equalityI)
  show "length v = length w" using assms by (simp add: updatedRow_def)
  fix j
  assume "j < length v"
  then have j: "j < length old" using assms(1) by (simp add: updatedRow_def)
  show "v ! j = w ! j"
    using updatedRow_cell [OF assms(1) j] updatedRow_cell [OF assms(2) j] by (auto split: option.splits intro: denotes_unique)
qed

text \<open>One assignment after another produces that row.\<close>

lemma assignPairs_snoc:
  "assignPairs L def (sets @ [a]) vals =
     ebind (assignPairs L def sets vals) (\<lambda>vals.
       ebind (columnIndex L def (normalizeName L (asColumn a))) (\<lambda>ci. assignValues L def [(ci, asValue a)] vals))"
  by (simp add: assignPairs_def)

lemma assignPairs_updated:
  assumes "length old = length (tblColumns def)"
  shows "assignPairs L def sets old = Inr new \<Longrightarrow> updatedRow L def sets old new"
proof (induction sets arbitrary: new rule: rev_induct)
  case Nil
  then show ?case by (simp add: updatedRow_def)
next
  case (snoc a sets)
  obtain mid j v where m: "assignPairs L def sets old = Inr mid" "assigns L def a j"
    "denotes L (asValue a) (colTyp (tblColumns def ! j)) v" "new = mid[j := v]"
    using snoc.prems by (auto simp: assignPairs_snoc ebind_eq_Inr exprToValue_denotes split: if_splits)
  note IH = snoc.IH [OF m(1)]
  have j: "j < length mid" using columnIndex_bound [OF m(2)] IH assms by (simp add: updatedRow_def)
  show ?case
    unfolding updatedRow_def
  proof (intro conjI allI impI ballI)
    show "length new = length old" using IH m(4) by (simp add: updatedRow_def)
  next
    fix b
    assume "b \<in> set (sets @ [a])"
    then show "\<exists>j v. assigns L def b j \<and> denotes L (asValue b) (colTyp (tblColumns def ! j)) v"
      using IH m(2,3) by (auto simp: updatedRow_def)
  next
    fix i
    assume i: "i < length old"
    show "case find (\<lambda>a. assigns L def a i) (rev (sets @ [a])) of
         None \<Rightarrow> new ! i = old ! i
       | Some b \<Rightarrow> denotes L (asValue b) (colTyp (tblColumns def ! i)) (new ! i)"
    proof (cases "i = j")
      case True
      then show ?thesis using m(2-4) j by simp
    next
      case False
      then have "new ! i = mid ! i" using m(4) by simp
      then show ?thesis using updatedRow_cell [OF IH i] m(2) False by (simp split: option.splits)
    qed
  qed
qed

lemma assignPairs_total:
  "length old = length (tblColumns def) \<Longrightarrow>
   \<forall>a\<in>set sets. \<exists>j v. assigns L def a j \<and> denotes L (asValue a) (colTyp (tblColumns def ! j)) v \<Longrightarrow>
   \<exists>new. assignPairs L def sets old = Inr new"
proof (induction sets arbitrary: old)
  case (Cons a sets)
  then obtain j v where a: "assigns L def a j" "exprToValue L (asValue a) (colTyp (tblColumns def ! j)) = Inr v"
    by (auto simp: exprToValue_denotes)
  then have "j < length old" using columnIndex_bound [OF a(1)] Cons.prems(1) by simp
  then show ?case using Cons.IH [of "old[j := v]"] Cons.prems a by (simp add: assignPairs_Cons)
qed simp

lemma assignPairs_iff:
  assumes "length old = length (tblColumns def)"
  shows "assignPairs L def sets old = Inr new \<longleftrightarrow> updatedRow L def sets old new"
proof
  assume new: "updatedRow L def sets old new"
  then obtain w where w: "assignPairs L def sets old = Inr w" using assignPairs_total [OF assms, of sets L] unfolding updatedRow_def by blast
  then have "w = new" using updatedRow_unique [OF assignPairs_updated [OF assms w] new] by simp
  then show "assignPairs L def sets old = Inr new" using w by simp
qed (rule assignPairs_updated [OF assms])

text \<open>INSERT with a column list is a sequence of assignments to a row of NULLs.\<close>

lemma insertColumns_assign:
  "length cols = length es \<Longrightarrow>
   ebind (eseq (map (\<lambda>c. columnIndex L def (normalizeName L c)) cols)) (\<lambda>idxs. assignValues L def (zip idxs es) vals) = Inr new \<longleftrightarrow>
   assignPairs L def (map (\<lambda>(c, e). \<lparr>asColumn = c, asValue = e\<rparr>) (zip cols es)) vals = Inr new"
proof (induction cols es arbitrary: vals rule: list_induct2)
  case (Cons c cols e es)
  show ?case
  proof (cases "columnIndex L def (normalizeName L c)")
    case (Inr j)
    show ?thesis
    proof (cases "exprToValue L e (colTyp (tblColumns def ! j))")
      case (Inl x)
      then show ?thesis
        using Inr by (cases "eseq (map (\<lambda>c. columnIndex L def (normalizeName L c)) cols)") (simp_all add: assignPairs_Cons)
    next
      case v: (Inr v)
      show ?thesis
      proof (cases "j < length vals")
        case True
        then show ?thesis
          using Inr v Cons.IH [of "vals[j := v]"]
          by (cases "eseq (map (\<lambda>c. columnIndex L def (normalizeName L c)) cols)") (simp_all add: assignPairs_Cons)
      next
        case False
        then show ?thesis
          using Inr v by (cases "eseq (map (\<lambda>c. columnIndex L def (normalizeName L c)) cols)") (simp_all add: assignPairs_Cons)
      qed
    qed
  qed (simp add: assignPairs_Cons)
qed simp

lemma assignValues_all:
  "length es = n \<Longrightarrow> k + n \<le> length vals \<Longrightarrow> assignValues L def (zip [k..<k + n] es) vals = Inr new \<longleftrightarrow>
   length new = length vals \<and> (\<forall>j<length vals. if k \<le> j \<and> j < k + n then denotes L (es ! (j - k)) (colTyp (tblColumns def ! j)) (new ! j)
     else new ! j = vals ! j)"
proof (induction es arbitrary: k n vals)
  case Nil
  then show ?case by (auto intro: nth_equalityI)
next
  case (Cons e es)
  then obtain m where n: "n = Suc m" by (cases n) auto
  have k: "k < length vals" "Suc k + m \<le> length vals" "length es = m" using Cons.prems n by simp_all
  have up: "[k..<k + n] = k # [Suc k..<Suc k + m]" using n by (simp add: upt_conv_Cons)
  show ?case
  proof (cases "exprToValue L e (colTyp (tblColumns def ! k))")
    case (Inl x)
    then have "\<not> denotes L e (colTyp (tblColumns def ! k)) w" for w by (simp add: exprToValue_denotes [symmetric])
    then show ?thesis unfolding up using Inl k n by (auto intro!: exI [of _ k])
  next
    case (Inr v)
    then have v: "denotes L e (colTyp (tblColumns def ! k)) w \<longleftrightarrow> w = v" for w by (auto simp: exprToValue_denotes [symmetric])
    have "assignValues L def (zip [k..<k + n] (e # es)) vals = Inr new \<longleftrightarrow>
        length new = length vals \<and> (\<forall>j<length vals. if Suc k \<le> j \<and> j < Suc k + m then denotes L (es ! (j - Suc k)) (colTyp (tblColumns def ! j)) (new ! j)
          else new ! j = vals[k := v] ! j)"
      unfolding up using Inr k Cons.IH [OF k(3), of "Suc k" "vals[k := v]"] by simp
    also have "\<dots> \<longleftrightarrow> length new = length vals
        \<and> (\<forall>j<length vals. if k \<le> j \<and> j < k + n then denotes L ((e # es) ! (j - k)) (colTyp (tblColumns def ! j)) (new ! j) else new ! j = vals ! j)"
    proof -
      have cell: "(if Suc k \<le> j \<and> j < Suc k + m then denotes L (es ! (j - Suc k)) (colTyp (tblColumns def ! j)) (new ! j) else new ! j = vals[k := v] ! j)
          = (if k \<le> j \<and> j < k + n then denotes L ((e # es) ! (j - k)) (colTyp (tblColumns def ! j)) (new ! j) else new ! j = vals ! j)"
        if "j < length vals" for j
        using v n k(1) that by (cases "j = k") (auto simp: nth_Cons' not_less_eq_eq)
      show ?thesis by (rule conj_cong [OF refl], rule all_cong, rule cell)
    qed
    finally show ?thesis .
  qed
qed

lemma insertValues_iff: "insertValues L def cols es = Inr row \<longleftrightarrow> insertedRow L def cols es row"
proof (cases "cols = []")
  case True
  let ?n = "length (tblColumns def)"
  show ?thesis
  proof (cases "length es = ?n")
    case len: True
    have "assignValues L def (zip [0..<?n] es) (nullRow def) = Inr row \<longleftrightarrow>
        length row = ?n \<and> (\<forall>j<?n. denotes L (es ! j) (colTyp (tblColumns def ! j)) (row ! j))"
      using assignValues_all [OF len, of 0 "nullRow def"] by (simp add: nullRow_def)
    then show ?thesis
      using True len by (auto simp: insertValues_def insertColumns_def insertedRow_def list_all2_conv_all_nth)
  qed (use True in \<open>auto simp: insertValues_def insertColumns_def insertedRow_def dest: list_all2_lengthD\<close>)
next
  case False
  have n: "length (nullRow def) = length (tblColumns def)" by (simp add: nullRow_def)
  show ?thesis
  proof (cases "length cols = length es")
    case True
    then show ?thesis
      using False insertColumns_assign [OF True, of L def "nullRow def" row] assignPairs_iff [OF n, of L _ row]
      by (simp add: insertValues_def insertColumns_def insertedRow_def nullRow_def)
  qed (use False in \<open>simp add: insertValues_def insertColumns_def insertedRow_def\<close>)
qed


section \<open>Packed rows\<close>

lemma packRow_bound: "packRow vals = Inr page \<Longrightarrow> length (encodeRow vals) \<le> 4088"
proof (rule ccontr)
  assume "packRow vals = Inr page" "\<not> length (encodeRow vals) \<le> 4088"
  then have "EncodeRowPage (encodeRow vals) = Inr page"
    "pageSize < freeOff (resetPage zeroPage) + length (encodeRow vals) + 4 * (slotCount (resetPage zeroPage) + 1)"
    by (simp_all add: packRow_def pageInv_reset pageSize_def)
  then show False using pagePut_full by (simp add: EncodeRowPage_def)
qed

lemma packRow_fits: "length (encodeRow vs) \<le> 4088 \<Longrightarrow> \<exists>page. packRow vs = Inr page"
  using row_page [of "encodeRow vs"] by (cases "EncodeRowPage (encodeRow vs)") (simp_all add: packRow_def)

lemma packRow_ok:
  assumes "packRow vals = Inr page"
  shows "unpackRow page = Inr (map normValue vals)" "list_all sizeOk vals"
proof -
  have e: "EncodeRowPage (encodeRow vals) = Inr page" using assms by (simp add: packRow_def)
  moreover have len: "length (encodeRow vals) \<le> 4088" by (rule packRow_bound [OF assms])
  ultimately have "DecodeRowPage page = Inr (encodeRow vals)" using row_page [of "encodeRow vals"] by simp
  then show "unpackRow page = Inr (map normValue vals)" "list_all sizeOk vals"
    using fitting_row [of vals 4088] decodeRow_enc [of vals] len by (simp_all add: unpackRow_def)
qed

lemma packed_rowOk:
  assumes "libFinite L" "cellsOk L def vals" "packRow vals = Inr page" "pkColumn def = Inr (c, i)" "\<not> vNull (vals ! i)"
  shows "rowOk L def (pkEncode (pkOfValue (colTyp c) (vals ! i))) (map normValue vals)"
proof -
  have "valueOk L (colTyp c') (normValue v)" if "(c', v) \<in> set (zip (tblColumns def) vals)" for c' v
    using that assms(1,2) packRow_ok(2) [OF assms(3)] cellOk_value [of L "colTyp c'" v]
    by (auto simp: list_all2_iff list_all_iff dest: set_zip_rightD)
  then have "list_all2 (\<lambda>c v. valueOk L (colTyp c) v) (tblColumns def) (map normValue vals)"
    using list_all2_lengthD [OF assms(2)] unfolding list_all2_map2 by (auto simp: list_all2_iff)
  moreover have i: "i < length vals" using pkColumn_Inr(1) [OF assms(4)] list_all2_lengthD [OF assms(2)] by simp
  moreover have "normValue (vals ! i) = vals ! i"
    using assms(2,5) i cellOk_flat [of L _ "vals ! i"] by (auto simp: list_all2_conv_all_nth)
  ultimately show ?thesis using assms(4,5) by (simp add: rowOk_def)
qed

lemma encodePK_pk: "encodePK ty v = Inr enc \<Longrightarrow> enc = pkEncode (pkOfValue ty v) \<and> ty \<in> {TypeInteger, TypeText}"
  by (auto simp: encodePK_def pkOfValue_def pkEncode_def pkFromInt_def pkFromString_def split: if_splits)

lemma insertRow_inserted:
  assumes "tableOk L n def" "insertedRow L def cols es row" "pkColumn def = Inr (c, i)" "\<not> vNull (row ! i)" "length (encodeRow row) \<le> 4088"
  obtains page where "insertRow L def n cols es = Inr (row, pkOfValue (colTyp c) (row ! i), rowKey n (pkEncode (pkOfValue (colTyp c) (row ! i))), page)"
proof -
  have vals: "insertValues L def cols es = Inr row" using assms(2) by (simp add: insertValues_iff)
  have "length row = length (tblColumns def)"
    using assms(2) by (auto simp: insertedRow_def updatedRow_def dest!: list_all2_lengthD split: if_splits)
  then have i: "i < length row" using pkColumn_Inr(1) [OF assms(3)] by simp
  have ty: "colTyp c \<in> {TypeInteger, TypeText}" using assms(1,3) by (auto simp: tableOk_def)
  then obtain enc where enc: "encodePK (colTyp c) (row ! i) = Inr enc" by (auto simp: encodePK_def)
  obtain page where "packRow row = Inr page" using packRow_fits [OF assms(5)] by blast
  then show thesis
    using that [of page] vals assms(3,4) i enc encodePK_pk [OF enc] by (simp add: insertRow_def nthRes_def)
qed

lemma insertRow_ok:
  assumes "libFinite L" "tableOk L n def" "insertRow L def n cols es = Inr (vals, pk, rk, page)"
  obtains enc where "rk = rowKey n enc" "enc = pkEncode pk" "pkKeyFromEncoded enc = Inr pk" "rowOk L def enc (map normValue vals)"
    "unpackRow page = Inr (map normValue vals)" "changedBy L def (set es) (nullRow def) vals"
proof -
  obtain c i where c: "pkColumn def = Inr (c, i)" "colTyp c \<in> {TypeInteger, TypeText}" using assms(2) by (auto simp: tableOk_def)
  obtain idxs enc where v: "assignValues L def (zip idxs es) (nullRow def) = Inr vals" "i < length vals" "\<not> vNull (vals ! i)"
    "encodePK (colTyp c) (vals ! i) = Inr enc" "packRow vals = Inr page" "pk = pkOfValue (colTyp c) (vals ! i)" "rk = rowKey n enc"
    using assms(3) c(1) by (auto simp: insertRow_def insertValues_def nthRes_def ebind_eq_Inr split: if_splits)
  have ch: "changedBy L def (set es) (nullRow def) vals"
  proof (rule changedBy_mono)
    show "changedBy L def (snd ` set (zip idxs es)) (nullRow def) vals"
      using assignValues_changed [OF v(1) nullRow_cells] by blast
  qed (auto dest: set_zip_rightD)
  have enc: "enc = pkEncode pk" using encodePK_pk [OF v(4)] v(6) by simp
  moreover have "pkKeyFromEncoded enc = Inr pk" using pkOfValue_canonical [OF c(2)] enc v(6) by simp
  moreover have "rowOk L def enc (map normValue vals)"
    using packed_rowOk [OF assms(1) _ v(5) c(1) v(3)] ch enc v(6) by (simp add: changedBy_def)
  ultimately show thesis using that packRow_ok(1) [OF v(5)] v(7) ch by blast
qed


section \<open>The value of a row in an index\<close>

definition cellValue :: "golib \<Rightarrow> IndexDef \<Rightarrow> sqlval \<Rightarrow> sqlval option res" where
  "cellValue L ix v =
     (if vNull v then Inr None
      else if ixPath ix \<noteq> [] then (if vTyp v \<noteq> TypeJSON then Inr None else indexableExtract L (vBlob v) (ixPath ix))
      else if vTyp v = TypeInteger \<or> vTyp v = TypeText then Inr (Some v)
      else Inr None)"

lemma valueFromRow_cell:
  "valueFromRow L ix def vals =
     ebind (columnIndex L def (ixColumn ix)) (\<lambda>ci. if ci \<ge> length vals then Inr None else cellValue L ix (vals ! ci))"
  unfolding valueFromRow_def cellValue_def Let_def by (rule refl)

definition exprFree :: "golib \<Rightarrow> IndexDef \<Rightarrow> expr \<Rightarrow> bool" where
  \<comment> \<open>no value of the expression brings a NUL byte into the index\<close>
  "exprFree L ix e \<longleftrightarrow>
     (\<forall>ty v iv. exprToValue L e ty = Inr v \<longrightarrow> cellValue L ix v = Inr (Some iv) \<longrightarrow> nul \<notin> set (valuePrefix iv))"

lemma valueFromRow_norm:
  assumes "cellsOk L' def' vals"
  shows "valueFromRow L ix def (map normValue vals) = valueFromRow L ix def vals"
proof -
  have "cellValue L ix (normValue (vals ! ci)) = cellValue L ix (vals ! ci)" if "ci < length vals" for ci
  proof -
    have "cellOk L' (colTyp (tblColumns def' ! ci)) (vals ! ci)" using assms that by (simp add: list_all2_conv_all_nth)
    then have "vNull (vals ! ci) \<or> normValue (vals ! ci) = vals ! ci" by (rule cellOk_flat)
    then show ?thesis
    proof
      assume "vNull (vals ! ci)"
      then show ?thesis by (simp add: cellValue_def normValue_def)
    qed simp
  qed
  then show ?thesis by (simp add: valueFromRow_cell ebind_def split: sum.split)
qed

lemma nulFree_changed:
  assumes "changedBy L def es old new" "nulFree L def ix old" "\<forall>e\<in>es. exprFree L ix e"
  shows "nulFree L def ix new"
  unfolding nulFree_def
proof (intro allI impI)
  fix iv
  assume "valueFromRow L ix def new = Inr (Some iv)"
  then obtain ci where ci: "columnIndex L def (ixColumn ix) = Inr ci" "ci < length new" "cellValue L ix (new ! ci) = Inr (Some iv)"
    by (auto simp: valueFromRow_cell ebind_eq_Inr split: if_splits)
  have len: "length new = length old" using assms(1) by (auto simp: changedBy_def dest!: list_all2_lengthD)
  then consider "new ! ci = old ! ci" | e ty where "e \<in> es" "exprToValue L e ty = Inr (new ! ci)"
    using assms(1) ci(2) by (auto simp: changedBy_def)
  then show "nul \<notin> set (valuePrefix iv)"
  proof cases
    case 1
    then have "valueFromRow L ix def old = Inr (Some iv)" using ci len by (simp add: valueFromRow_cell)
    then show ?thesis using assms(2) by (simp add: nulFree_def)
  next
    case 2
    then show ?thesis using assms(3) ci(3) by (auto simp: exprFree_def)
  qed
qed

lemma nulFree_null: "nulFree L def ix (nullRow def)"
  by (auto simp: nulFree_def valueFromRow_cell ebind_eq_Inr nullRow_def cellValue_def split: if_splits)

lemma nulFree_norm: "cellsOk L' def' vals \<Longrightarrow> nulFree L def ix (map normValue vals) \<longleftrightarrow> nulFree L def ix vals"
  by (simp add: nulFree_def valueFromRow_norm)

end
