(* ===== verification/SqlInv.thy ===== *)
theory SqlInv
  imports SqlRow
begin

text \<open>
  Statements keep the caches of the SQL layer and the stored data together: each of INSERT, UPDATE and
  DELETE preserves \<open>sqlInv\<close>, whatever it finds and whatever the file system answers, and what each does to the
  content of the store is stated with it.
\<close>

section \<open>Keys of different kinds\<close>

lemma rowKeyPrefix_others [simp]:
  "\<not> prefix (rowKeyPrefix n) (catalogTableKey j)" "\<not> prefix (rowKeyPrefix n) (catalogIndexKey j)"
  "catalogTableKey j \<noteq> catalogIndexKey i" "rowKey n enc \<noteq> catalogIndexKey i"
  "\<not> prefix catalogTablePrefix (catalogIndexKey i)" "\<not> prefix catalogIndexPrefix (catalogTableKey j)"
  "\<not> prefix catalogIndexPrefix (rowKey n enc)"
  by (simp_all add: rowKeyPrefix_def rowKey_def catalogTableKey_def catalogIndexKey_def catalogTablePrefix_def catalogIndexPrefix_def
      reservedPrefix_def)

lemmas otherKeys_sym [simp] = rowKeyPrefix_others(3,4) [symmetric] rowKey_not_catalog(1) [symmetric]

lemma catalogKey_inj [simp]:
  "catalogTableKey i = catalogTableKey j \<longleftrightarrow> i = j" "catalogIndexKey i = catalogIndexKey j \<longleftrightarrow> i = j"
  by (simp_all add: catalogTableKey_def catalogIndexKey_def)


section \<open>Parts of the store that a statement leaves alone\<close>

lemma stored_cong:
  assumes "\<forall>enc. m' (rowKey (tblName def) enc) = m (rowKey (tblName def) enc)"
  shows "stored m' def = stored m def" "rowsOk L m' def = rowsOk L m def" "secOk L m' def si = secOk L m def si"
    "pkOk m' (tblName def) t = pkOk m (tblName def) t"
proof -
  show *: "stored m' def = stored m def" using assms by (simp add: stored_def fun_eq_iff)
  then show "secOk L m' def si = secOk L m def si" by (simp add: secOk_def indexed_def)
  show "rowsOk L m' def = rowsOk L m def" "pkOk m' (tblName def) t = pkOk m (tblName def) t"
    using assms by (simp_all add: rowsOk_def pkOk_def)
qed

definition rowFrame :: "string \<Rightarrow> (string \<rightharpoonup> bytes) \<Rightarrow> (string \<rightharpoonup> bytes) \<Rightarrow> bool" where
  \<comment> \<open>only rows of this table differ\<close>
  "rowFrame n m m' \<longleftrightarrow> (\<forall>k. \<not> prefix (rowKeyPrefix n) k \<longrightarrow> m' k = m k)"

lemma rowFrame_other:
  "rowFrame n m m' \<Longrightarrow> CHR ''/'' \<notin> set n \<Longrightarrow> CHR ''/'' \<notin> set j \<Longrightarrow> j \<noteq> n \<Longrightarrow> m' (rowKey j enc) = m (rowKey j enc)"
  by (simp add: rowFrame_def rowKey_table_unique)

lemma sqlInv_slash: "sqlInv L d \<Longrightarrow> fmlookup (tables d) n = Some def \<Longrightarrow> CHR ''/'' \<notin> set n"
  by (erule (1) sqlInv_table) (simp add: tableOk_def)

lemma sqlInv_name: "sqlInv L d \<Longrightarrow> fmlookup (tables d) n = Some def \<Longrightarrow> tblName def = n"
  by (erule (1) sqlInv_table)

definition reindexed :: "golib \<Rightarrow> (string \<rightharpoonup> bytes) \<Rightarrow> string \<Rightarrow> TableDef \<Rightarrow> secondaryIdx \<Rightarrow> secondaryIdx \<Rightarrow> bool" where
  "reindexed L m n def si si' \<longleftrightarrow>
     siDef si' = siDef si \<and> (if ixTable (siDef si) = n then secOk L m def si' else si' = si)"

lemma sqlInv_rows:
  assumes inv: "sqlInv L d" "fmlookup (tables d) n = Some def" and tbl: "tables d' = tables d"
    and frame: "rowFrame n (current d) (current d')" and rows: "rowsOk L (current d') def"
    and tree: "fmlookup (indexes d') n = Some tree" "pkOk (current d') n tree"
      "\<forall>j. j \<noteq> n \<longrightarrow> fmlookup (indexes d') j = fmlookup (indexes d) j"
    and sec: "\<forall>i. rel_option (reindexed L (current d') n def) (fmlookup (secIndexes d) i) (fmlookup (secIndexes d') i)"
  shows "sqlInv L d'"
proof -
  let ?m = "current d" and ?m' = "current d'"
  have n: "CHR ''/'' \<notin> set n" "tblName def = n" using sqlInv_slash [OF inv] sqlInv_name [OF inv] by simp_all
  have cat: "?m' (catalogTableKey j) = ?m (catalogTableKey j)" "?m' (catalogIndexKey j) = ?m (catalogIndexKey j)" for j
    using frame by (simp_all add: rowFrame_def)
  have other: "?m' (rowKey j enc) = ?m (rowKey j enc)" if "CHR ''/'' \<notin> set j" "j \<noteq> n" for j enc
    using rowFrame_other [OF frame n(1) that] .
  have "tableState L ?m' j df (fmlookup (indexes d') j)" if j: "fmlookup (tables d') j = Some df" for j df
  proof (cases "j = n")
    case True
    then have "tableOk L n df" "df = def" using j tbl inv by (auto elim: sqlInv_table)
    then show ?thesis using True rows tree by (simp add: tableState_def)
  next
    case False
    have jd: "fmlookup (tables d) j = Some df" using j tbl by simp
    then have nm: "tblName df = j" and sl: "CHR ''/'' \<notin> set j" using sqlInv_slash [OF inv(1)] sqlInv_name [OF inv(1)] by simp_all
    have "tableState L ?m j df (fmlookup (indexes d) j)" using inv(1) jd unfolding sqlInv_def by blast
    then show ?thesis
      using stored_cong(2,4) [of ?m' df ?m] other [OF sl False] tree(3) False nm by (simp add: tableState_def)
  qed
  moreover have "indexState L ?m' (tables d') i si'" if i: "fmlookup (secIndexes d') i = Some si'" for i si'
  proof -
    obtain si where si: "fmlookup (secIndexes d) i = Some si" "reindexed L ?m' n def si si'"
      using sec i by (metis option_rel_Some2)
    obtain df where df: "fmlookup (tables d) (ixTable (siDef si)) = Some df" "ixOk L df (siDef si)" "secOk L ?m df si"
      "ixName (siDef si) = i"
      using sqlInv_index [OF inv(1) si(1)] .
    have nm: "tblName df = ixTable (siDef si)" and sl: "CHR ''/'' \<notin> set (ixTable (siDef si))"
      using sqlInv_slash [OF inv(1) df(1)] sqlInv_name [OF inv(1) df(1)] by simp_all
    show ?thesis
    proof (cases "ixTable (siDef si) = n")
      case True
      then show ?thesis using si(2) df inv(2) tbl by (simp add: indexState_def reindexed_def)
    next
      case False
      then have "secOk L ?m' df si" using stored_cong(3) [of ?m' df ?m L si] other [OF sl] df(3) nm by simp
      then show ?thesis using si(2) df tbl False by (simp add: indexState_def reindexed_def)
    qed
  qed
  moreover have "map_option (marshalIndex \<circ> siDef) (fmlookup (secIndexes d') i) = map_option (marshalIndex \<circ> siDef) (fmlookup (secIndexes d) i)" for i
    using spec [OF sec, of i] by (cases "fmlookup (secIndexes d) i"; cases "fmlookup (secIndexes d') i") (auto simp: reindexed_def)
  moreover have "?m' (rowKey j enc) = None" if "fmlookup (tables d') j = None" "CHR ''/'' \<notin> set j" for j enc
  proof -
    have "j \<noteq> n" using that inv(2) tbl by auto
    then show ?thesis using other that inv(1) tbl by (simp add: sqlInv_def)
  qed
  ultimately show ?thesis using inv(1) cat tbl by (simp add: sqlInv_def)
qed


section \<open>The loop over the secondary indexes\<close>

lemma secEach_loop:
  fixes d :: sqldb
  assumes "distinct ks" "\<forall>k\<in>set ks. fmlookup s k \<noteq> None"
    and "\<forall>k\<in>set ks. \<forall>si. fmlookup s k = Some si \<longrightarrow> ixTable (siDef si) = n \<longrightarrow> fst (f si) = None"
  shows "\<exists>s'. stepAll (\<lambda>k d. let si = the (fmlookup (secIndexes d) k) in
        if ixTable (siDef si) \<noteq> n then (None, d)
        else (case f si of (e, si1) \<Rightarrow> (e, d\<lparr>secIndexes := fmupd k si1 (secIndexes d)\<rparr>))) ks (d\<lparr>secIndexes := s\<rparr>)
      = (None, d\<lparr>secIndexes := s'\<rparr>)
    \<and> (\<forall>i. fmlookup s' i = (if i \<in> set ks
          then map_option (\<lambda>si. if ixTable (siDef si) = n then snd (f si) else si) (fmlookup s i) else fmlookup s i))"
  using assms
proof (induction ks arbitrary: s)
  case Nil
  show ?case by (rule exI [of _ s]) simp
next
  case (Cons k ks)
  from Cons.prems(2) obtain si where si: "fmlookup s k = Some si" by (cases "fmlookup s k") simp_all
  define s1 where "s1 = (if ixTable (siDef si) = n then fmupd k (snd (f si)) s else s)"
  have look: "fmlookup s1 i = (if i = k then Some (if ixTable (siDef si) = n then snd (f si) else si) else fmlookup s i)" for i
    using si by (simp add: s1_def)
  have "\<forall>k\<in>set ks. fmlookup s1 k = fmlookup s k" using Cons.prems(1) look by auto
  then obtain s' where s': "stepAll (\<lambda>k d. let si = the (fmlookup (secIndexes d) k) in
        if ixTable (siDef si) \<noteq> n then (None, d)
        else (case f si of (e, si1) \<Rightarrow> (e, d\<lparr>secIndexes := fmupd k si1 (secIndexes d)\<rparr>))) ks (d\<lparr>secIndexes := s1\<rparr>)
      = (None, d\<lparr>secIndexes := s'\<rparr>)"
    "\<forall>i. fmlookup s' i = (if i \<in> set ks
          then map_option (\<lambda>si. if ixTable (siDef si) = n then snd (f si) else si) (fmlookup s1 i) else fmlookup s1 i)"
    using Cons.IH [of s1] Cons.prems by auto
  have "fst (f si) = None" if "ixTable (siDef si) = n" using Cons.prems(3) si that by simp
  then have "stepAll (\<lambda>k d. let si = the (fmlookup (secIndexes d) k) in
        if ixTable (siDef si) \<noteq> n then (None, d)
        else (case f si of (e, si1) \<Rightarrow> (e, d\<lparr>secIndexes := fmupd k si1 (secIndexes d)\<rparr>))) (k # ks) (d\<lparr>secIndexes := s\<rparr>)
      = (None, d\<lparr>secIndexes := s'\<rparr>)"
    using s'(1) si by (cases "f si") (auto simp: s1_def Let_def)
  moreover have "fmlookup s' i = (if i \<in> set (k # ks)
          then map_option (\<lambda>si. if ixTable (siDef si) = n then snd (f si) else si) (fmlookup s i) else fmlookup s i)" for i
    using s'(2) look si Cons.prems(1) by auto
  ultimately show ?case by blast
qed

lemma secEach_spec:
  assumes "\<forall>i si. fmlookup (secIndexes d) i = Some si \<longrightarrow> ixTable (siDef si) = n \<longrightarrow> fst (f si) = None"
  obtains s where "secEach n f d = (None, d\<lparr>secIndexes := s\<rparr>)"
    "\<forall>i. fmlookup s i = map_option (\<lambda>si. if ixTable (siDef si) = n then snd (f si) else si) (fmlookup (secIndexes d) i)"
proof -
  have keys: "distinct (fmkeys (secIndexes d))" "i \<in> set (fmkeys (secIndexes d)) \<longleftrightarrow> fmlookup (secIndexes d) i \<noteq> None" for i
    by (auto simp: fmlookup_dom_iff)
  obtain s where "secEach n f d = (None, d\<lparr>secIndexes := s\<rparr>)"
    "\<forall>i. fmlookup s i = (if i \<in> set (fmkeys (secIndexes d))
       then map_option (\<lambda>si. if ixTable (siDef si) = n then snd (f si) else si) (fmlookup (secIndexes d) i) else fmlookup (secIndexes d) i)"
    using secEach_loop [OF keys(1), of "secIndexes d" n f d] assms keys(2) unfolding secEach_def by auto
  then show thesis using that [of s] keys(2) by auto
qed


section \<open>INSERT\<close>

lemma caches_store [simp]:
  "current (d\<lparr>indexes := x\<rparr>) = current d" "current (d\<lparr>secIndexes := y\<rparr>) = current d" "current (d\<lparr>tables := z\<rparr>) = current d"
  "seqOk (d\<lparr>indexes := x\<rparr>) = seqOk d" "seqOk (d\<lparr>secIndexes := y\<rparr>) = seqOk d" "seqOk (d\<lparr>tables := z\<rparr>) = seqOk d"
  "seqNext out d0 (d\<lparr>indexes := x\<rparr>) = seqNext out d0 d" "seqNext out d0 (d\<lparr>secIndexes := y\<rparr>) = seqNext out d0 d"
  "seqNext out d0 (d\<lparr>tables := z\<rparr>) = seqNext out d0 d"
  by (simp_all add: fun_eq_iff current_def versionsOf_def seqOk_def seqNext_def logged_def settled_def)

definition sqlOk :: "golib \<Rightarrow> sqldb \<Rightarrow> bool" where
  \<comment> \<open>a database between two statements\<close>
  "sqlOk L d \<longleftrightarrow> sqlInv L d \<and> seqOk d"

definition sqlNext :: "golib \<Rightarrow> writeOutcome \<Rightarrow> sqldb \<Rightarrow> sqldb \<Rightarrow> bool" where
  \<comment> \<open>the database after a statement\<close>
  "sqlNext L out d d' \<longleftrightarrow> sqlInv L d' \<and> seqNext out d d'"

lemma sqlNext_refl: "sqlOk L d \<Longrightarrow> sqlNext L out d d"
  by (simp add: sqlNext_def sqlOk_def seqNext_def logged_def)

definition tableIndexes :: "sqldb \<Rightarrow> string \<Rightarrow> secondaryIdx set" where
  "tableIndexes d n = {si. (\<exists>i. fmlookup (secIndexes d) i = Some si) \<and> ixTable (siDef si) = n}"

lemma tableIndexes_ok:
  assumes "sqlInv L d" "fmlookup (tables d) n = Some def" "si \<in> tableIndexes d n"
  shows "ixOk L def (siDef si)" "secOk L (current d) def si"
  using assms by (auto simp: tableIndexes_def elim!: sqlInv_index)

lemma update_fails:
  assumes "sqlOk L d" "db.more d' = db.more d" "current d' = current d" "seqNext out d d'"
  shows "sqlNext L out d d'"
  using assms sqldb_more [OF assms(2)] by (simp add: sqlOk_def sqlNext_def sqlInv_def)

text \<open>After its transaction a statement on the rows of one table brings the indexes of that table up to date.\<close>

lemma reindex_table:
  assumes inv: "sqlInv L d" "fmlookup (tables d) n = Some def" and more: "db.more d1 = db.more d"
    and frame: "rowFrame n (current d) (current d1)" and rows: "rowsOk L (current d1) def" and seq: "seqNext out d d1"
    and tree: "pkOk (current d1) n tree"
    and f: "\<forall>si\<in>tableIndexes d n. \<exists>si'. f si = (None, si') \<and> siDef si' = siDef si \<and> secOk L (current d1) def si'"
  obtains d' where "secEach n f (d1\<lparr>indexes := fmupd n tree (indexes d1)\<rparr>) = (None, d')" "sqlNext L out d d'"
    "current d' = current d1" "tables d' = tables d"
proof -
  note same = sqldb_more [OF more]
  let ?d2 = "d1\<lparr>indexes := fmupd n tree (indexes d1)\<rparr>"
  have sec: "secIndexes ?d2 = secIndexes d" using same by simp
  have "\<forall>i si. fmlookup (secIndexes ?d2) i = Some si \<longrightarrow> ixTable (siDef si) = n \<longrightarrow> fst (f si) = None"
    using f sec by (fastforce simp: tableIndexes_def)
  then obtain s where s: "secEach n f ?d2 = (None, ?d2\<lparr>secIndexes := s\<rparr>)"
    "\<forall>i. fmlookup s i = map_option (\<lambda>si. if ixTable (siDef si) = n then snd (f si) else si) (fmlookup (secIndexes ?d2) i)"
    by (rule secEach_spec)
  let ?d' = "?d2\<lparr>secIndexes := s\<rparr>"
  have "rel_option (reindexed L (current d1) n def) (fmlookup (secIndexes d) i) (fmlookup s i)" for i
  proof (cases "fmlookup (secIndexes d) i")
    case None
    then show ?thesis using s(2) sec by simp
  next
    case (Some si)
    then have "reindexed L (current d1) n def si (if ixTable (siDef si) = n then snd (f si) else si)"
      using f by (auto simp: reindexed_def tableIndexes_def)
    then show ?thesis using Some s(2) sec by simp
  qed
  then have "sqlInv L ?d'"
    using sqlInv_rows [OF inv, of ?d' tree] same frame rows tree by simp
  then show thesis using that [of ?d'] s(1) same seq by (simp add: sqlNext_def)
qed

lemma secAdd_norm:
  "cellsOk L' def' vals \<Longrightarrow> secAdd L def (map normValue vals) pk rk si = secAdd L def vals pk rk si"
  by (simp add: secAdd_def valueFromRow_norm)

lemma fresh_get: "txGet k (freshTx wr d) (begun d) = (current d k, (begun d)\<lparr>reads := reads (begun d) + 1\<rparr>)"
proof -
  have "openTx wr (begun d) (freshTx wr d)" using freshTx_open(1) openTx_quiet [OF begun_quiet] by blast
  then show ?thesis
    using openTx_get [of wr "begun d" "freshTx wr d" k] quiet_current [OF begun_quiet, of d] by (simp add: freshTx_open(2))
qed

lemma quiet_begun_reads: "quiet d ((begun d)\<lparr>reads := r\<rparr>)"
  by (rule quiet_trans [OF begun_quiet quiet_fields(1)])

lemma insertTx_run:
  assumes "seqOk d" "roomFor 2 d"
  obtains d1 where "dbUpdate out () (insertTx rk page) d =
      (if current d rk \<noteq> None then Some (ErrSQL ''duplicate primary key'') else if out = WriteOk then None else Some ErrIO, (), d1)"
    "current d1 = (if current d rk = None \<and> out = WriteOk then (current d)(rk \<mapsto> page) else current d)"
    "db.more d1 = db.more d" "seqNext out d d1"
proof -
  let ?t = "freshTx True d" and ?d = "(begun d)\<lparr>reads := reads (begun d) + 1\<rparr>"
  show thesis
  proof (cases "current d rk")
    case None
    obtain t1 where t1: "txPut rk page ?t = (None, t1)" "openTx True d t1" "content (current d) (writes t1) = (current d)(rk \<mapsto> page)"
      using openTx_put [OF freshTx_open(1) [of True d], where k = rk and v = page and m = "current d"] freshTx_open(2) [of True d] by auto
    have run: "insertTx rk page ?t (begun d) = (None, (), t1, ?d)"
      using None t1(1) by (simp add: insertTx_def fresh_get)
    show thesis
    proof (rule dbUpdate_commits [where fn = "insertTx rk page" and out = out, OF assms run quiet_begun_reads t1(2,3) put_writes [OF t1(1)]])
      fix d1
      assume "dbUpdate out () (insertTx rk page) d = (Some ErrIO, (), d1)" "current d1 = current d" "db.more d1 = db.more d" "seqNext out d d1" "out \<noteq> WriteOk"
      then show thesis using that [of d1] None by simp
    next
      fix d1
      assume "dbUpdate out () (insertTx rk page) d = (None, (), d1)" "current d1 = (current d)(rk \<mapsto> page)" "db.more d1 = db.more d" "seqNext out d d1" "out = WriteOk"
      then show thesis using that [of d1] None by simp
    qed
  next
    case (Some raw)
    then have run: "insertTx rk page ?t (begun d) = (Some (ErrSQL ''duplicate primary key''), (), ?t, ?d)"
      by (simp add: insertTx_def fresh_get)
    obtain d1 where "dbUpdate out () (insertTx rk page) d = (Some (ErrSQL ''duplicate primary key''), (), d1)" "current d1 = current d"
      "db.more d1 = db.more d" "seqNext out d d1"
      by (rule dbUpdate_fails [where fn = "insertTx rk page", OF assms run quiet_begun_reads freshTx_open(1)])
    then show thesis using that [of d1] Some by simp
  qed
qed

text \<open>A secondary index takes the row that INSERT makes.\<close>

lemma secAdd_insert:
  assumes inv: "sqlInv L d" "fmlookup (tables d) n = Some def" and si: "si \<in> tableIndexes d n"
    and new: "current d (rowKey n enc) = None" and pk: "pkKeyFromEncoded enc = Inr pk"
    and row: "rowOk L def enc (map normValue vals)" "unpackRow page = Inr (map normValue vals)" "changedBy L def (set es) (nullRow def) vals"
    and free: "\<forall>e\<in>set es. exprFree L (siDef si) e"
  shows "\<exists>si'. secAdd L def vals pk (rowKey n enc) si = (None, si') \<and> siDef si' = siDef si
    \<and> secOk L ((current d)(rowKey n enc \<mapsto> page)) def si'"
proof -
  have tb: "tableOk L n def" "rowsOk L (current d) def" "tblName def = n" using inv by (auto elim: sqlInv_table)
  have cells: "cellsOk L def vals" using row(3) by (simp add: changedBy_def)
  have "nulFree L def (siDef si) (map normValue vals)"
    using nulFree_changed [OF row(3) nulFree_null] free nulFree_norm [OF cells] by simp
  then show ?thesis
    using secOk_add [OF tableIndexes_ok(2) [OF inv si] tb(2,1) tableIndexes_ok(1) [OF inv si], of enc page "map normValue vals" pk]
      new pk row tb(3) secAdd_norm [OF cells] by (metis (no_types, lifting))
qed

lemma execInsert_spec:
  assumes ok: "sqlOk L d" "roomFor 2 d" "libFinite L"
    and tbl: "normalizeName L stTable = n" "fmlookup (tables d) n = Some def"
    and row: "insertRow L def n cols es = Inr (vals, pk, rk, page)"
    and free: "\<forall>si\<in>tableIndexes d n. \<forall>e\<in>set es. exprFree L (siDef si) e"
  obtains d' where "execInsert L out stTable cols es d =
      (if current d rk \<noteq> None then (0, Some (ErrSQL ''duplicate primary key''))
       else if out = WriteOk then (1, None) else (0, Some ErrIO), d')"
    "current d' = (if current d rk = None \<and> out = WriteOk then (current d)(rk \<mapsto> page) else current d)"
    "sqlNext L out d d'" "tables d' = tables d"
proof -
  have inv: "sqlInv L d" "seqOk d" using ok(1) by (simp_all add: sqlOk_def)
  obtain tree where tb: "tableOk L n def" "rowsOk L (current d) def" "fmlookup (indexes d) n = Some tree"
    "pkOk (current d) n tree" "tblName def = n"
    using sqlInv_table [OF inv(1) tbl(2)] .
  obtain enc where r: "rk = rowKey n enc" "enc = pkEncode pk" "pkKeyFromEncoded enc = Inr pk" "rowOk L def enc (map normValue vals)"
    "unpackRow page = Inr (map normValue vals)" "changedBy L def (set es) (nullRow def) vals"
    by (rule insertRow_ok [OF ok(3) tb(1) row])
  obtain d1 where d1: "dbUpdate out () (insertTx rk page) d =
      (if current d rk \<noteq> None then Some (ErrSQL ''duplicate primary key'') else if out = WriteOk then None else Some ErrIO, (), d1)"
    "current d1 = (if current d rk = None \<and> out = WriteOk then (current d)(rk \<mapsto> page) else current d)"
    "db.more d1 = db.more d" "seqNext out d d1"
    by (rule insertTx_run [OF inv(2) ok(2)])
  note same = sqldb_more [OF d1(3)]
  have exec: "execInsert L out stTable cols es d =
      (case dbUpdate out () (insertTx rk page) d of
             (Some e, _, d1) \<Rightarrow> ((0, Some e), d1)
           | (None, _, d1) \<Rightarrow>
               (case indexRow n pk rk d1 of
                  Inl e \<Rightarrow> ((0, Some e), d1)
                | Inr d2 \<Rightarrow>
                    (case secEach n (secAdd L def vals pk rk) d2 of
                       (Some e, d3) \<Rightarrow> ((0, Some e), d3)
                     | (None, d3) \<Rightarrow> ((1, None), d3))))"
    using tbl row by (simp add: execInsert_def tableDef_def)
  show thesis
  proof (cases "current d rk = None \<and> out = WriteOk")
    case False
    then have "current d1 = current d" using d1(2) by (simp only: if_False)
    then have "sqlNext L out d d1" using update_fails [OF ok(1) d1(3) _ d1(4)] by simp
    then show thesis using that [of d1] False d1 same unfolding exec by (auto split: if_splits)
  next
    case True
    let ?m = "(current d)(rk \<mapsto> page)"
    have m: "current d1 = ?m" using True d1(2) by simp
    obtain tree' where t: "btPut tree pk rk = Some tree'" "pkOk ?m n tree'"
      using pkOk_put [OF tb(4), of pk page] r(1,2) by auto
    have f: "\<forall>si\<in>tableIndexes d n. \<exists>si'. secAdd L def vals pk rk si = (None, si') \<and> siDef si' = siDef si \<and> secOk L ?m def si'"
      using secAdd_insert [OF inv(1) tbl(2) _ _ r(3-6)] free True unfolding r(1) by blast
    have frame: "rowFrame n (current d) (current d1)" using m r(1) by (auto simp: rowFrame_def rowKey_split)
    have rows: "rowsOk L (current d1) def" using rowsOk_put [OF tb(2) r(5,4)] m r(1) tb(5) by simp
    obtain d' where d': "secEach n (secAdd L def vals pk rk) (d1\<lparr>indexes := fmupd n tree' (indexes d1)\<rparr>) = (None, d')" "sqlNext L out d d'"
      "current d' = current d1" "tables d' = tables d"
      by (rule reindex_table [OF inv(1) tbl(2) d1(3) frame rows d1(4), of tree' "secAdd L def vals pk rk"]) (use t(2) f m in simp_all)
    have "indexRow n pk rk d1 = Inr (d1\<lparr>indexes := fmupd n tree' (indexes d1)\<rparr>)"
      using tb(3) t(1) same by (simp add: indexRow_def orPanic_def)
    then show thesis using that [of d'] d' True d1(1) m unfolding exec by simp
  qed
qed


section \<open>DELETE\<close>

definition without :: "(string \<rightharpoonup> bytes) \<Rightarrow> string list \<Rightarrow> (string \<rightharpoonup> bytes)" where
  "without m ks = foldl (\<lambda>m k. m(k := None)) m ks"

lemma without_simps [simp]: "without m [] = m" "without m (k # ks) = without (m(k := None)) ks"
  by (simp_all add: without_def)

lemma without_apply: "without m ks k = (if k \<in> set ks then None else m k)"
  by (induction ks arbitrary: m) auto

lemma deleteRows_run:
  "openTx True d t \<Longrightarrow> \<forall>item\<in>set items. current d (riKey item) \<noteq> None \<Longrightarrow> \<exists>t'. stepAll deleteRow items (acc, t) = (None, acc @ items, t') \<and> openTx True d t'
     \<and> content m (writes t') = without (content m (writes t)) (map riKey items)"
proof (induction items arbitrary: acc t)
  case (Cons item items)
  obtain t1 where t1: "txDel (riKey item) t = (None, t1)" "openTx True d t1"
    "content m (writes t1) = (content m (writes t))(riKey item := None)"
    using openTx_del [OF Cons.prems(1), of "riKey item" m] Cons.prems(2) by auto
  obtain t' where "stepAll deleteRow items (acc @ [item], t1) = (None, (acc @ [item]) @ items, t')" "openTx True d t'"
    "content m (writes t') = without (content m (writes t1)) (map riKey items)"
    using Cons.IH [OF t1(2), of "acc @ [item]"] Cons.prems(2) by auto
  moreover have "deleteRow item (acc, t) = (None, acc @ [item], t1)" using t1(1) by (simp add: deleteRow_def)
  ultimately show ?case using t1(3) by (intro exI [of _ t']) simp
qed auto

lemma unindex_loop:
  assumes ok: "rowsOk L m0 def" "tableOk L n def" "tblName def = n"
  shows "set ks \<subseteq> liveRows m0 def \<Longrightarrow> pkOk m n tree \<Longrightarrow>
    \<exists>tree'. foldl (\<lambda>r item. ebind r (\<lambda>t. orPanic (btDelete t (riPk item)))) (Inr tree) (map (rowAt m0 def) ks) = Inr tree'
      \<and> pkOk (without m ks) n tree'"
proof (induction ks arbitrary: m tree)
  case (Cons k ks)
  then have "k \<in> liveRows m0 def" by simp
  then obtain pk where k: "k = rowKey n (pkEncode pk)" "riPk (rowAt m0 def k) = pk"
    using liveRows_cases [OF _ ok(1,2)] ok(3) by (metis rowItem.select_convs(1))
  obtain t1 where "btDelete tree pk = Some t1" "pkOk (m(k := None)) n t1"
    using pkOk_del [OF Cons.prems(2), of pk] k(1) by metis
  moreover from this(2) obtain tree' where "foldl (\<lambda>r item. ebind r (\<lambda>t. orPanic (btDelete t (riPk item)))) (Inr t1) (map (rowAt m0 def) ks) = Inr tree'"
      "pkOk (without (m(k := None)) ks) n tree'"
    using Cons.IH [of "m(k := None)" t1] Cons.prems(1) by (metis insert_subset list.simps(15))
  ultimately show ?case using k(2) by (intro exI [of _ tree']) (simp add: orPanic_def)
qed auto

lemma secDrop_loop:
  assumes ok: "rowsOk L m0 def" "tableOk L n def"
  shows "set ks \<subseteq> liveRows m0 def \<Longrightarrow> distinct ks \<Longrightarrow> \<forall>k\<in>set ks. m k = m0 k \<Longrightarrow> rowsOk L m def \<Longrightarrow>
    ixOk L def (siDef si) \<Longrightarrow> secOk L m def si \<Longrightarrow>
    \<exists>si'. stepAll (\<lambda>item. secDrop L def (riValues item) (riPk item)) (map (rowAt m0 def) ks) si = (None, si')
      \<and> siDef si' = siDef si \<and> secOk L (without m ks) def si'"
proof (induction ks arbitrary: m si)
  case (Cons k ks)
  then have "k \<in> liveRows m0 def" by simp
  then obtain enc vals pk where k: "k = rowKey (tblName def) enc" "pkKeyFromEncoded enc = Inr pk" "stored m0 def enc vals"
    "rowAt m0 def k = \<lparr>riPk = pk, riKey = k, riValues = vals\<rparr>"
    by (rule liveRows_cases [OF _ ok])
  have "stored m def enc vals" using k(1,3) Cons.prems(3) by (simp add: stored_def)
  then obtain s1 where s1: "secDrop L def vals pk si = (None, s1)" "siDef s1 = siDef si" "secOk L (m(k := None)) def s1"
    using secOk_drop [OF Cons.prems(6,4) ok(2) Cons.prems(5) _ k(2)] k(1) by metis
  have rest: "set ks \<subseteq> liveRows m0 def" "distinct ks" "\<forall>j\<in>set ks. (m(k := None)) j = m0 j" "ixOk L def (siDef s1)"
    using Cons.prems s1(2) by auto
  have "rowsOk L (m(k := None)) def" using rowsOk_del [OF Cons.prems(4)] k(1) by simp
  then obtain si' where "stepAll (\<lambda>item. secDrop L def (riValues item) (riPk item)) (map (rowAt m0 def) ks) s1 = (None, si')"
      "siDef si' = siDef s1" "secOk L (without (m(k := None)) ks) def si'"
    using Cons.IH [OF rest(1-3) _ rest(4) s1(3)] by blast
  then show ?case using s1 k(4) by (intro exI [of _ si']) simp
qed auto

lemma rowsOk_without: "rowsOk L m def \<Longrightarrow> rowsOk L (without m ks) def"
  by (auto simp: rowsOk_def without_apply)

lemma rowFrame_without: "set ks \<subseteq> liveRows m def \<Longrightarrow> rowFrame (tblName def) m' (without m' ks)"
  by (auto simp: rowFrame_def without_apply liveRows_def)

lemma fresh_collect:
  assumes "sqlInv L d" "fmlookup (tables d) n = Some def"
  obtains r d' where "collectRows L def whr (freshTx wr d) (begun d) = (r, d')" "liveItems (current d) def r" "quiet d d'"
proof -
  have q: "quiet d (begun d)" by (rule begun_quiet)
  have "openTx wr (begun d) (freshTx wr d)" using openTx_quiet [OF q] freshTx_open(1) by blast
  then have "liveItems (current (begun d)) def (fst (collectRows L def whr (freshTx wr d) (begun d)))
      \<and> quiet (begun d) (snd (collectRows L def whr (freshTx wr d) (begun d)))"
    using collectRows_live [OF sqlInv_quiet [OF q assms(1)] _ _ freshTx_open(2)] assms(2) quiet_sql [OF q] by simp
  then show thesis using that quiet_trans [OF q] quiet_current [OF q] by (metis prod.collapse)
qed

text \<open>The transaction of DELETE: either nothing changes, or the rows it reports are gone.\<close>

lemma deleteTx_run:
  assumes inv: "sqlInv L d" "fmlookup (tables d) n = Some def" and seq: "seqOk d" "roomFor 2 d"
  obtains (failed) e x d1 where "dbUpdate out [] (deleteTx L def whr) d = (Some e, x, d1)" "current d1 = current d"
      "db.more d1 = db.more d" "seqNext out d d1"
      "out \<noteq> WriteOk \<or> (\<exists>d2. collectRows L def whr (freshTx True d) (begun d) = (Inl e, d2))"
  | (deleted) ks d1 d2 where "dbUpdate out [] (deleteTx L def whr) d = (None, map (rowAt (current d) def) ks, d1)"
      "current d1 = without (current d) ks" "distinct ks" "set ks \<subseteq> liveRows (current d) def"
      "db.more d1 = db.more d" "seqNext out d d1"
      "collectRows L def whr (freshTx True d) (begun d) = (Inr (map (rowAt (current d) def) ks), d2)"
proof -
  let ?t = "freshTx True d"
  obtain r d2 where r: "collectRows L def whr ?t (begun d) = (r, d2)" "liveItems (current d) def r" "quiet d d2"
    by (rule fresh_collect [OF inv])
  show thesis
  proof (cases r)
    case (Inl e)
    then have run: "deleteTx L def whr ?t (begun d) = (Some e, [], ?t, d2)" using r(1) by (simp add: deleteTx_def)
    obtain d1 where "dbUpdate out [] (deleteTx L def whr) d = (Some e, [], d1)" "current d1 = current d" "db.more d1 = db.more d" "seqNext out d d1"
      by (rule dbUpdate_fails [where fn = "deleteTx L def whr", OF seq run r(3) freshTx_open(1)])
    then show thesis using failed [of e "[]" d1] r(1) Inl by simp
  next
    case (Inr items)
    then obtain ks where ks: "items = map (rowAt (current d) def) ks" "distinct ks" "set ks \<subseteq> liveRows (current d) def"
      using r(2) by (auto simp: liveItems_def)
    obtain t' where t': "stepAll deleteRow items ([], ?t) = (None, items, t')" "openTx True d t'"
      "content (current d) (writes t') = without (content (current d) (writes ?t)) (map riKey items)"
      using deleteRows_run [OF freshTx_open(1) [of True d], where items = items and acc = "[]" and m = "current d"] ks by (auto simp: liveRows_def)
    have m': "content (current d) (writes t') = without (current d) ks"
      using t'(3) ks(1) freshTx_open(2) [of True d] by (simp add: comp_def)
    have run: "deleteTx L def whr ?t (begun d) = (None, items, t', d2)" using r(1) Inr t'(1) by (simp add: deleteTx_def)
    obtain d1 where d1: "dbUpdate out [] (deleteTx L def whr) d = (commitError None out t', items, d1)"
      "current d1 = (if commitError None out t' = None then content (current d) (writes t') else current d)"
      "db.more d1 = db.more d" "seqNext out d d1"
      by (rule dbUpdate_seq [where fn = "deleteTx L def whr", OF seq run r(3) t'(2)])
    show thesis
    proof (cases "commitError None out t'")
      case None
      then show thesis using deleted [of ks d1 d2] d1 m' ks r(1) Inr by simp
    next
      case (Some e)
      then have "out \<noteq> WriteOk" by (simp add: commitError_def split: if_splits)
      then show thesis using failed [of e items d1] d1 Some by simp
    qed
  qed
qed

lemma execDelete_spec:
  assumes ok: "sqlOk L d" "roomFor 2 d"
    and tbl: "normalizeName L stTable = n" "fmlookup (tables d) n = Some def"
  obtains (failed) e d' where "execDelete L out stTable whr d = ((0, Some e), d')" "current d' = current d" "sqlNext L out d d'" "tables d' = tables d"
      "out \<noteq> WriteOk \<or> (\<exists>d2. collectRows L def whr (freshTx True d) (begun d) = (Inl e, d2))"
  | (deleted) ks d' d2 where "execDelete L out stTable whr d = ((length ks, None), d')" "current d' = without (current d) ks"
      "distinct ks" "set ks \<subseteq> liveRows (current d) def" "sqlNext L out d d'" "tables d' = tables d"
      "collectRows L def whr (freshTx True d) (begun d) = (Inr (map (rowAt (current d) def) ks), d2)"
proof -
  have inv: "sqlInv L d" "seqOk d" using ok(1) by (simp_all add: sqlOk_def)
  obtain tree where tb: "tableOk L n def" "rowsOk L (current d) def" "fmlookup (indexes d) n = Some tree"
    "pkOk (current d) n tree" "tblName def = n"
    using sqlInv_table [OF inv(1) tbl(2)] .
  obtain c i where "pkColumn def = Inr (c, i)" using tb(1) by (auto simp: tableOk_def)
  then have exec: "execDelete L out stTable whr d =
      (case dbUpdate out [] (deleteTx L def whr) d of
             (Some e, _, d1) \<Rightarrow> ((0, Some e), d1)
           | (None, removed, d1) \<Rightarrow>
               (case unindexRows n removed d1 of
                  Inl e \<Rightarrow> ((0, Some e), d1)
                | Inr d2 \<Rightarrow>
                    (case secEach n (stepAll (\<lambda>item. secDrop L def (riValues item) (riPk item)) removed) d2 of
                       (Some e, d3) \<Rightarrow> ((0, Some e), d3)
                     | (None, d3) \<Rightarrow> ((length removed, None), d3))))"
    using tbl by (simp add: execDelete_def tableDef_def)
  show thesis
  proof (rule deleteTx_run [OF inv(1) tbl(2) inv(2) ok(2), of out whr])
    fix e x d1
    assume d1: "dbUpdate out [] (deleteTx L def whr) d = (Some e, x, d1)" "current d1 = current d" "db.more d1 = db.more d" "seqNext out d d1"
      "out \<noteq> WriteOk \<or> (\<exists>d2. collectRows L def whr (freshTx True d) (begun d) = (Inl e, d2))"
    then show thesis using failed [of e d1] update_fails [OF ok(1) d1(3,2,4)] sqldb_more [OF d1(3)] by (simp add: exec)
  next
    fix ks d1 d2
    assume d1: "dbUpdate out [] (deleteTx L def whr) d = (None, map (rowAt (current d) def) ks, d1)"
      "current d1 = without (current d) ks" "distinct ks" "set ks \<subseteq> liveRows (current d) def" "db.more d1 = db.more d" "seqNext out d d1"
      "collectRows L def whr (freshTx True d) (begun d) = (Inr (map (rowAt (current d) def) ks), d2)"
    let ?items = "map (rowAt (current d) def) ks" and ?f = "stepAll (\<lambda>item. secDrop L def (riValues item) (riPk item)) (map (rowAt (current d) def) ks)"
    obtain tree' where t: "foldl (\<lambda>r item. ebind r (\<lambda>t. orPanic (btDelete t (riPk item)))) (Inr tree) ?items = Inr tree'"
      "pkOk (current d1) n tree'"
      using unindex_loop [OF tb(2,1,5) d1(4) tb(4)] d1(2) by auto
    have f: "\<forall>si\<in>tableIndexes d n. \<exists>si'. ?f si = (None, si') \<and> siDef si' = siDef si \<and> secOk L (current d1) def si'"
      using secDrop_loop [OF tb(2,1) d1(4,3) _ tb(2)] tableIndexes_ok [OF inv(1) tbl(2)] d1(2) by simp
    obtain d' where d': "secEach n ?f (d1\<lparr>indexes := fmupd n tree' (indexes d1)\<rparr>) = (None, d')" "sqlNext L out d d'"
      "current d' = current d1" "tables d' = tables d"
      by (rule reindex_table [OF inv(1) tbl(2) d1(5) _ _ d1(6) t(2) f])
        (use rowFrame_without [OF d1(4)] rowsOk_without [OF tb(2)] d1(2) tb(5) in simp_all)
    have "unindexRows n ?items d1 = Inr (d1\<lparr>indexes := fmupd n tree' (indexes d1)\<rparr>)"
      using t(1) tb(3) sqldb_more [OF d1(5)] by (simp add: unindexRows_def)
    then show thesis using deleted [of ks d' d2] d' d1 by (simp add: exec)
  qed
qed

end
