(* ===== verification/SqlUpdate.thy ===== *)
theory SqlUpdate
  imports SqlInv
begin

text \<open>
  UPDATE: the rows it finds are written back under their own keys, and every index of the table is
  moved from the old values to the new ones.
\<close>

type_synonym change = "string \<times> sqlval list \<times> bytes"  \<comment> \<open>row key, new values, packed row\<close>

definition written :: "(string \<rightharpoonup> bytes) \<Rightarrow> change list \<Rightarrow> (string \<rightharpoonup> bytes)" where
  "written m us = foldl (\<lambda>m (k, new, page). m(k \<mapsto> page)) m us"

lemma written_simps [simp]: "written m [] = m" "written m ((k, new, page) # us) = written (m(k \<mapsto> page)) us"
  by (simp_all add: written_def)

lemma written_other: "k \<notin> fst ` set us \<Longrightarrow> written m us k = m k"
  by (induction us arbitrary: m) auto

lemma written_mem: "distinct (map fst us) \<Longrightarrow> (k, new, page) \<in> set us \<Longrightarrow> written m us k = Some page"
proof (induction us arbitrary: m)
  case (Cons u us)
  obtain j n p where u: "u = (j, n, p)" by (cases u)
  show ?case
  proof (cases "(k, new, page) = u")
    case True
    then have "k \<notin> fst ` set us" using Cons.prems(1) u by auto
    then show ?thesis using True u written_other [of k us] by simp
  next
    case False
    then show ?thesis using Cons u by auto
  qed
qed simp

definition changeOk :: "golib \<Rightarrow> TableDef \<Rightarrow> assign list \<Rightarrow> (string \<rightharpoonup> bytes) \<Rightarrow> change \<Rightarrow> bool" where
  "changeOk L def sets m u \<longleftrightarrow>
     (case u of (k, new, page) \<Rightarrow>
        k \<in> liveRows m def \<and> assignPairs L def sets (riValues (rowAt m def k)) = Inr new \<and> packRow new = Inr page)"

abbreviation changeable :: "golib \<Rightarrow> TableDef \<Rightarrow> assign list \<Rightarrow> sqlval list \<Rightarrow> bool" where
  \<comment> \<open>the assignments can be made to this row, and the new row fits a page\<close>
  "changeable L def sets vals \<equiv> \<exists>new page. assignPairs L def sets vals = Inr new \<and> packRow new = Inr page"

definition updateFails :: "golib \<Rightarrow> writeOutcome \<Rightarrow> TableDef \<Rightarrow> assign list \<Rightarrow> pred list \<Rightarrow> sqldb \<Rightarrow> bool" where
  \<comment> \<open>why UPDATE fails: its rows cannot be found, one of them cannot be changed, or the log does not take the write\<close>
  "updateFails L out def sets whr d \<longleftrightarrow>
     (case fst (collectRows L def whr (freshTx True d) (begun d)) of
        Inl e \<Rightarrow> True
      | Inr items \<Rightarrow> (out \<noteq> WriteOk \<and> items \<noteq> []) \<or> (\<exists>item\<in>set items. \<not> changeable L def sets (riValues item)))"

definition changeItem :: "(string \<rightharpoonup> bytes) \<Rightarrow> TableDef \<Rightarrow> change \<Rightarrow> updateItem" where
  "changeItem m def u =
     (case u of (k, new, page) \<Rightarrow> \<lparr>uiPk = riPk (rowAt m def k), uiOld = riValues (rowAt m def k), uiNew = new\<rparr>)"

lemma changeItem_simps [simp]:
  "changeItem m def (k, new, page) = \<lparr>uiPk = riPk (rowAt m def k), uiOld = riValues (rowAt m def k), uiNew = new\<rparr>"
  by (simp add: changeItem_def)

lemma updateRow_run:
  assumes "openTx True d t"
  shows "(\<exists>e upd' t'. updateRow L def sets item (upd, t) = (Some e, upd', t') \<and> openTx True d t' \<and> \<not> changeable L def sets (riValues item))
    \<or> (\<exists>new page t'. updateRow L def sets item (upd, t) = (None, upd @ [\<lparr>uiPk = riPk item, uiOld = riValues item, uiNew = new\<rparr>], t')
        \<and> openTx True d t' \<and> assignPairs L def sets (riValues item) = Inr new \<and> packRow new = Inr page
        \<and> content m (writes t') = (content m (writes t))(riKey item \<mapsto> page) \<and> writes t' \<noteq> fmempty)"
proof (cases "assignPairs L def sets (riValues item)")
  case (Inl e)
  then show ?thesis using assms by (simp add: updateRow_def)
next
  case (Inr new)
  show ?thesis
  proof (cases "packRow new")
    case (Inl e)
    then show ?thesis using assms Inr by (simp add: updateRow_def)
  next
    case page: (Inr page)
    obtain t' where t': "txPut (riKey item) page t = (None, t')" "openTx True d t'"
      "content m (writes t') = (content m (writes t))(riKey item \<mapsto> page)"
      using openTx_put [OF assms] by metis
    then have "updateRow L def sets item (upd, t) = (None, upd @ [\<lparr>uiPk = riPk item, uiOld = riValues item, uiNew = new\<rparr>], t')"
      using Inr page by (simp add: updateRow_def)
    then show ?thesis using t' Inr page put_writes [OF t'(1)] by blast
  qed
qed

lemma updateRows_run:
  "openTx True d t \<Longrightarrow> set ks \<subseteq> liveRows m0 def \<Longrightarrow>
   (\<exists>e upd' t'. stepAll (updateRow L def sets) (map (rowAt m0 def) ks) (upd, t) = (Some e, upd', t') \<and> openTx True d t'
        \<and> (\<exists>k\<in>set ks. \<not> changeable L def sets (riValues (rowAt m0 def k))))
   \<or> (\<exists>us t'. stepAll (updateRow L def sets) (map (rowAt m0 def) ks) (upd, t) = (None, upd @ map (changeItem m0 def) us, t')
        \<and> openTx True d t' \<and> map fst us = ks \<and> list_all (changeOk L def sets m0) us
        \<and> content m (writes t') = written (content m (writes t)) us \<and> (writes t' = fmempty \<longleftrightarrow> us = [] \<and> writes t = fmempty))"
proof (induction ks arbitrary: upd t)
  case Nil
  then show ?case by (intro disjI2 exI [of _ "[]"] exI [of _ t]) simp
next
  case (Cons k ks)
  have live: "k \<in> liveRows m0 def" "set ks \<subseteq> liveRows m0 def" using Cons.prems(2) by simp_all
  consider (fail) e upd' t' where "updateRow L def sets (rowAt m0 def k) (upd, t) = (Some e, upd', t')" "openTx True d t'"
        "\<not> changeable L def sets (riValues (rowAt m0 def k))"
    | (step) new page t1 where "updateRow L def sets (rowAt m0 def k) (upd, t) =
          (None, upd @ [\<lparr>uiPk = riPk (rowAt m0 def k), uiOld = riValues (rowAt m0 def k), uiNew = new\<rparr>], t1)"
        "openTx True d t1" "assignPairs L def sets (riValues (rowAt m0 def k)) = Inr new" "packRow new = Inr page"
        "content m (writes t1) = (content m (writes t))(k \<mapsto> page)" "writes t1 \<noteq> fmempty"
    using updateRow_run [OF Cons.prems(1), of L def sets "rowAt m0 def k" upd m] by auto
  then show ?case
  proof cases
    case fail
    then show ?thesis by (intro disjI1) simp
  next
    case step
    let ?u = "(k, new, page)" and ?upd = "upd @ [\<lparr>uiPk = riPk (rowAt m0 def k), uiOld = riValues (rowAt m0 def k), uiNew = new\<rparr>]"
    have u: "changeOk L def sets m0 ?u" using step(3,4) live(1) by (simp add: changeOk_def)
    from Cons.IH [OF step(2) live(2), of ?upd] show ?thesis
    proof (elim disjE exE conjE)
      fix e upd' t'
      assume "stepAll (updateRow L def sets) (map (rowAt m0 def) ks) (?upd, t1) = (Some e, upd', t')" "openTx True d t'"
        "\<exists>k\<in>set ks. \<not> changeable L def sets (riValues (rowAt m0 def k))"
      then show ?thesis using step(1) by (intro disjI1) auto
    next
      fix us t'
      assume r: "stepAll (updateRow L def sets) (map (rowAt m0 def) ks) (?upd, t1) = (None, ?upd @ map (changeItem m0 def) us, t')"
        "openTx True d t'" "map fst us = ks" "list_all (changeOk L def sets m0) us"
        "content m (writes t') = written (content m (writes t1)) us" "(writes t' = fmempty) = (us = [] \<and> writes t1 = fmempty)"
      show ?thesis
        by (intro disjI2 exI [of _ "?u # us"] exI [of _ t']) (use step r u in simp)
    qed
  qed
qed


section \<open>What one change does to the indexes\<close>

lemma secReplace_norm:
  "cellsOk L' def' new \<Longrightarrow> secReplace L def old (map normValue new) pk rk si = secReplace L def old new pk rk si"
  by (auto simp: secReplace_def valueFromRow_norm secAdd_norm split: sum.split prod.split option.split)

lemma changeOk_cases:
  assumes ok: "rowsOk L m def" "tableOk L n def" "libFinite L" and u: "changeOk L def sets m (k, new, page)"
    and pk: "pkColumn def = Inr (c, i)" "\<forall>a\<in>set sets. columnIndex L def (normalizeName L (asColumn a)) \<noteq> Inr i"
  obtains enc key vals where "k = rowKey (tblName def) enc" "pkKeyFromEncoded enc = Inr key" "enc = pkEncode key" "stored m def enc vals"
    "rowAt m def k = \<lparr>riPk = key, riKey = k, riValues = vals\<rparr>" "unpackRow page = Inr (map normValue new)"
    "rowOk L def enc (map normValue new)" "changedBy L def (asValue ` set sets) vals new" "m k \<noteq> None"
proof -
  have "k \<in> liveRows m def" using u by (simp add: changeOk_def)
  then obtain enc key raw vals where k: "k = rowKey (tblName def) enc" "m k = Some raw" "rowOk L def enc vals" "pkKeyFromEncoded enc = Inr key" "enc = pkEncode key"
    "stored m def enc vals" "rowAt m def k = \<lparr>riPk = key, riKey = k, riValues = vals\<rparr>"
    by (rule liveRows_cases [OF _ ok(1,2)])
  have new: "assignPairs L def sets vals = Inr new" "packRow new = Inr page" using u k(7) by (simp_all add: changeOk_def)
  have ch: "changedBy L def (asValue ` set sets) vals new" "new ! i = vals ! i"
    using assignPairs_changed [OF pk(2) new(1) rowOk_cells [OF k(3)]] by simp_all
  have "\<not> vNull (vals ! i)" "enc = pkEncode (pkOfValue (colTyp c) (vals ! i))" using k(3) pk(1) by (auto simp: rowOk_def)
  then have "rowOk L def enc (map normValue new)"
    using packed_rowOk [OF ok(3) _ new(2) pk(1)] ch by (simp add: changedBy_def)
  then show thesis using that [OF k(1,4,5,6,7) packRow_ok(1) [OF new(2)] _ ch(1)] k(2) by simp
qed

lemma changeOk_frame:
  assumes "changeOk L def sets m0 (k, new, page)" "m k = m0 k"
  shows "changeOk L def sets m (k, new, page)" "rowAt m def k = rowAt m0 def k"
  using assms by (auto simp: changeOk_def liveRows_def rowAt_def)

lemma changes_frame:
  assumes "k \<notin> fst ` set us" "list_all (changeOk L def sets m) us"
  shows "list_all (changeOk L def sets (m(k \<mapsto> page))) us" "\<forall>u\<in>set us. rowAt (m(k \<mapsto> page)) def (fst u) = rowAt m def (fst u)"
proof -
  have "changeOk L def sets (m(k \<mapsto> page)) u \<and> rowAt (m(k \<mapsto> page)) def (fst u) = rowAt m def (fst u)" if "u \<in> set us" for u
  proof -
    obtain j new p where u: "u = (j, new, p)" by (cases u)
    then have "(m(k \<mapsto> page)) j = m j" using that assms(1) by force
    moreover have "changeOk L def sets m (j, new, p)" using that assms(2) u by (auto simp: list_all_iff)
    ultimately show ?thesis using changeOk_frame [of L def sets m j new p "m(k \<mapsto> page)"] u by simp
  qed
  then show "list_all (changeOk L def sets (m(k \<mapsto> page))) us" "\<forall>u\<in>set us. rowAt (m(k \<mapsto> page)) def (fst u) = rowAt m def (fst u)"
    by (simp_all add: list_all_iff)
qed

lemma written_ok:
  assumes ok: "tableOk L n def" "libFinite L" "tblName def = n"
    and pk: "pkColumn def = Inr (c, i)" "\<forall>a\<in>set sets. columnIndex L def (normalizeName L (asColumn a)) \<noteq> Inr i"
  shows "rowsOk L m def \<Longrightarrow> pkOk m n tree \<Longrightarrow> distinct (map fst us) \<Longrightarrow> list_all (changeOk L def sets m) us \<Longrightarrow>
    rowsOk L (written m us) def \<and> pkOk (written m us) n tree \<and> rowFrame n m (written m us)"
proof (induction us arbitrary: m)
  case (Cons u us)
  obtain k new page where u: "u = (k, new, page)" by (cases u)
  have "changeOk L def sets m (k, new, page)" using Cons.prems(4) u by simp
  then obtain enc where k: "k = rowKey (tblName def) enc" "unpackRow page = Inr (map normValue new)" "rowOk L def enc (map normValue new)" "m k \<noteq> None"
    by (rule changeOk_cases [OF Cons.prems(1) ok(1,2) _ pk])
  have rows: "rowsOk L (m(k \<mapsto> page)) def" using rowsOk_put [OF Cons.prems(1) k(2,3)] k(1) by simp
  have tree: "pkOk (m(k \<mapsto> page)) n tree" using pkOk_replace [OF Cons.prems(2)] k(1,4) ok(3) by simp
  have "list_all (changeOk L def sets (m(k \<mapsto> page))) us"
    using changes_frame(1) [of k us L def sets m page] Cons.prems(3,4) u by simp
  then have "rowsOk L (written (m(k \<mapsto> page)) us) def \<and> pkOk (written (m(k \<mapsto> page)) us) n tree
      \<and> rowFrame n (m(k \<mapsto> page)) (written (m(k \<mapsto> page)) us)"
    by (intro Cons.IH [OF rows tree]) (use Cons.prems(3) in simp)
  moreover have "rowFrame n m (m(k \<mapsto> page))" using k(1) ok(3) by (auto simp: rowFrame_def rowKey_split)
  ultimately show ?case unfolding u by (simp add: rowFrame_def)
qed (simp add: rowFrame_def)

lemma secReplace_loop:
  assumes ok: "tableOk L n def" "libFinite L" "tblName def = n"
    and pk: "pkColumn def = Inr (c, i)" "\<forall>a\<in>set sets. columnIndex L def (normalizeName L (asColumn a)) \<noteq> Inr i"
  shows "rowsOk L m def \<Longrightarrow> distinct (map fst us) \<Longrightarrow> list_all (changeOk L def sets m) us \<Longrightarrow>
    \<forall>u\<in>set us. rowAt m def (fst u) = rowAt m0 def (fst u) \<Longrightarrow>
    ixOk L def (siDef si) \<Longrightarrow> secOk L m def si \<Longrightarrow> \<forall>a\<in>set sets. exprFree L (siDef si) (asValue a) \<Longrightarrow>
    \<exists>si'. stepAll (\<lambda>u. secReplace L def (uiOld u) (uiNew u) (uiPk u) (rowKey n (pkEncode (uiPk u)))) (map (changeItem m0 def) us) si = (None, si')
      \<and> siDef si' = siDef si \<and> secOk L (written m us) def si'"
proof (induction us arbitrary: m si)
  case (Cons u us)
  obtain k new page where u: "u = (k, new, page)" by (cases u)
  have "changeOk L def sets m (k, new, page)" using Cons.prems(3) u by simp
  then obtain enc key vals where k: "k = rowKey (tblName def) enc" "pkKeyFromEncoded enc = Inr key" "enc = pkEncode key" "stored m def enc vals"
    "rowAt m def k = \<lparr>riPk = key, riKey = k, riValues = vals\<rparr>" "unpackRow page = Inr (map normValue new)"
    "rowOk L def enc (map normValue new)" "changedBy L def (asValue ` set sets) vals new"
    by (rule changeOk_cases [OF Cons.prems(1) ok(1,2) _ pk])
  have cells: "cellsOk L def new" using k(8) by (simp add: changedBy_def)
  have "nulFree L def (siDef si) vals" using Cons.prems(6) k(4) by (auto simp: secOk_def)
  then have "nulFree L def (siDef si) (map normValue new)"
    using nulFree_changed [OF k(8)] Cons.prems(7) nulFree_norm [OF cells] by simp
  then obtain s1 where s1: "secReplace L def vals new key k si = (None, s1)" "siDef s1 = siDef si" "secOk L (m(k \<mapsto> page)) def s1"
    using secOk_replace [OF Cons.prems(6,1) ok(1) Cons.prems(5) k(4,2,6,7)] secReplace_norm [OF cells] k(1) by metis
  have rows: "rowsOk L (m(k \<mapsto> page)) def" using rowsOk_put [OF Cons.prems(1) k(6,7)] k(1) by simp
  have rest: "distinct (map fst us)" "list_all (changeOk L def sets (m(k \<mapsto> page))) us"
    "\<forall>u\<in>set us. rowAt (m(k \<mapsto> page)) def (fst u) = rowAt m0 def (fst u)"
    "ixOk L def (siDef s1)" "\<forall>a\<in>set sets. exprFree L (siDef s1) (asValue a)"
    using Cons.prems(2-5,7) u s1(2) changes_frame [of k us L def sets m page] by simp_all
  obtain si' where "stepAll (\<lambda>u. secReplace L def (uiOld u) (uiNew u) (uiPk u) (rowKey n (pkEncode (uiPk u)))) (map (changeItem m0 def) us) s1 = (None, si')"
      "siDef si' = siDef s1" "secOk L (written (m(k \<mapsto> page)) us) def si'"
    using Cons.IH [OF rows rest(1-4) s1(3) rest(5)] by blast
  moreover have "rowAt m0 def k = rowAt m def k" using Cons.prems(4) u by simp
  ultimately show ?case using s1 k ok(3) u by (intro exI [of _ si']) simp
qed auto


section \<open>The statement\<close>

text \<open>The transaction of UPDATE: either nothing changes, or the rows it found are written.\<close>

lemma updateTx_run:
  assumes inv: "sqlInv L d" "fmlookup (tables d) n = Some def" and seq: "seqOk d" "roomFor 2 d"
  obtains (failed) e x d1 where "dbUpdate out [] (updateTx L def sets whr) d = (Some e, x, d1)" "current d1 = current d"
      "db.more d1 = db.more d" "seqNext out d d1" "updateFails L out def sets whr d"
  | (updated) us d1 d2 where "dbUpdate out [] (updateTx L def sets whr) d = (None, map (changeItem (current d) def) us, d1)"
      "current d1 = written (current d) us" "distinct (map fst us)" "list_all (changeOk L def sets (current d)) us"
      "db.more d1 = db.more d" "seqNext out d d1"
      "collectRows L def whr (freshTx True d) (begun d) = (Inr (map (rowAt (current d) def) (map fst us)), d2)" "out = WriteOk \<or> us = []"
proof -
  let ?t = "freshTx True d"
  obtain r d2 where r: "collectRows L def whr ?t (begun d) = (r, d2)" "liveItems (current d) def r" "quiet d d2"
    by (rule fresh_collect [OF inv])
  have fail: thesis if run: "updateTx L def sets whr ?t (begun d) = (Some e, x, t', d2)" and t': "openTx True d t'"
      and why: "updateFails L out def sets whr d" for e x t'
  proof -
    obtain d1 where "dbUpdate out [] (updateTx L def sets whr) d = (Some e, x, d1)" "current d1 = current d" "db.more d1 = db.more d" "seqNext out d d1"
      by (rule dbUpdate_fails [where fn = "updateTx L def sets whr", OF seq run r(3) t'])
    then show thesis using failed [of e x d1] why by simp
  qed
  show thesis
  proof (cases r)
    case (Inl e)
    then show thesis using fail [OF _ freshTx_open(1)] r(1) by (simp add: updateTx_def updateFails_def)
  next
    case (Inr items)
    then obtain ks where ks: "items = map (rowAt (current d) def) ks" "distinct ks" "set ks \<subseteq> liveRows (current d) def"
      using r(2) by (auto simp: liveItems_def)
    from updateRows_run [OF freshTx_open(1) [of True d] ks(3), of L sets "[]" "current d"] show thesis
    proof (elim disjE exE conjE)
      fix e upd' t'
      assume "stepAll (updateRow L def sets) (map (rowAt (current d) def) ks) ([], ?t) = (Some e, upd', t')" "openTx True d t'"
        "\<exists>k\<in>set ks. \<not> changeable L def sets (riValues (rowAt (current d) def k))"
      then show thesis using fail [of e upd' t'] r(1) Inr ks(1) by (simp add: updateTx_def updateFails_def)
    next
      fix us t'
      assume u: "stepAll (updateRow L def sets) (map (rowAt (current d) def) ks) ([], ?t) = (None, [] @ map (changeItem (current d) def) us, t')"
        "openTx True d t'" "map fst us = ks" "list_all (changeOk L def sets (current d)) us"
        "content (current d) (writes t') = written (content (current d) (writes ?t)) us" "(writes t' = fmempty) = (us = [] \<and> writes ?t = fmempty)"
      have m': "content (current d) (writes t') = written (current d) us" using u(5) freshTx_open(2) [of True d] by simp
      have run: "updateTx L def sets whr ?t (begun d) = (None, map (changeItem (current d) def) us, t', d2)"
        using r(1) Inr ks(1) u(1) by (simp add: updateTx_def)
      obtain d1 where d1: "dbUpdate out [] (updateTx L def sets whr) d = (commitError None out t', map (changeItem (current d) def) us, d1)"
        "current d1 = (if commitError None out t' = None then content (current d) (writes t') else current d)"
        "db.more d1 = db.more d" "seqNext out d d1"
        by (rule dbUpdate_seq [where fn = "updateTx L def sets whr", OF seq run r(3) u(2)])
      have empty: "writes t' = fmempty \<longleftrightarrow> ks = []" using u(3,6) freshTx_open(2) [of True d] by auto
      show thesis
      proof (cases "out = WriteOk \<or> ks = []")
        case True
        then show thesis using updated [of us d1 d2] d1 m' ks u(3,4) r(1) Inr empty by (auto simp: commitError_def)
      next
        case False
        then have "updateFails L out def sets whr d" using r(1) Inr ks(1) by (simp add: updateFails_def)
        then show thesis using failed [of ErrIO _ d1] d1 False empty by (simp add: commitError_def)
      qed
    qed
  qed
qed

lemma fmupd_same: "fmlookup m k = Some v \<Longrightarrow> fmupd k v m = m"
  by (rule fmap_ext) auto

lemma execUpdate_spec:
  assumes ok: "sqlOk L d" "roomFor 2 d" "libFinite L"
    and tbl: "normalizeName L stTable = n" "fmlookup (tables d) n = Some def"
    and pk: "pkColumn def = Inr (c, i)" "\<forall>a\<in>set sets. columnIndex L def (normalizeName L (asColumn a)) \<noteq> Inr i"
    and free: "\<forall>si\<in>tableIndexes d n. \<forall>a\<in>set sets. exprFree L (siDef si) (asValue a)"
  obtains (failed) x e d' where "execUpdate L out stTable sets whr d = ((x, Some e), d')" "current d' = current d" "sqlNext L out d d'" "tables d' = tables d"
      "updateFails L out def sets whr d"
  | (updated) us d' d2 where "execUpdate L out stTable sets whr d = ((length us, None), d')" "current d' = written (current d) us"
      "distinct (map fst us)" "list_all (changeOk L def sets (current d)) us" "sqlNext L out d d'" "tables d' = tables d"
      "collectRows L def whr (freshTx True d) (begun d) = (Inr (map (rowAt (current d) def) (map fst us)), d2)" "out = WriteOk \<or> us = []"
proof -
  have inv: "sqlInv L d" "seqOk d" using ok(1) by (simp_all add: sqlOk_def)
  obtain tree where tb: "tableOk L n def" "rowsOk L (current d) def" "fmlookup (indexes d) n = Some tree"
    "pkOk (current d) n tree" "tblName def = n"
    using sqlInv_table [OF inv(1) tbl(2)] .
  have guard: "\<not> list_ex (\<lambda>a. normalizeName L (asColumn a) = colName c) sets"
    using tb(1) pk by (auto simp: tableOk_def list_ex_iff)
  let ?F = "\<lambda>upd. stepAll (\<lambda>u. secReplace L def (uiOld u) (uiNew u) (uiPk u) (rowKey n (pkEncode (uiPk u)))) upd"
  have exec: "execUpdate L out stTable sets whr d =
    (case dbUpdate out [] (updateTx L def sets whr) d of
           (Some e, upd, d1) \<Rightarrow> ((length upd, Some e), d1)
         | (None, upd, d1) \<Rightarrow>
             (case secEach n (?F upd) d1 of
                (Some e, d2) \<Rightarrow> ((0, Some e), d2)
              | (None, d2) \<Rightarrow> ((length upd, None), d2)))"
    using guard tbl pk(1) by (simp add: execUpdate_def tableDef_def)
  show thesis
  proof (rule updateTx_run [OF inv(1) tbl(2) inv(2) ok(2), of out sets whr])
    fix e x d1
    assume d1: "dbUpdate out [] (updateTx L def sets whr) d = (Some e, x, d1)" "current d1 = current d" "db.more d1 = db.more d" "seqNext out d d1"
      "updateFails L out def sets whr d"
    then show thesis using failed [of _ e d1] update_fails [OF ok(1) d1(3,2,4)] sqldb_more [OF d1(3)] by (simp add: exec)
  next
    fix us d1 d2
    assume d1: "dbUpdate out [] (updateTx L def sets whr) d = (None, map (changeItem (current d) def) us, d1)"
      "current d1 = written (current d) us" "distinct (map fst us)" "list_all (changeOk L def sets (current d)) us"
      "db.more d1 = db.more d" "seqNext out d d1"
      "collectRows L def whr (freshTx True d) (begun d) = (Inr (map (rowAt (current d) def) (map fst us)), d2)" "out = WriteOk \<or> us = []"
    let ?f = "?F (map (changeItem (current d) def) us)"
    have w: "rowsOk L (current d1) def" "pkOk (current d1) n tree" "rowFrame n (current d) (current d1)"
      using written_ok [OF tb(1) ok(3) tb(5) pk tb(2,4) d1(3,4)] d1(2) by simp_all
    have f: "\<forall>si\<in>tableIndexes d n. \<exists>si'. ?f si = (None, si') \<and> siDef si' = siDef si \<and> secOk L (current d1) def si'"
    proof
      fix si
      assume si: "si \<in> tableIndexes d n"
      show "\<exists>si'. ?f si = (None, si') \<and> siDef si' = siDef si \<and> secOk L (current d1) def si'"
        unfolding d1(2)
        by (rule secReplace_loop [OF tb(1) ok(3) tb(5) pk tb(2) d1(3,4)])
          (use tableIndexes_ok [OF inv(1) tbl(2) si] free si in simp_all)
    qed
    obtain d' where d': "secEach n ?f (d1\<lparr>indexes := fmupd n tree (indexes d1)\<rparr>) = (None, d')" "sqlNext L out d d'"
      "current d' = current d1" "tables d' = tables d"
      by (rule reindex_table [OF inv(1) tbl(2) d1(5) w(3,1) d1(6) w(2) f])
    have "d1\<lparr>indexes := fmupd n tree (indexes d1)\<rparr> = d1"
      using fmupd_same [of "indexes d1" n tree] tb(3) sqldb_more [OF d1(5)] by simp
    then show thesis using updated [of us d' d2] d' d1 by (simp add: exec)
  qed
qed

end
