(* ===== verification/SqlDdl.thy ===== *)
theory SqlDdl
  imports SqlUpdate
begin

text \<open>
  The statements that define tables and indexes, and the rebuilding of the caches from the stored data.
  The entries of the catalog are documents under a common key prefix; the locale \<open>documents\<close> states what
  listing them returns, and is interpreted for tables and for indexes.
\<close>

section \<open>Listing the catalog\<close>

locale documents =
  fixes pre :: string and marshal :: "'a \<Rightarrow> bytes" and unmarshal :: "bytes \<Rightarrow> 'a res" and docOk :: "'a \<Rightarrow> bool"
  assumes unmarshal_marshal: "docOk x \<Longrightarrow> unmarshal (marshal x) = Inr x"
begin

lemma eseq_documents:
  "\<forall>x\<in>set xs. docOk x \<Longrightarrow> eseq (map (\<lambda>x. unmarshal (marshal x)) xs) = Inr xs"
  by (induction xs) (simp_all add: unmarshal_marshal)

lemma list_documents:
  assumes t: "\<not> txClosed t" and view: "\<forall>i. viewOf t d (pre @ i) = map_option marshal (docs i)"
    and docs: "\<forall>i x. docs i = Some x \<longrightarrow> docOk x"
  obtains names where "distinct names" "set names = dom docs"
    "eseq (map (\<lambda>(k, v). unmarshal v) (fst (scanPrefix pre t d))) = Inr (map (\<lambda>i. the (docs i)) names)"
proof -
  obtain ks where ks: "distinct ks" "\<And>k. k \<in> set ks \<longleftrightarrow> prefix pre k \<and> viewOf t d k \<noteq> None"
    "fst (scanPrefix pre t d) = map (\<lambda>k. (k, the (viewOf t d k))) ks"
    using scan_result [OF t, of pre d] by metis
  let ?names = "map (drop (length pre)) ks"
  have key: "k = pre @ drop (length pre) k" if "k \<in> set ks" for k using ks(2) that by (auto simp: prefix_def)
  then have "inj_on (drop (length pre)) (set ks)" by (metis inj_onI)
  then have "distinct ?names" using ks(1) by (simp add: distinct_map)
  moreover have "set ?names = dom docs"
  proof (intro set_eqI iffI)
    fix i
    assume "i \<in> set ?names"
    then obtain k where "k \<in> set ks" "k = pre @ i" using key by auto
    then show "i \<in> dom docs" using ks(2) view by auto
  next
    fix i
    assume "i \<in> dom docs"
    then have "pre @ i \<in> set ks" using ks(2) view by auto
    then show "i \<in> set ?names" by force
  qed
  moreover have "map (\<lambda>(k, v). unmarshal v) (fst (scanPrefix pre t d)) = map (\<lambda>x. unmarshal (marshal x)) (map (\<lambda>i. the (docs i)) ?names)"
  proof -
    have "unmarshal (the (viewOf t d k)) = unmarshal (marshal (the (docs (drop (length pre) k))))" if "k \<in> set ks" for k
      using key [OF that] ks(2) that view by (metis option.map_sel option.map_disc_iff)
    then show ?thesis unfolding ks(3) by (simp add: comp_def)
  qed
  moreover have "\<forall>x\<in>set (map (\<lambda>i. the (docs i)) ?names). docOk x"
  proof
    fix x
    assume "x \<in> set (map (\<lambda>i. the (docs i)) ?names)"
    then obtain i where "i \<in> set ?names" "x = the (docs i)" by auto
    moreover have "docs i \<noteq> None" using \<open>set ?names = dom docs\<close> \<open>i \<in> set ?names\<close> by auto
    ultimately show "docOk x" using docs by auto
  qed
  ultimately show thesis using that eseq_documents by metis
qed

end

interpretation tableDocs: documents catalogTablePrefix marshalTable unmarshalTable tableTextOk
  by unfold_locales (rule unmarshal_table)

interpretation indexDocs: documents catalogIndexPrefix marshalIndex unmarshalIndex indexTextOk
  by unfold_locales (rule unmarshal_index)

lemma catalogKey_split: "catalogTableKey n = catalogTablePrefix @ n" "catalogIndexKey i = catalogIndexPrefix @ i"
  by (simp_all add: catalogTableKey_def catalogTablePrefix_def catalogIndexKey_def catalogIndexPrefix_def)


section \<open>CREATE TABLE\<close>

text \<open>A definition written under a name that was free makes an empty table.\<close>

lemma sqlInv_create:
  assumes inv: "sqlInv L d" "fmlookup (tables d) n = None" and def: "tableOk L n def" "tblName def = n"
    and m: "current d' = (current d)(catalogTableKey n \<mapsto> marshalTable def)"
    and d': "tables d' = fmupd n def (tables d)" "indexes d' = fmupd n newBTree (indexes d)" "secIndexes d' = secIndexes d"
  shows "sqlInv L d'"
proof -
  have rows: "current d' (rowKey j enc) = current d (rowKey j enc)" for j enc using m by simp
  have none: "current d' (rowKey n enc) = None" for enc
    using inv def(1) rows by (simp add: sqlInv_def tableOk_def)
  have "tableState L (current d') j df (fmlookup (indexes d') j)" if j: "fmlookup (tables d') j = Some df" for j df
  proof (cases "j = n")
    case True
    then have "df = def" using j d'(1) by simp
    then show ?thesis
      using True def none d'(2) pkOk_empty [of "current d'" n] by (simp add: tableState_def rowsOk_def)
  next
    case False
    then have jd: "fmlookup (tables d) j = Some df" using j d'(1) by simp
    then have "tableState L (current d) j df (fmlookup (indexes d) j)" using inv(1) unfolding sqlInv_def by blast
    then show ?thesis
      using stored_cong(2,4) [of "current d'" df "current d"] rows False d'(2) sqlInv_name [OF inv(1) jd] by (simp add: tableState_def)
  qed
  moreover have "indexState L (current d') (tables d') i si" if i: "fmlookup (secIndexes d') i = Some si" for i si
  proof -
    have "fmlookup (secIndexes d) i = Some si" using i d'(3) by simp
    then obtain df where df: "fmlookup (tables d) (ixTable (siDef si)) = Some df" "ixOk L df (siDef si)" "secOk L (current d) df si"
      "ixName (siDef si) = i"
      by (rule sqlInv_index [OF inv(1)])
    then have "ixTable (siDef si) \<noteq> n" using inv(2) by auto
    then show ?thesis using df stored_cong(3) [of "current d'" df "current d"] rows d'(1) by (simp add: indexState_def)
  qed
  ultimately show ?thesis using inv m d' rows by (auto simp: sqlInv_def)
qed

lemma execCreate_spec:
  assumes ok: "sqlOk L d" "roomFor 2 d"
    and def: "n = normalizeName L stName" "def = \<lparr>tblName = n, tblColumns = normalizeColumns L cols\<rparr>" "tableOk L n def"
  obtains (exists) d' where "execCreate L out stName cols d = ((0, Some (ErrSQL ''table already exists'')), d')"
      "fmlookup (tables d) n \<noteq> None" "current d' = current d" "sqlNext L out d d'" "tables d' = tables d"
  | (failed) d' where "execCreate L out stName cols d = ((0, Some ErrIO), d')" "current d' = current d" "sqlNext L out d d'" "tables d' = tables d"
      "out \<noteq> WriteOk"
  | (created) d' where "execCreate L out stName cols d = ((0, None), d')" "current d' = (current d)(catalogTableKey n \<mapsto> marshalTable def)"
      "sqlNext L out d d'" "tables d' = fmupd n def (tables d)" "secIndexes d' = secIndexes d" "out = WriteOk" "fmlookup (tables d) n = None"
proof -
  have inv: "sqlInv L d" "seqOk d" using ok(1) by (simp_all add: sqlOk_def)
  let ?k = "catalogTableKey n" and ?t = "freshTx True d" and ?d = "(begun d)\<lparr>reads := reads (begun d) + 1\<rparr>"
  let ?fn = "\<lambda>t d. case txGet ?k t d of
                (Some _, d1) \<Rightarrow> (Some (ErrSQL ''table already exists''), (), t, d1)
              | (None, d1) \<Rightarrow> (case saveTableDef def t of (e, t1) \<Rightarrow> (e, (), t1, d1))"
  have exec: "execCreate L out stName cols d =
    (case dbUpdate out () ?fn d of
        (Some e, _, d1) \<Rightarrow> ((0, Some e), d1)
      | (None, _, d1) \<Rightarrow> ((0, None), d1\<lparr>tables := fmupd n def (tables d1), indexes := fmupd n newBTree (indexes d1)\<rparr>))"
    unfolding execCreate_def Let_def def(1) [symmetric] def(2) [symmetric] by (rule refl)
  have cat: "current d ?k = map_option marshalTable (fmlookup (tables d) n)" using inv(1) by (simp add: sqlInv_def)
  show thesis
  proof (cases "current d ?k")
    case (Some raw)
    then have run: "?fn ?t (begun d) = (Some (ErrSQL ''table already exists''), (), ?t, ?d)" by (simp add: fresh_get)
    obtain d1 where d1: "dbUpdate out () ?fn d = (Some (ErrSQL ''table already exists''), (), d1)" "current d1 = current d"
      "db.more d1 = db.more d" "seqNext out d d1"
      by (rule dbUpdate_fails [where fn = ?fn, OF inv(2) ok(2) run quiet_begun_reads freshTx_open(1)])
    moreover have "fmlookup (tables d) n \<noteq> None" using cat Some by (cases "fmlookup (tables d) n") simp_all
    ultimately show thesis
      using exists [of d1] update_fails [OF ok(1) d1(3,2,4)] sqldb_more [OF d1(3)] unfolding exec by simp
  next
    case None
    then have new: "fmlookup (tables d) n = None" using cat by (cases "fmlookup (tables d) n") simp_all
    obtain t1 where t1: "txPut ?k (marshalTable def) ?t = (None, t1)" "openTx True d t1"
      "content (current d) (writes t1) = (current d)(?k \<mapsto> marshalTable def)"
      using openTx_put [OF freshTx_open(1) [of True d], where k = ?k and v = "marshalTable def" and m = "current d"] freshTx_open(2) [of True d]
      by auto
    have run: "?fn ?t (begun d) = (None, (), t1, ?d)"
      using None t1(1) def(2) by (simp add: fresh_get saveTableDef_def)
    show thesis
    proof (rule dbUpdate_commits [where fn = ?fn and out = out, OF inv(2) ok(2) run quiet_begun_reads t1(2,3) put_writes [OF t1(1)]])
      fix d1
      assume d1: "dbUpdate out () ?fn d = (Some ErrIO, (), d1)" "current d1 = current d" "db.more d1 = db.more d" "seqNext out d d1" "out \<noteq> WriteOk"
      then show thesis using failed [of d1] update_fails [OF ok(1) d1(3,2,4)] sqldb_more [OF d1(3)] unfolding exec by simp
    next
      fix d1
      assume d1: "dbUpdate out () ?fn d = (None, (), d1)" "current d1 = (current d)(?k \<mapsto> marshalTable def)"
        "db.more d1 = db.more d" "seqNext out d d1" "out = WriteOk"
      note same = sqldb_more [OF d1(3)]
      let ?d' = "d1\<lparr>tables := fmupd n def (tables d1), indexes := fmupd n newBTree (indexes d1)\<rparr>"
      have m: "current ?d' = (current d)(?k \<mapsto> marshalTable def)" using d1(2) by simp
      have "sqlInv L ?d'"
        by (rule sqlInv_create [OF inv(1) new def(3) _ m]) (use same def(2) in simp_all)
      then show thesis using created [of ?d'] d1 m same new unfolding exec by (simp add: sqlNext_def)
    qed
  qed
qed


section \<open>Indexes\<close>

text \<open>A change of the index catalog alone keeps everything else.\<close>

lemma sqlInv_indexes:
  assumes inv: "sqlInv L d" and d': "tables d' = tables d" "indexes d' = indexes d"
    and m: "\<forall>n. current d' (catalogTableKey n) = current d (catalogTableKey n)" "\<forall>n enc. current d' (rowKey n enc) = current d (rowKey n enc)"
    and cat: "\<forall>i. current d' (catalogIndexKey i) = map_option (marshalIndex \<circ> siDef) (fmlookup (secIndexes d') i)"
    and sec: "\<forall>i si. fmlookup (secIndexes d') i = Some si \<longrightarrow> indexState L (current d) (tables d) i si"
  shows "sqlInv L d'"
proof -
  have "tableState L (current d') n def (fmlookup (indexes d') n)" if n: "fmlookup (tables d') n = Some def" for n def
  proof -
    have nd: "fmlookup (tables d) n = Some def" using n d' by simp
    then have "tableState L (current d) n def (fmlookup (indexes d) n)" using inv unfolding sqlInv_def by blast
    then show ?thesis
      using stored_cong(2,4) [of "current d'" def "current d"] m(2) d' sqlInv_name [OF inv nd] by (simp add: tableState_def)
  qed
  moreover have "indexState L (current d') (tables d') i si" if "fmlookup (secIndexes d') i = Some si" for i si
    using sec that stored_cong(3) [of "current d'" _ "current d"] m(2) d' by (simp add: indexState_def)
  ultimately show ?thesis using inv m cat d' by (simp add: sqlInv_def)
qed

lemma execDropIndex_spec:
  assumes ok: "sqlOk L d" "roomFor 2 d" and i: "i = normalizeName L stIndex"
  obtains (failed) e d' where "execDropIndex L out stIndex d = ((0, Some e), d')" "current d' = current d" "sqlNext L out d d'"
      "tables d' = tables d" "secIndexes d' = secIndexes d"
  | (dropped) d' where "execDropIndex L out stIndex d = ((0, None), d')" "current d' = (current d)(catalogIndexKey i := None)"
      "sqlNext L out d d'" "tables d' = tables d" "secIndexes d' = fmdrop i (secIndexes d)"
proof (cases "fmlookup (secIndexes d) i = None")
  case True
  then show thesis
    using failed [of "ErrSQL ''no such index''" d] sqlNext_refl [OF ok(1)] i by (simp add: execDropIndex_def)
next
  case False
  have inv: "sqlInv L d" "seqOk d" using ok(1) by (simp_all add: sqlOk_def)
  let ?fn = "\<lambda>t d. case dropIndexDef i t of (e, t1) \<Rightarrow> (e, (), t1, d)"
  have exec: "execDropIndex L out stIndex d =
     (case dbUpdate out () ?fn d of
           (Some e, _, d1) \<Rightarrow> ((0, Some e), d1)
         | (None, _, d1) \<Rightarrow> ((0, None), d1\<lparr>secIndexes := fmdrop i (secIndexes d1)\<rparr>))"
    unfolding execDropIndex_def Let_def i [symmetric] if_not_P [OF False] by (rule refl)
  have there: "current d (catalogIndexKey i) \<noteq> None" using inv(1) False by (simp add: sqlInv_def)
  obtain t1 where t1: "txDel (catalogIndexKey i) (freshTx True d) = (None, t1)" "openTx True d t1"
    "content (current d) (writes t1) = (current d)(catalogIndexKey i := None)"
    using openTx_del [OF freshTx_open(1) [of True d] there, where m = "current d"] freshTx_open(2) [of True d]
    by auto
  have run: "?fn (freshTx True d) (begun d) = (None, (), t1, begun d)" using t1(1) by (simp add: dropIndexDef_def)
  show thesis
  proof (rule dbUpdate_commits [where fn = ?fn and out = out, OF inv(2) ok(2) run begun_quiet t1(2,3) del_writes [OF t1(1)]])
    fix d1
    assume d1: "dbUpdate out () ?fn d = (Some ErrIO, (), d1)" "current d1 = current d" "db.more d1 = db.more d" "seqNext out d d1" "out \<noteq> WriteOk"
    then show thesis using failed [of ErrIO d1] update_fails [OF ok(1) d1(3,2,4)] sqldb_more [OF d1(3)] unfolding exec by simp
  next
    fix d1
    assume d1: "dbUpdate out () ?fn d = (None, (), d1)" "current d1 = (current d)(catalogIndexKey i := None)"
      "db.more d1 = db.more d" "seqNext out d d1" "out = WriteOk"
    note same = sqldb_more [OF d1(3)]
    have "sqlInv L (d1\<lparr>secIndexes := fmdrop i (secIndexes d1)\<rparr>)"
      by (rule sqlInv_indexes [OF inv(1)]) (use d1(2) same inv(1) in \<open>auto simp: sqlInv_def\<close>)
    then show thesis
      using dropped [of "d1\<lparr>secIndexes := fmdrop i (secIndexes d1)\<rparr>"] d1 same unfolding exec by (simp add: sqlNext_def)
  qed
qed

definition added :: "(string \<rightharpoonup> bytes) \<Rightarrow> (string \<rightharpoonup> bytes) \<Rightarrow> string list \<Rightarrow> (string \<rightharpoonup> bytes)" where
  "added m0 m ks = foldl (\<lambda>m k. m(k := m0 k)) m ks"

lemma added_simps [simp]: "added m0 m [] = m" "added m0 m (k # ks) = added m0 (m(k := m0 k)) ks"
  by (simp_all add: added_def)

lemma added_apply: "added m0 m ks k = (if k \<in> set ks then m0 k else m k)"
  by (induction ks arbitrary: m) auto

lemma buildEntry_loop:
  assumes ok: "rowsOk L m0 def" "tableOk L n def" "tblName def = n"
  shows "set ks \<subseteq> liveRows m0 def \<Longrightarrow> distinct ks \<Longrightarrow> \<forall>k\<in>set ks. m k = None \<Longrightarrow> rowsOk L m def \<Longrightarrow>
    ixOk L def (siDef si) \<Longrightarrow> secOk L m def si \<Longrightarrow> \<forall>enc vals. stored m0 def enc vals \<longrightarrow> nulFree L def (siDef si) vals \<Longrightarrow>
    \<exists>si'. stepAll (buildEntry L def n) (map (\<lambda>k. (k, the (m0 k))) ks) si = (None, si')
      \<and> siDef si' = siDef si \<and> secOk L (added m0 m ks) def si'"
proof (induction ks arbitrary: m si)
  case (Cons k ks)
  then have "k \<in> liveRows m0 def" by simp
  then obtain enc raw vals pk where k: "k = rowKey (tblName def) enc" "m0 k = Some raw" "unpackRow raw = Inr vals" "rowOk L def enc vals"
    "pkKeyFromEncoded enc = Inr pk" "stored m0 def enc vals"
    by (rule liveRows_cases [OF _ ok(1,2)])
  have "m (rowKey (tblName def) enc) = None" "nulFree L def (siDef si) vals" using Cons.prems(3,7) k(1,6) by auto
  then obtain s1 where s1: "secAdd L def vals pk k si = (None, s1)" "siDef s1 = siDef si" "secOk L (m(k := m0 k)) def s1"
    using secOk_add [OF Cons.prems(6,4) ok(2) Cons.prems(5) _ k(3,4,5)] k(1,2) by metis
  have rest: "set ks \<subseteq> liveRows m0 def" "distinct ks" "\<forall>j\<in>set ks. (m(k := m0 k)) j = None" "ixOk L def (siDef s1)"
    "\<forall>enc vals. stored m0 def enc vals \<longrightarrow> nulFree L def (siDef s1) vals"
    using Cons.prems s1(2) by auto
  have rows: "rowsOk L (m(k := m0 k)) def" using rowsOk_put [OF Cons.prems(4) k(3,4)] k(1,2) by simp
  obtain si' where "stepAll (buildEntry L def n) (map (\<lambda>k. (k, the (m0 k))) ks) s1 = (None, si')"
      "siDef si' = siDef s1" "secOk L (added m0 (m(k := m0 k)) ks) def si'"
    using Cons.IH [OF rest(1-3) rows rest(4) s1(3) rest(5)] by blast
  moreover have "buildEntry L def n (k, the (m0 k)) si = (None, s1)" using k s1(1) ok(3) by (simp add: buildEntry_def)
  ultimately show ?case using s1(2) by (intro exI [of _ si']) simp
qed auto

definition noRows :: "(string \<rightharpoonup> bytes) \<Rightarrow> string \<Rightarrow> (string \<rightharpoonup> bytes)" where
  "noRows m n k = (if prefix (rowKeyPrefix n) k then None else m k)"

lemma added_noRows: "set ks = liveRows m def \<Longrightarrow> added m (noRows m (tblName def)) ks = m"
  by (auto simp: added_apply noRows_def liveRows_def fun_eq_iff)

lemma noRows_rowKey [simp]: "noRows m n (rowKey n enc) = None"
  by (simp add: noRows_def rowKey_split)

lemma buildIndex_ok:
  assumes ok: "rowsOk L m def" "tableOk L n def" "tblName def = n" and ks: "set ks = liveRows m def" "distinct ks"
    and ix: "ixOk L def ix" "\<forall>enc vals. stored m def enc vals \<longrightarrow> nulFree L def ix vals"
  obtains si where "stepAll (buildEntry L def n) (map (\<lambda>k. (k, the (m k))) ks) (newSecondaryIdx ix) = (None, si)"
    "siDef si = ix" "secOk L m def si"
proof -
  let ?e = "noRows m (tblName def)" and ?s = "newSecondaryIdx ix"
  have d: "siDef ?s = ix" by (simp add: newSecondaryIdx_def)
  have none: "\<forall>k\<in>set ks. ?e k = None" using ks(1) by (auto simp: noRows_def liveRows_def)
  have rows: "rowsOk L ?e def" by (simp add: rowsOk_def)
  have "\<exists>si. stepAll (buildEntry L def n) (map (\<lambda>k. (k, the (m k))) ks) ?s = (None, si) \<and> siDef si = siDef ?s
      \<and> secOk L (added m ?e ks) def si"
    by (rule buildEntry_loop [OF ok _ ks(2) none rows]) (use ks(1) ix d secOk_empty [of ?e def L ix] in simp_all)
  then show thesis using that added_noRows [OF ks(1)] d by auto
qed


lemma scan_current:
  assumes "openTx wr d t" "writes t = fmempty"
  obtains ks d' where "scanPrefix p t d = (map (\<lambda>k. (k, the (current d k))) ks, d')" "quiet d d'" "distinct ks"
    "set ks = {k. prefix p k \<and> current d k \<noteq> None}"
proof -
  have v: "viewOf t d = current d" using openTx_view [OF assms(1)] assms(2) by simp
  have "\<not> txClosed t" using assms(1) by (simp add: openTx_def)
  then obtain ks where ks: "distinct ks" "\<And>k. k \<in> set ks \<longleftrightarrow> prefix p k \<and> viewOf t d k \<noteq> None"
    "fst (scanPrefix p t d) = map (\<lambda>k. (k, the (viewOf t d k))) ks"
    using scan_result [of t p d] by metis
  obtain d' where "scanPrefix p t d = (map (\<lambda>k. (k, the (current d k))) ks, d')"
    using ks(3) v by (cases "scanPrefix p t d") simp
  moreover have "set ks = {k. prefix p k \<and> current d k \<noteq> None}" using ks(2) v by auto
  ultimately show thesis using that [of ks d'] scanPrefix_quiet [of d p t] ks(1) by simp
qed

lemma fresh_open: "openTx wr (begun d) (freshTx wr d)"
  using openTx_quiet [OF begun_quiet] freshTx_open(1) by blast

lemma checkIndex_ok:
  assumes "checkIndex L def col path = Inr ()" "indexTextOk ix" "normalizeIndex L ix = ix"
    and "ix = \<lparr>ixName = i, ixTable = tblName def, ixColumn = col, ixPath = path\<rparr>"
  shows "ixOk L def ix"
  using assms by (auto simp: checkIndex_def ixOk_def ebind_eq_Inr Let_def split: if_splits)

lemma seqOk_quiet: "quiet d d' \<Longrightarrow> seqOk d' = seqOk d" "quiet d d' \<Longrightarrow> roomFor k d' = roomFor k d"
  using quiet_versions [of d d'] by (simp_all add: seqOk_def roomFor_def quiet_def)

lemma seqNext_quiet: "quiet d d1 \<Longrightarrow> seqNext out d1 d2 \<Longrightarrow> seqNext out d d2"
  using logged_same(1) [of d d1 d2] settled_quiet [of d d1] by (simp add: seqNext_def quiet_def)

lemma sqlNext_quiet: "quiet d d1 \<Longrightarrow> sqlNext L out d1 d2 \<Longrightarrow> sqlNext L out d d2"
  using seqNext_quiet [of d d1 out d2] by (simp add: sqlNext_def)

lemma sqlOk_quiet: "quiet d d' \<Longrightarrow> sqlOk L d \<Longrightarrow> sqlOk L d'"
  using sqlInv_quiet [of d d' L] seqOk_quiet(1) [of d d'] by (simp add: sqlOk_def)

lemma buildTx_run:
  assumes inv: "sqlInv L d" "fmlookup (tables d) n = Some def" and cl: "\<not> dbClosed d"
    and ix: "ixOk L def ix" "\<forall>enc vals. stored (current d) def enc vals \<longrightarrow> nulFree L def ix vals"
  obtains si d' where "dbView (newSecondaryIdx ix) (buildTx L def n (newSecondaryIdx ix)) d = (None, si, d')" "quiet d d'"
    "siDef si = ix" "secOk L (current d) def si"
proof -
  have tb: "tableOk L n def" "rowsOk L (current d) def" "tblName def = n" using inv by (auto elim: sqlInv_table)
  have cur: "current (begun d) = current d" using quiet_current [OF begun_quiet] .
  obtain ks d2 where ks: "scanPrefix (rowKeyPrefix n) (freshTx False d) (begun d) = (map (\<lambda>k. (k, the (current d k))) ks, d2)"
    "quiet (begun d) d2" "distinct ks" "set ks = {k. prefix (rowKeyPrefix n) k \<and> current d k \<noteq> None}"
    unfolding cur [symmetric] by (rule scan_current [OF fresh_open freshTx_open(2)])
  obtain si where si: "stepAll (buildEntry L def n) (map (\<lambda>k. (k, the (current d k))) ks) (newSecondaryIdx ix) = (None, si)"
    "siDef si = ix" "secOk L (current d) def si"
    by (rule buildIndex_ok [OF tb(2,1,3) _ ks(3) ix]) (use ks(4) tb(3) in \<open>simp add: liveRows_def\<close>)
  have run: "buildTx L def n (newSecondaryIdx ix) (freshTx False d) (begun d) = (None, si, freshTx False d, d2)"
    using ks(1) si(1) by (simp add: buildTx_def)
  obtain d' where "dbView (newSecondaryIdx ix) (buildTx L def n (newSecondaryIdx ix)) d = (None, si, d')" "quiet d d'"
    by (rule dbView_seq [where fn = "buildTx L def n (newSecondaryIdx ix)", OF cl run quiet_trans [OF begun_quiet ks(2)]])
  then show thesis using that si(2,3) by blast
qed

lemma execCreateIndex_spec:
  assumes ok: "sqlOk L d" "roomFor 2 d"
    and nm: "i = normalizeName L stIndex" "n = normalizeName L stTable" "ix = \<lparr>ixName = i, ixTable = n, ixColumn = normalizeName L stColumn, ixPath = path\<rparr>"
    and ix: "indexTextOk ix" "normalizeIndex L ix = ix"
    and free: "\<forall>def. fmlookup (tables d) n = Some def \<longrightarrow> (\<forall>enc vals. stored (current d) def enc vals \<longrightarrow> nulFree L def ix vals)"
  obtains (failed) e d' where "execCreateIndex L out stIndex stTable stColumn path d = ((0, Some e), d')" "current d' = current d" "sqlNext L out d d'"
      "tables d' = tables d" "secIndexes d' = secIndexes d"
      "out = WriteOk \<longrightarrow> fmlookup (secIndexes d) i = None \<longrightarrow>
        (\<forall>def. fmlookup (tables d) n = Some def \<longrightarrow> checkIndex L def (normalizeName L stColumn) path \<noteq> Inr ())"
  | (created) si d' where "execCreateIndex L out stIndex stTable stColumn path d = ((0, None), d')"
      "current d' = (current d)(catalogIndexKey i \<mapsto> marshalIndex ix)" "sqlNext L out d d'" "tables d' = tables d"
      "secIndexes d' = fmupd i si (secIndexes d)" "siDef si = ix"
proof -
  have inv: "sqlInv L d" "seqOk d" "\<not> dbClosed d" using ok(1) by (simp_all add: sqlOk_def seqOk_def)
  note unfolded = execCreateIndex_def Let_def nm(1) [symmetric] nm(2) [symmetric] nm(3) [symmetric] tableDef_def
  show thesis
  proof (cases "fmlookup (tables d) n")
    case None
    then show thesis using failed [of _ d] sqlNext_refl [OF ok(1)] by (simp add: unfolded)
  next
    case (Some def)
    then have name: "tblName def = n" using sqlInv_name [OF inv(1)] by simp
    show thesis
    proof (cases "fmlookup (secIndexes d) i = None \<and> checkIndex L def (normalizeName L stColumn) path = Inr ()")
      case False
      then have "\<exists>e. execCreateIndex L out stIndex stTable stColumn path d = ((0, Some e), d)"
        using Some by (cases "checkIndex L def (normalizeName L stColumn) path") (auto simp: unfolded)
      then show thesis using failed [of _ d] sqlNext_refl [OF ok(1)] False Some by auto
    next
      case True
      then have ixok: "ixOk L def ix" using checkIndex_ok ix nm(3) name by blast
      obtain si d1 where si: "dbView (newSecondaryIdx ix) (buildTx L def n (newSecondaryIdx ix)) d = (None, si, d1)" "quiet d d1"
        "siDef si = ix" "secOk L (current d) def si"
        by (rule buildTx_run [OF inv(1) Some inv(3) ixok]) (use free Some in blast)+
      have ok1: "sqlOk L d1" "roomFor 2 d1" "seqOk d1" using sqlOk_quiet [OF si(2) ok(1)] seqOk_quiet [OF si(2)] ok(2) inv(2) by simp_all
      have cur: "current d1 = current d" using quiet_current [OF si(2)] .
      let ?fn = "\<lambda>t d. case saveIndexDef ix t of (e, t1) \<Rightarrow> (e, (), t1, d)"
      have exec: "execCreateIndex L out stIndex stTable stColumn path d =
        (case dbUpdate out () ?fn d1 of
                         (Some e, _, d2) \<Rightarrow> ((0, Some e), d2)
                       | (None, _, d2) \<Rightarrow> ((0, None), d2\<lparr>secIndexes := fmupd i si (secIndexes d2)\<rparr>))"
        using True Some si(1) by (simp add: unfolded)
      obtain t1 where t1: "txPut (catalogIndexKey i) (marshalIndex ix) (freshTx True d1) = (None, t1)" "openTx True d1 t1"
        "content (current d1) (writes t1) = (current d1)(catalogIndexKey i \<mapsto> marshalIndex ix)"
        using openTx_put [OF freshTx_open(1) [of True d1], where k = "catalogIndexKey i" and v = "marshalIndex ix" and m = "current d1"]
          freshTx_open(2) [of True d1] by auto
      have run: "?fn (freshTx True d1) (begun d1) = (None, (), t1, begun d1)" using t1(1) nm(3) by (simp add: saveIndexDef_def)
      show thesis
      proof (rule dbUpdate_commits [where fn = ?fn and out = out, OF ok1(3,2) run begun_quiet t1(2,3) put_writes [OF t1(1)]])
        fix d2
        assume d2: "dbUpdate out () ?fn d1 = (Some ErrIO, (), d2)" "current d2 = current d1" "db.more d2 = db.more d1" "seqNext out d1 d2" "out \<noteq> WriteOk"
        then show thesis
          using failed [of ErrIO d2] update_fails [OF ok1(1) d2(3,2,4)] sqldb_more [OF d2(3)] quiet_sql [OF si(2)] cur sqlNext_quiet [OF si(2)] unfolding exec by simp
      next
        fix d2
        assume d2: "dbUpdate out () ?fn d1 = (None, (), d2)" "current d2 = (current d1)(catalogIndexKey i \<mapsto> marshalIndex ix)"
          "db.more d2 = db.more d1" "seqNext out d1 d2" "out = WriteOk"
        note same = sqldb_more [OF d2(3)] quiet_sql [OF si(2)]
        let ?d' = "d2\<lparr>secIndexes := fmupd i si (secIndexes d2)\<rparr>"
        have new: "indexState L (current d) (tables d) i si"
          using si(3,4) ixok Some nm(3) by (simp add: indexState_def)
        have "sqlInv L ?d'"
          by (rule sqlInv_indexes [OF inv(1)]) (use d2(2) same inv(1) cur new si(3) in \<open>auto simp: sqlInv_def\<close>)
        then show thesis using created [of ?d' si] d2 same cur si(3) seqNext_quiet [OF si(2), of out d2] unfolding exec by (simp add: sqlNext_def)
      qed
    qed
  qed
qed


section \<open>DROP TABLE\<close>

lemma without_append: "without (without m as) bs = without m (as @ bs)"
  by (simp add: without_def)

lemma dropRows_run:
  "openTx True d t \<Longrightarrow> \<forall>p\<in>set pairs. current d (fst p) \<noteq> None \<Longrightarrow> \<exists>t'. dropRows pairs (n, t) = (None, n + length pairs, t') \<and> openTx True d t'
     \<and> content m (writes t') = without (content m (writes t)) (map fst pairs)"
  unfolding dropRows_def
proof (induction pairs arbitrary: n t)
  case (Cons p pairs)
  obtain key v where p: "p = (key, v)" by fastforce
  obtain t1 where t1: "txDel key t = (None, t1)" "openTx True d t1" "content m (writes t1) = (content m (writes t))(key := None)"
    using openTx_del [OF Cons.prems(1), of key m] Cons.prems(2) p by auto
  obtain t' where "stepAll (\<lambda>(key, _) (n, t). case txDel key t of (Some e, t1) \<Rightarrow> (Some e, n, t1) | (None, t1) \<Rightarrow> (None, n + 1, t1)) pairs (n + 1, t1)
      = (None, n + 1 + length pairs, t')" "openTx True d t'" "content m (writes t') = without (content m (writes t1)) (map fst pairs)"
    using Cons.IH [OF t1(2), of "n + 1"] Cons.prems(2) by auto
  then show ?case using t1(1,3) p by (intro exI [of _ t']) simp
qed auto

lemma dropIndexDefs_run:
  "openTx True d t \<Longrightarrow> \<forall>ix\<in>set defs. current d (catalogIndexKey (ixName ix)) \<noteq> None \<Longrightarrow> \<exists>t'. dropIndexDefs L n defs t = (None, t') \<and> openTx True d t'
     \<and> content m (writes t') =
       without (content m (writes t)) (map (\<lambda>ix. catalogIndexKey (ixName ix)) (filter (\<lambda>ix. normalizeName L (ixTable ix) = n) defs))"
  unfolding dropIndexDefs_def
proof (induction defs arbitrary: t)
  case (Cons ix defs)
  let ?f = "\<lambda>ix t. if normalizeName L (ixTable ix) = n then dropIndexDef (ixName ix) t else (None, t)"
  obtain t1 where t1: "?f ix t = (None, t1)" "openTx True d t1" "content m (writes t1) =
      (if normalizeName L (ixTable ix) = n then (content m (writes t))(catalogIndexKey (ixName ix) := None) else content m (writes t))"
    using openTx_del [OF Cons.prems(1), of "catalogIndexKey (ixName ix)" m] Cons.prems
    by (cases "normalizeName L (ixTable ix) = n") (auto simp: dropIndexDef_def)
  obtain t' where "stepAll ?f defs t1 = (None, t')" "openTx True d t'"
    "content m (writes t') = without (content m (writes t1)) (map (\<lambda>ix. catalogIndexKey (ixName ix)) (filter (\<lambda>ix. normalizeName L (ixTable ix) = n) defs))"
    using Cons.IH [OF t1(2)] Cons.prems(2) by auto
  then show ?case using t1(1,3) by (intro exI [of _ t']) (simp split: if_splits)
qed auto

definition droppedKeys :: "sqldb \<Rightarrow> TableDef \<Rightarrow> string set" where
  \<comment> \<open>what the store forgets when a table is dropped: its rows, its indexes and its definition\<close>
  "droppedKeys d def =
     liveRows (current d) def \<union> {catalogIndexKey i | i si. fmlookup (secIndexes d) i = Some si \<and> ixTable (siDef si) = tblName def}
     \<union> {catalogTableKey (tblName def)}"

lemma ixOk_names:
  assumes "ixOk L def ix"
  shows "indexTextOk ix" "normalizeName L (ixName ix) = ixName ix" "normalizeName L (ixTable ix) = ixTable ix"
proof -
  have n: "normalizeIndex L ix = ix" using assms by (simp add: ixOk_def)
  show "indexTextOk ix" using assms by (simp add: ixOk_def)
  show "normalizeName L (ixName ix) = ixName ix" "normalizeName L (ixTable ix) = ixTable ix"
    using arg_cong [OF n, of ixName] arg_cong [OF n, of ixTable] by (simp_all add: normalizeIndex_def)
qed

text \<open>The index definitions a transaction on the store of a consistent database reads.\<close>

definition indexDefOf :: "sqldb \<Rightarrow> string \<Rightarrow> IndexDef option" where
  "indexDefOf d i = map_option siDef (fmlookup (secIndexes d) i)"

lemma indexDefOf_stored:
  assumes "sqlInv L d"
  shows "current d (catalogIndexKey i) = map_option marshalIndex (indexDefOf d i)"
  using assms by (simp add: sqlInv_def indexDefOf_def comp_def option.map_comp)

lemma indexDefOf_ok:
  assumes "sqlInv L d" "indexDefOf d i = Some ix"
  shows "ixName ix = i" "indexTextOk ix" "normalizeName L (ixTable ix) = ixTable ix"
proof -
  obtain si where si: "fmlookup (secIndexes d) i = Some si" "siDef si = ix"
    using assms(2) by (cases "fmlookup (secIndexes d) i") (simp_all add: indexDefOf_def)
  obtain df where "ixOk L df (siDef si)" "ixName (siDef si) = i" by (rule sqlInv_index [OF assms(1) si(1)])
  then show "ixName ix = i" "indexTextOk ix" "normalizeName L (ixTable ix) = ixTable ix" using ixOk_names si(2) by blast+
qed

lemma listIndexDefs_run:
  assumes inv: "sqlInv L d" and t: "openTx wr e t"
    and m: "\<forall>i. content (current e) (writes t) (catalogIndexKey i) = current d (catalogIndexKey i)"
  obtains names e' where "listIndexDefs t e = (Inr (map (\<lambda>i. the (indexDefOf d i)) names), e')" "quiet e e'"
    "distinct names" "set names = dom (indexDefOf d)"
proof -
  have view: "\<forall>i. viewOf t e (catalogIndexPrefix @ i) = map_option marshalIndex (indexDefOf d i)"
    using openTx_view [OF t] m indexDefOf_stored [OF inv] by (simp add: catalogKey_split)
  have t': "\<not> txClosed t" using t by (simp add: openTx_def)
  have docs: "\<forall>i x. indexDefOf d i = Some x \<longrightarrow> indexTextOk x" using indexDefOf_ok(2) [OF inv] by blast
  obtain names where names: "distinct names" "set names = dom (indexDefOf d)"
    "eseq (map (\<lambda>(k, v). unmarshalIndex v) (fst (scanPrefix catalogIndexPrefix t e))) = Inr (map (\<lambda>i. the (indexDefOf d i)) names)"
    by (rule indexDocs.list_documents [OF t' view docs])
  then obtain e' where "listIndexDefs t e = (Inr (map (\<lambda>i. the (indexDefOf d i)) names), e')" "quiet e e'"
    using scanPrefix_quiet [of e catalogIndexPrefix t] by (cases "scanPrefix catalogIndexPrefix t e") (simp add: listIndexDefs_def)
  then show thesis using that names(1,2) by blast
qed

lemma listTableDefs_run:
  assumes inv: "sqlInv L d" and t: "openTx wr e t"
    and m: "\<forall>n. content (current e) (writes t) (catalogTableKey n) = current d (catalogTableKey n)"
  obtains names e' where "listTableDefs t e = (Inr (map (\<lambda>n. the (fmlookup (tables d) n)) names), e')" "quiet e e'"
    "distinct names" "set names = dom (fmlookup (tables d))"
proof -
  have view: "\<forall>n. viewOf t e (catalogTablePrefix @ n) = map_option marshalTable (fmlookup (tables d) n)"
    using openTx_view [OF t] m inv by (simp add: sqlInv_def catalogKey_split)
  have t': "\<not> txClosed t" using t by (simp add: openTx_def)
  have docs: "\<forall>n x. fmlookup (tables d) n = Some x \<longrightarrow> tableTextOk x" using inv by (auto elim: sqlInv_table simp: tableOk_def)
  obtain names where names: "distinct names" "set names = dom (fmlookup (tables d))"
    "eseq (map (\<lambda>(k, v). unmarshalTable v) (fst (scanPrefix catalogTablePrefix t e))) = Inr (map (\<lambda>n. the (fmlookup (tables d) n)) names)"
    by (rule tableDocs.list_documents [OF t' view docs])
  then obtain e' where "listTableDefs t e = (Inr (map (\<lambda>n. the (fmlookup (tables d) n)) names), e')" "quiet e e'"
    using scanPrefix_quiet [of e catalogTablePrefix t] by (cases "scanPrefix catalogTablePrefix t e") (simp add: listTableDefs_def)
  then show thesis using that names(1,2) by blast
qed

text \<open>The keys DROP TABLE selects among them are those of the indexes of the table.\<close>

lemma selected_keys:
  assumes inv: "sqlInv L d" and names: "set names = dom (indexDefOf d)"
  shows "set (map (\<lambda>ix. catalogIndexKey (ixName ix)) (filter (\<lambda>ix. normalizeName L (ixTable ix) = n) (map (\<lambda>i. the (indexDefOf d i)) names)))
    = {catalogIndexKey i | i si. fmlookup (secIndexes d) i = Some si \<and> ixTable (siDef si) = n}"
proof -
  let ?def = "\<lambda>i. the (indexDefOf d i)"
  have norm: "normalizeName L (ixTable (?def i)) = ixTable (?def i)" "ixName (?def i) = i" if "i \<in> dom (indexDefOf d)" for i
    using that indexDefOf_ok(1,3) [OF inv] by auto
  have "set (map (\<lambda>ix. catalogIndexKey (ixName ix)) (filter (\<lambda>ix. normalizeName L (ixTable ix) = n) (map ?def names)))
      = (\<lambda>i. catalogIndexKey (ixName (?def i))) ` {i \<in> dom (indexDefOf d). normalizeName L (ixTable (?def i)) = n}"
    unfolding names [symmetric] by (simp add: filter_map image_image comp_def)
  also have "\<dots> = catalogIndexKey ` {i \<in> dom (indexDefOf d). ixTable (?def i) = n}"
  proof (rule image_cong)
    show "{i \<in> dom (indexDefOf d). normalizeName L (ixTable (?def i)) = n} = {i \<in> dom (indexDefOf d). ixTable (?def i) = n}"
      by (rule Collect_cong) (rule conj_cong [OF refl], simp only: norm)
  qed (simp add: norm)
  also have "\<dots> = {catalogIndexKey i | i si. fmlookup (secIndexes d) i = Some si \<and> ixTable (siDef si) = n}"
    by (auto simp: dom_def indexDefOf_def)
  finally show ?thesis .
qed

lemma dropTx_run:
  assumes inv: "sqlInv L d" "fmlookup (tables d) n = Some def"
  obtains t' d' where "dropTx L n (freshTx True d) (begun d) = (None, card (liveRows (current d) def), t', d')" "quiet d d'" "openTx True d t'"
    "writes t' \<noteq> fmempty" "\<forall>k. content (current d) (writes t') k = (if k \<in> droppedKeys d def then None else current d k)"
proof -
  let ?t = "freshTx True d" and ?m = "current d" and ?d1 = "(begun d)\<lparr>reads := reads (begun d) + 1\<rparr>"
  have tb: "tableOk L n def" "tblName def = n" using inv by (auto elim: sqlInv_table)
  have cat: "?m (catalogTableKey n) = Some (marshalTable def)" using inv by (simp add: sqlInv_def)
  have load: "loadTableDef n ?t (begun d) = (Inr def, ?d1)"
    using cat tb(1) unmarshal_table by (simp add: loadTableDef_def fresh_get tableOk_def)
  have q1: "quiet d ?d1" by (rule quiet_begun_reads)
  have o1: "openTx True ?d1 ?t" using openTx_quiet [OF q1] freshTx_open(1) by blast
  obtain ks d2 where ks: "scanPrefix (rowKeyPrefix n) ?t ?d1 = (map (\<lambda>k. (k, the (current ?d1 k))) ks, d2)" "quiet ?d1 d2" "distinct ks"
    "set ks = {k. prefix (rowKeyPrefix n) k \<and> current ?d1 k \<noteq> None}"
    by (rule scan_current [OF o1 freshTx_open(2)])
  have live: "set ks = liveRows ?m def" using ks(4) quiet_current [OF q1] tb(2) by (simp add: liveRows_def)
  have q2: "quiet d d2" using quiet_trans [OF q1 ks(2)] .
  let ?pairs = "map (\<lambda>k. (k, the (current ?d1 k))) ks"
  obtain t1 where t1: "dropRows ?pairs (0, ?t) = (None, length ks, t1)" "openTx True d t1" "content ?m (writes t1) = without ?m ks"
    using dropRows_run [OF freshTx_open(1) [of True d], where pairs = ?pairs and n = 0 and m = ?m] freshTx_open(2) [of True d] live
    by (auto simp: comp_def liveRows_def)
  have o2: "openTx True d2 t1" using openTx_quiet [OF q2] t1(2) by simp
  have kept: "\<forall>i. content (current d2) (writes t1) (catalogIndexKey i) = ?m (catalogIndexKey i)"
    using t1(3) live quiet_current [OF q2] by (auto simp: without_apply liveRows_def)
  obtain names d3 where l: "listIndexDefs t1 d2 = (Inr (map (\<lambda>i. the (indexDefOf d i)) names), d3)" "quiet d2 d3"
    "distinct names" "set names = dom (indexDefOf d)"
    by (rule listIndexDefs_run [OF inv(1) o2 kept])
  let ?defs = "map (\<lambda>i. the (indexDefOf d i)) names"
  have there: "\<forall>ix\<in>set ?defs. ?m (catalogIndexKey (ixName ix)) \<noteq> None"
    using l(4) indexDefOf_stored [OF inv(1)] indexDefOf_ok(1) [OF inv(1)] by auto
  let ?sel = "map (\<lambda>ix. catalogIndexKey (ixName ix)) (filter (\<lambda>ix. normalizeName L (ixTable ix) = n) ?defs)"
  obtain t2 where t2: "dropIndexDefs L n ?defs t1 = (None, t2)" "openTx True d t2" "content ?m (writes t2) = without (without ?m ks) ?sel"
    using dropIndexDefs_run [OF t1(2) there, of L n ?m] t1(3) by auto
  obtain t3 where t3: "txDel (catalogTableKey n) t2 = (None, t3)" "openTx True d t3"
    "content ?m (writes t3) = (content ?m (writes t2))(catalogTableKey n := None)"
    using openTx_del [OF t2(2), of "catalogTableKey n" ?m] cat by auto
  have "length ks = card (liveRows ?m def)" using distinct_card [OF ks(3)] live by simp
  then have run: "dropTx L n ?t (begun d) = (None, card (liveRows ?m def), t3, d3)"
    using load ks(1) t1(1) l(1) t2(1) t3(1) by (simp add: dropTx_def dropTableDef_def)
  show thesis
  proof (rule that [OF run quiet_trans [OF q2 l(2)] t3(2) del_writes [OF t3(1)]])
    show "\<forall>k. content ?m (writes t3) k = (if k \<in> droppedKeys d def then None else ?m k)"
      unfolding t3(3) t2(3) droppedKeys_def tb(2) selected_keys [OF inv(1) l(4), symmetric] live [symmetric] by (simp add: without_apply)
  qed
qed

lemma sqlInv_drop:
  assumes inv: "sqlInv L d" "fmlookup (tables d) n = Some def"
    and m: "\<forall>k. current d' k = (if k \<in> droppedKeys d def then None else current d k)"
    and d': "tables d' = fmdrop n (tables d)" "indexes d' = fmdrop n (indexes d)"
      "secIndexes d' = fmfilter (\<lambda>k. ixTable (siDef (the (fmlookup (secIndexes d) k))) \<noteq> n) (secIndexes d)"
  shows "sqlInv L d'"
proof -
  have name: "tblName def = n" "CHR ''/'' \<notin> set n" using sqlInv_name [OF inv] sqlInv_slash [OF inv] by simp_all
  have rows: "current d' (rowKey j enc) = (if j = n then None else current d (rowKey j enc))" if "CHR ''/'' \<notin> set j" for j enc
    using m name that rowKey_table_unique(2) [OF name(2) that, of enc] by (auto simp: droppedKeys_def liveRows_def)
  have tbl: "current d' (catalogTableKey j) = (if j = n then None else current d (catalogTableKey j))" for j
    using m name by (auto simp: droppedKeys_def liveRows_def)
  have idx: "current d' (catalogIndexKey i) = map_option (marshalIndex \<circ> siDef) (fmlookup (secIndexes d') i)" for i
  proof -
    have "current d (catalogIndexKey i) = map_option (marshalIndex \<circ> siDef) (fmlookup (secIndexes d) i)"
      using inv(1) by (simp add: sqlInv_def)
    then show ?thesis
      using m name d'(3) by (cases "fmlookup (secIndexes d) i") (auto simp: droppedKeys_def liveRows_def)
  qed
  have "tableState L (current d') j df (fmlookup (indexes d') j)" if j: "fmlookup (tables d') j = Some df" for j df
  proof -
    have jd: "fmlookup (tables d) j = Some df" "j \<noteq> n" using j d'(1) by (auto split: if_splits)
    then have "tableState L (current d) j df (fmlookup (indexes d) j)" using inv(1) unfolding sqlInv_def by blast
    then show ?thesis
      using stored_cong(2,4) [of "current d'" df "current d"] rows [OF sqlInv_slash [OF inv(1) jd(1)]] jd(2) sqlInv_name [OF inv(1) jd(1)] d'(2)
      by (simp add: tableState_def)
  qed
  moreover have "indexState L (current d') (tables d') i si" if i: "fmlookup (secIndexes d') i = Some si" for i si
  proof -
    have si: "fmlookup (secIndexes d) i = Some si" "ixTable (siDef si) \<noteq> n" using i d'(3) by (auto split: if_splits)
    obtain df where df: "fmlookup (tables d) (ixTable (siDef si)) = Some df" "ixOk L df (siDef si)" "secOk L (current d) df si"
      "ixName (siDef si) = i"
      by (rule sqlInv_index [OF inv(1) si(1)])
    have "secOk L (current d') df si"
      using stored_cong(3) [of "current d'" df "current d"] rows [OF sqlInv_slash [OF inv(1) df(1)]] si(2) sqlInv_name [OF inv(1) df(1)] df(3) by simp
    then show ?thesis using df si(2) d'(1) by (simp add: indexState_def)
  qed
  moreover have "current d' (rowKey j enc) = None" if "fmlookup (tables d') j = None" "CHR ''/'' \<notin> set j" for j enc
    using rows [OF that(2), of enc] that d'(1) inv(1) by (auto simp: sqlInv_def split: if_splits)
  moreover have "current d' (catalogTableKey j) = map_option marshalTable (fmlookup (tables d') j)" for j
    using tbl [of j] inv(1) d'(1) by (simp add: sqlInv_def)
  ultimately show ?thesis using idx by (simp add: sqlInv_def)
qed

lemma execDrop_spec:
  assumes ok: "sqlOk L d" "roomFor 2 d" and n: "n = normalizeName L stName"
  obtains (failed) e d' where "execDrop L out stName d = ((0, Some e), d')" "current d' = current d" "sqlNext L out d d'"
      "tables d' = tables d" "secIndexes d' = secIndexes d"
  | (dropped) def d' where "execDrop L out stName d = ((card (liveRows (current d) def), None), d')" "fmlookup (tables d) n = Some def"
      "\<forall>k. current d' k = (if k \<in> droppedKeys d def then None else current d k)" "sqlNext L out d d'" "tables d' = fmdrop n (tables d)" "out = WriteOk"
proof -
  have inv: "sqlInv L d" "seqOk d" using ok(1) by (simp_all add: sqlOk_def)
  have exec: "execDrop L out stName d =
    (case dbUpdate out 0 (dropTx L n) d of
        (Some e, _, d1) \<Rightarrow> ((0, Some e), d1)
      | (None, m, d1) \<Rightarrow>
          ((m, None),
           d1\<lparr>tables := fmdrop n (tables d1), indexes := fmdrop n (indexes d1),
              secIndexes := fmfilter (\<lambda>k. ixTable (siDef (the (fmlookup (secIndexes d1) k))) \<noteq> n) (secIndexes d1)\<rparr>))"
    unfolding execDrop_def Let_def n [symmetric] by (rule refl)
  have cat: "current d (catalogTableKey n) = map_option marshalTable (fmlookup (tables d) n)" using inv(1) by (simp add: sqlInv_def)
  show thesis
  proof (cases "fmlookup (tables d) n")
    case None
    let ?t = "freshTx True d" and ?e = "ErrSQL ''no such table''"
    have run: "dropTx L n ?t (begun d) = (Some ?e, 0, ?t, (begun d)\<lparr>reads := reads (begun d) + 1\<rparr>)"
      using None cat by (simp add: dropTx_def loadTableDef_def fresh_get)
    obtain d1 where d1: "dbUpdate out 0 (dropTx L n) d = (Some ?e, 0, d1)" "current d1 = current d" "db.more d1 = db.more d" "seqNext out d d1"
      by (rule dbUpdate_fails [where fn = "dropTx L n", OF inv(2) ok(2) run quiet_begun_reads freshTx_open(1)])
    then show thesis
      using failed [of ?e d1] update_fails [OF ok(1) d1(3,2,4)] sqldb_more [OF d1(3)] unfolding exec by simp
  next
    case (Some def)
    obtain t1 d2 where t1: "dropTx L n (freshTx True d) (begun d) = (None, card (liveRows (current d) def), t1, d2)" "quiet d d2" "openTx True d t1"
      "writes t1 \<noteq> fmempty" "\<forall>k. content (current d) (writes t1) k = (if k \<in> droppedKeys d def then None else current d k)"
      by (rule dropTx_run [OF inv(1) Some])
    let ?m = "\<lambda>k. if k \<in> droppedKeys d def then None else current d k"
    have m': "content (current d) (writes t1) = ?m" using t1(5) by (simp add: fun_eq_iff)
    show thesis
    proof (rule dbUpdate_commits [where fn = "dropTx L n" and out = out and vars = 0, OF inv(2) ok(2) t1(1-3) m' t1(4)])
      fix d1
      assume d1: "dbUpdate out 0 (dropTx L n) d = (Some ErrIO, card (liveRows (current d) def), d1)" "current d1 = current d"
        "db.more d1 = db.more d" "seqNext out d d1" "out \<noteq> WriteOk"
      then show thesis
        using failed [of ErrIO d1] update_fails [OF ok(1) d1(3,2,4)] sqldb_more [OF d1(3)] unfolding exec by simp
    next
      fix d1
      assume d1: "dbUpdate out 0 (dropTx L n) d = (None, card (liveRows (current d) def), d1)" "current d1 = ?m"
        "db.more d1 = db.more d" "seqNext out d d1" "out = WriteOk"
      note same = sqldb_more [OF d1(3)]
      let ?d' = "d1\<lparr>tables := fmdrop n (tables d1), indexes := fmdrop n (indexes d1),
              secIndexes := fmfilter (\<lambda>k. ixTable (siDef (the (fmlookup (secIndexes d1) k))) \<noteq> n) (secIndexes d1)\<rparr>"
      have m: "\<forall>k. current ?d' k = ?m k" using d1(2) by simp
      have "sqlInv L ?d'" by (rule sqlInv_drop [OF inv(1) Some m]) (unfold same, simp_all)
      then show thesis
        using dropped [of def ?d'] d1 m same Some unfolding exec by (simp add: sqlNext_def)
    qed
  qed
qed

end
