(* ===== verification/SqlRebuild.thy ===== *)
theory SqlRebuild
  imports SqlDdl
begin

text \<open>
  \<open>rebuildSQLState\<close>, which \<open>Open\<close> runs after the log has been replayed: it restores from the content of
  the store the caches that the statements had maintained.
\<close>

section \<open>States with the same store\<close>

definition sameStore :: "sqldb \<Rightarrow> sqldb \<Rightarrow> bool" where
  "sameStore d d' \<longleftrightarrow>
     version d' = version d \<and> history d' = history d \<and> fileOpen d' = fileOpen d \<and> dbClosed d' = dbClosed d \<and> dbFile d' = dbFile d
     \<and> activeFrom d d'"

lemma activeFrom_caches [simp]:
  "activeFrom d (d'\<lparr>tables := x\<rparr>) = activeFrom d d'" "activeFrom d (d'\<lparr>indexes := y\<rparr>) = activeFrom d d'"
  "activeFrom d (d'\<lparr>secIndexes := z\<rparr>) = activeFrom d d'" "activeFrom (d\<lparr>tables := x\<rparr>) d' = activeFrom d d'"
  by (simp_all add: activeFrom_def)

lemma sameStore_refl [simp]: "sameStore d d"
  by (simp add: sameStore_def)

lemma sameStore_trans: "sameStore a b \<Longrightarrow> sameStore b c \<Longrightarrow> sameStore a c"
  using activeFrom_trans [of a b c] by (simp add: sameStore_def)

lemma sameStore_caches [simp]:
  "sameStore d (d'\<lparr>tables := x\<rparr>) = sameStore d d'" "sameStore d (d'\<lparr>indexes := y\<rparr>) = sameStore d d'"
  "sameStore d (d'\<lparr>secIndexes := z\<rparr>) = sameStore d d'"
  by (simp_all add: sameStore_def)

lemma quiet_sameStore: "quiet d d' \<Longrightarrow> sameStore d d'"
  by (simp add: sameStore_def quiet_def)

lemma sameStore_current: "sameStore d d' \<Longrightarrow> current d' = current d"
  by (simp add: sameStore_def fun_eq_iff current_def versionsOf_def)

lemma sameStore_seqOk: "sameStore d d' \<Longrightarrow> seqOk d' = seqOk d"
  by (simp add: sameStore_def seqOk_def versionsOf_def)

lemma sameStore_open: "sameStore d d' \<Longrightarrow> openTx wr d' t = openTx wr d t"
  using sameStore_current [of d d'] by (simp add: sameStore_def openTx_def)


section \<open>Primary-key indexes\<close>

lemma buildTree_loop:
  assumes ok: "rowsOk L m0 def" "tableOk L n def" "tblName def = n"
  shows "set ks \<subseteq> liveRows m0 def \<Longrightarrow> pkOk m n tree \<Longrightarrow>
    \<exists>tree'. foldl (\<lambda>r (key, _). ebind r (\<lambda>tree.
       (case parseRowKey n key of
          None \<Rightarrow> Inr tree
        | Some enc \<Rightarrow> ebind (pkKeyFromEncoded enc) (\<lambda>k. orPanic (btPut tree k key)))))
       (Inr tree) (map (\<lambda>k. (k, the (m0 k))) ks) = Inr tree' \<and> pkOk (added m0 m ks) n tree'"
proof (induction ks arbitrary: m tree)
  case (Cons k ks)
  then have "k \<in> liveRows m0 def" by simp
  then obtain enc raw pk where k: "k = rowKey (tblName def) enc" "m0 k = Some raw" "pkKeyFromEncoded enc = Inr pk" "enc = pkEncode pk"
    by (rule liveRows_cases [OF _ ok(1,2)])
  have sub: "set ks \<subseteq> liveRows m0 def" using Cons.prems(1) by simp
  obtain t1 where t1: "btPut tree pk k = Some t1" "pkOk (m(k := m0 k)) n t1"
    using pkOk_put [OF Cons.prems(2), of pk raw] k ok(3) by auto
  obtain tree' where "foldl (\<lambda>r (key, _). ebind r (\<lambda>tree.
       (case parseRowKey n key of
          None \<Rightarrow> Inr tree
        | Some enc \<Rightarrow> ebind (pkKeyFromEncoded enc) (\<lambda>k. orPanic (btPut tree k key)))))
       (Inr t1) (map (\<lambda>k. (k, the (m0 k))) ks) = Inr tree'" "pkOk (added m0 (m(k := m0 k)) ks) n tree'"
    using Cons.IH [OF sub t1(2)] by blast
  moreover have "parseRowKey n k = Some enc" using k(1) ok(3) by simp
  ultimately show ?case using t1(1) k(3) by (intro exI [of _ tree']) (simp add: orPanic_def)
qed auto

lemma buildTree_ok:
  assumes ok: "rowsOk L m def" "tableOk L n def" "tblName def = n" and ks: "set ks = liveRows m def"
  obtains tree where "buildTree n (map (\<lambda>k. (k, the (m k))) ks) = Inr tree" "pkOk m n tree"
proof -
  have "pkOk (noRows m (tblName def)) n newBTree" using ok(3) by (intro pkOk_empty) simp
  then show thesis
    using buildTree_loop [OF ok, of ks "noRows m (tblName def)" newBTree] that added_noRows [OF ks] ks by (auto simp: buildTree_def)
qed

definition tablesFrom :: "golib \<Rightarrow> (string \<rightharpoonup> bytes) \<Rightarrow> (string, TableDef) fmap \<Rightarrow> bool" where
  \<comment> \<open>well-formed tables over this store\<close>
  "tablesFrom L m tbls \<longleftrightarrow> (\<forall>n def. fmlookup tbls n = Some def \<longrightarrow> tableOk L n def \<and> rowsOk L m def)"

lemma rebuildTable_ok:
  assumes tb: "tableOk L n def" "rowsOk L (current d) def" and t: "openTx wr d t" "writes t = fmempty"
  obtains tree d' where "rebuildTable L t def d = (None, d')" "sameStore d d'" "pkOk (current d) n tree"
    "tables d' = fmupd n def (tables d)" "indexes d' = fmupd n tree (indexes d)" "secIndexes d' = secIndexes d"
proof -
  have name: "tblName def = n" "normalizeName L n = n" and def: "\<lparr>tblName = n, tblColumns = normalizeColumns L (tblColumns def)\<rparr> = def"
    using tb(1) by (auto simp: tableOk_def)
  let ?d = "d\<lparr>tables := fmupd n def (tables d)\<rparr>"
  have same: "sameStore d ?d" by simp
  have o1: "openTx wr ?d t" using sameStore_open [OF same] t(1) by blast
  obtain ks d1 where ks: "scanPrefix (rowKeyPrefix n) t ?d = (map (\<lambda>k. (k, the (current ?d k))) ks, d1)" "quiet ?d d1" "distinct ks"
    "set ks = {k. prefix (rowKeyPrefix n) k \<and> current ?d k \<noteq> None}"
    by (rule scan_current [OF o1 t(2)])
  obtain tree where tree: "buildTree n (map (\<lambda>k. (k, the (current d k))) ks) = Inr tree" "pkOk (current d) n tree"
    by (rule buildTree_ok [OF tb(2,1) name(1)]) (use ks(4) name(1) in \<open>simp add: liveRows_def\<close>)
  have "rebuildTable L t def d = (None, d1\<lparr>indexes := fmupd n tree (indexes d1)\<rparr>)"
    using ks(1) tree(1) name def by (simp add: rebuildTable_def Let_def)
  then show thesis
    using that [of "d1\<lparr>indexes := fmupd n tree (indexes d1)\<rparr>" tree] tree(2) quiet_sql [OF ks(2)] quiet_sameStore [OF ks(2)]
    by (simp add: sameStore_def)
qed

lemma rebuildTables_ok:
  assumes tbls: "tablesFrom L m tbls"
  shows "set ns \<subseteq> fmdom' tbls \<Longrightarrow> openTx wr d t \<Longrightarrow> writes t = fmempty \<Longrightarrow> current d = m \<Longrightarrow>
    \<exists>d'. stepAll (rebuildTable L t) (map (\<lambda>n. the (fmlookup tbls n)) ns) d = (None, d') \<and> sameStore d d'
      \<and> (\<forall>j. fmlookup (tables d') j = (if j \<in> set ns then fmlookup tbls j else fmlookup (tables d) j))
      \<and> (\<forall>j. if j \<in> set ns then (\<exists>tree. fmlookup (indexes d') j = Some tree \<and> pkOk m j tree)
             else fmlookup (indexes d') j = fmlookup (indexes d) j)
      \<and> secIndexes d' = secIndexes d"
proof (induction ns arbitrary: d)
  case (Cons n ns)
  obtain def where def: "fmlookup tbls n = Some def" using Cons.prems(1) by (auto simp: fmlookup_dom'_iff)
  then have tb: "tableOk L n def" "rowsOk L (current d) def" using tbls Cons.prems(4) by (auto simp: tablesFrom_def)
  obtain tree d1 where d1: "rebuildTable L t def d = (None, d1)" "sameStore d d1" "pkOk (current d) n tree"
    "tables d1 = fmupd n def (tables d)" "indexes d1 = fmupd n tree (indexes d)" "secIndexes d1 = secIndexes d"
    by (rule rebuildTable_ok [OF tb Cons.prems(2,3)])
  have "openTx wr d1 t" "current d1 = m" using sameStore_open [OF d1(2)] sameStore_current [OF d1(2)] Cons.prems(2,4) by simp_all
  then obtain d' where d': "stepAll (rebuildTable L t) (map (\<lambda>n. the (fmlookup tbls n)) ns) d1 = (None, d')" "sameStore d1 d'"
      "\<forall>j. fmlookup (tables d') j = (if j \<in> set ns then fmlookup tbls j else fmlookup (tables d1) j)"
      "\<forall>j. if j \<in> set ns then (\<exists>tree. fmlookup (indexes d') j = Some tree \<and> pkOk m j tree)
           else fmlookup (indexes d') j = fmlookup (indexes d1) j"
      "secIndexes d' = secIndexes d1"
    using Cons.IH [of d1] Cons.prems(1,3) by auto
  have "stepAll (rebuildTable L t) (map (\<lambda>n. the (fmlookup tbls n)) (n # ns)) d = (None, d')" using d1(1) d'(1) def by simp
  moreover have "sameStore d d'" using sameStore_trans d1(2) d'(2) by blast
  moreover have "fmlookup (tables d') j = (if j \<in> set (n # ns) then fmlookup tbls j else fmlookup (tables d) j)" for j
    using spec [OF d'(3), of j] d1(4) def by auto
  moreover have "if j \<in> set (n # ns) then (\<exists>tree. fmlookup (indexes d') j = Some tree \<and> pkOk m j tree)
      else fmlookup (indexes d') j = fmlookup (indexes d) j" for j
    using spec [OF d'(4), of j] d1(3,5) Cons.prems(4) by (auto split: if_splits)
  ultimately show ?case using d'(5) d1(6) by (intro exI [of _ d'] conjI allI) simp_all
qed (auto intro!: exI)


section \<open>Secondary indexes\<close>

definition indexesFrom :: "golib \<Rightarrow> (string \<rightharpoonup> bytes) \<Rightarrow> (string, TableDef) fmap \<Rightarrow> (string \<rightharpoonup> IndexDef) \<Rightarrow> bool" where
  \<comment> \<open>well-formed index definitions, with no NUL byte in the values that the stored rows have\<close>
  "indexesFrom L m tbls docs \<longleftrightarrow>
     (\<forall>i ix. docs i = Some ix \<longrightarrow> ixName ix = i \<and>
        (\<exists>def. fmlookup tbls (ixTable ix) = Some def \<and> ixOk L def ix \<and> (\<forall>enc vals. stored m def enc vals \<longrightarrow> nulFree L def ix vals)))"

lemma rebuildIndex_ok:
  assumes tbls: "tablesFrom L (current d) (tables d)" "indexesFrom L (current d) (tables d) docs" "docs i = Some ix"
    and t: "openTx wr d t" "writes t = fmempty"
  obtains si where "rebuildIndex L t ix d = (None, d\<lparr>secIndexes := fmupd i si (secIndexes d)\<rparr>)" "siDef si = ix"
    "indexState L (current d) (tables d) i si"
proof -
  obtain def where def: "ixName ix = i" "fmlookup (tables d) (ixTable ix) = Some def" "ixOk L def ix"
    "\<forall>enc vals. stored (current d) def enc vals \<longrightarrow> nulFree L def ix vals"
    using tbls(2,3) unfolding indexesFrom_def by blast
  then have tb: "tableOk L (ixTable ix) def" "rowsOk L (current d) def" "tblName def = ixTable ix"
    using tbls(1) by (auto simp: tablesFrom_def tableOk_def)
  obtain ci where ci: "columnIndex L def (ixColumn ix) = Inr ci" and norm: "normalizeIndex L ix = ix" using def(3) by (auto simp: ixOk_def)
  obtain ks d1 where ks: "scanPrefix (rowKeyPrefix (ixTable ix)) t d = (map (\<lambda>k. (k, the (current d k))) ks, d1)" "distinct ks"
    "set ks = {k. prefix (rowKeyPrefix (ixTable ix)) k \<and> current d k \<noteq> None}"
    by (rule scan_current [OF t])
  obtain si where si: "stepAll (buildEntry L def (ixTable ix)) (map (\<lambda>k. (k, the (current d k))) ks) (newSecondaryIdx ix) = (None, si)"
    "siDef si = ix" "secOk L (current d) def si"
    by (rule buildIndex_ok [OF tb(2,1,3) _ ks(2) def(3,4)]) (use ks(3) tb(3) in \<open>simp add: liveRows_def\<close>)
  have "rebuildIndex L t ix d = (None, d\<lparr>secIndexes := fmupd i si (secIndexes d)\<rparr>)"
    using def(1,2) ci norm ks(1) si(1) by (simp add: rebuildIndex_def Let_def)
  then show thesis using that [of si] si(2,3) def by (simp add: indexState_def)
qed

lemma rebuildIndexes_ok:
  assumes tbls: "tablesFrom L m tbls" "indexesFrom L m tbls docs"
  shows "set is \<subseteq> dom docs \<Longrightarrow> openTx wr d t \<Longrightarrow> writes t = fmempty \<Longrightarrow> current d = m \<Longrightarrow> tables d = tbls \<Longrightarrow>
    \<exists>s. stepAll (rebuildIndex L t) (map (\<lambda>i. the (docs i)) is) d = (None, d\<lparr>secIndexes := s\<rparr>)
      \<and> (\<forall>i. if i \<in> set is then (\<exists>si. fmlookup s i = Some si \<and> docs i = Some (siDef si) \<and> indexState L m tbls i si)
             else fmlookup s i = fmlookup (secIndexes d) i)"
proof (induction "is" arbitrary: d)
  case Nil
  show ?case by (rule exI [of _ "secIndexes d"]) simp
next
  case (Cons i "is")
  obtain ix where ix: "docs i = Some ix" using Cons.prems(1) by auto
  obtain si where si: "rebuildIndex L t ix d = (None, d\<lparr>secIndexes := fmupd i si (secIndexes d)\<rparr>)" "siDef si = ix"
    "indexState L (current d) (tables d) i si"
    by (rule rebuildIndex_ok [where docs = docs, OF _ _ ix Cons.prems(2,3)]) (use tbls Cons.prems(4,5) in simp_all)
  let ?d = "d\<lparr>secIndexes := fmupd i si (secIndexes d)\<rparr>"
  have "openTx wr ?d t" using Cons.prems(2) by (simp add: openTx_def)
  then obtain s where s: "stepAll (rebuildIndex L t) (map (\<lambda>i. the (docs i)) is) ?d = (None, ?d\<lparr>secIndexes := s\<rparr>)"
      "\<forall>j. if j \<in> set is then (\<exists>si. fmlookup s j = Some si \<and> docs j = Some (siDef si) \<and> indexState L m tbls j si)
             else fmlookup s j = fmlookup (secIndexes ?d) j"
    using Cons.IH [of ?d] Cons.prems by auto
  have "stepAll (rebuildIndex L t) (map (\<lambda>i. the (docs i)) (i # is)) d = (None, d\<lparr>secIndexes := s\<rparr>)" using si(1) s(1) ix by simp
  moreover have "if j \<in> set (i # is) then (\<exists>si. fmlookup s j = Some si \<and> docs j = Some (siDef si) \<and> indexState L m tbls j si)
      else fmlookup s j = fmlookup (secIndexes d) j" for j
    using spec [OF s(2), of j] si(2,3) ix Cons.prems(4,5) by (auto split: if_splits)
  ultimately show ?case by blast
qed


section \<open>The whole\<close>

lemma sqlInv_from:
  assumes "sqlInv L d"
  shows "tablesFrom L (current d) (tables d)" "indexesFrom L (current d) (tables d) (indexDefOf d)"
proof -
  show "tablesFrom L (current d) (tables d)" using assms by (auto simp: sqlInv_def tablesFrom_def tableState_def)
  show "indexesFrom L (current d) (tables d) (indexDefOf d)"
    unfolding indexesFrom_def
  proof (intro allI impI)
    fix i ix
    assume "indexDefOf d i = Some ix"
    then obtain si where si: "fmlookup (secIndexes d) i = Some si" "siDef si = ix"
      by (cases "fmlookup (secIndexes d) i") (simp_all add: indexDefOf_def)
    obtain def where "fmlookup (tables d) (ixTable (siDef si)) = Some def" "ixOk L def (siDef si)" "secOk L (current d) def si" "ixName (siDef si) = i"
      by (rule sqlInv_index [OF assms si(1)])
    then show "ixName ix = i \<and> (\<exists>def. fmlookup (tables d) (ixTable ix) = Some def \<and> ixOk L def ix
        \<and> (\<forall>enc vals. stored (current d) def enc vals \<longrightarrow> nulFree L def ix vals))"
      using si(2) by (auto simp: secOk_def)
  qed
qed

text \<open>The first half, on caches that have been cleared: the tables and their trees.\<close>

lemma rebuild_tables:
  assumes inv: "sqlInv L d" and e: "openTx False e t" "writes t = fmempty" "current e = current d" "tables e = fmempty" "indexes e = fmempty"
  obtains defs e1 e2 where "listTableDefs t e = (Inr defs, e1)" "stepAll (rebuildTable L t) defs e1 = (None, e2)" "sameStore e e2"
    "tables e2 = tables d" "secIndexes e2 = secIndexes e"
    "\<And>n def. fmlookup (tables d) n = Some def \<Longrightarrow> tableState L (current d) n def (fmlookup (indexes e2) n)"
proof -
  let ?defs = "\<lambda>names. map (\<lambda>n. the (fmlookup (tables d) n)) names"
  note src = sqlInv_from(1) [OF inv]
  obtain names e1 where e1: "listTableDefs t e = (Inr (?defs names), e1)" "quiet e e1" "distinct names" "set names = dom (fmlookup (tables d))"
    by (rule listTableDefs_run [OF inv e(1)]) (use e(2,3) in simp_all)
  have o1: "openTx False e1 t" "current e1 = current d" using openTx_quiet [OF e1(2)] quiet_current [OF e1(2)] e by simp_all
  obtain e2 where e2: "stepAll (rebuildTable L t) (?defs names) e1 = (None, e2)" "sameStore e1 e2"
      "\<forall>j. fmlookup (tables e2) j = (if j \<in> set names then fmlookup (tables d) j else fmlookup (tables e1) j)"
      "\<forall>j. if j \<in> set names then (\<exists>tree. fmlookup (indexes e2) j = Some tree \<and> pkOk (current d) j tree) else fmlookup (indexes e2) j = fmlookup (indexes e1) j"
      "secIndexes e2 = secIndexes e1"
    using rebuildTables_ok [OF src _ o1(1) e(2) o1(2), of names] e1(4) by (auto simp: fmdom'_alt_def)
  have "tables e2 = tables d"
    by (rule fmap_ext) (use e2(3) e1(4) quiet_sql [OF e1(2)] e(4) in \<open>auto simp: dom_def\<close>)
  moreover have "fmlookup (tables d) n = Some def \<Longrightarrow> tableState L (current d) n def (fmlookup (indexes e2) n)" for n def
    using spec [OF e2(4), of n] e1(4) src by (auto simp: tableState_def tablesFrom_def fmlookup_dom'_iff)
  ultimately show thesis
    using that [OF e1(1) e2(1)] sameStore_trans [OF quiet_sameStore [OF e1(2)] e2(2)] e2(5) quiet_sql [OF e1(2)] by simp
qed

text \<open>The second half: the secondary indexes.\<close>

lemma rebuild_indexes:
  assumes inv: "sqlInv L d" and e: "openTx False e t" "writes t = fmempty" "current e = current d" "tables e = tables d" "secIndexes e = fmempty"
  obtains defs e1 s where "listIndexDefs t e = (Inr defs, e1)" "stepAll (rebuildIndex L t) defs e1 = (None, e1\<lparr>secIndexes := s\<rparr>)" "quiet e e1"
    "\<And>i. map_option siDef (fmlookup s i) = indexDefOf d i"
    "\<And>i si. fmlookup s i = Some si \<Longrightarrow> indexState L (current d) (tables d) i si"
proof -
  obtain "is" e1 where e1: "listIndexDefs t e = (Inr (map (\<lambda>i. the (indexDefOf d i)) is), e1)" "quiet e e1" "distinct is" "set is = dom (indexDefOf d)"
    by (rule listIndexDefs_run [OF inv e(1)]) (use e(2,3) in simp_all)
  have o1: "openTx False e1 t" "current e1 = current d" "tables e1 = tables d" "secIndexes e1 = fmempty"
    using openTx_quiet [OF e1(2)] quiet_current [OF e1(2)] quiet_sql [OF e1(2)] e by simp_all
  obtain s where s: "stepAll (rebuildIndex L t) (map (\<lambda>i. the (indexDefOf d i)) is) e1 = (None, e1\<lparr>secIndexes := s\<rparr>)"
      "\<forall>i. if i \<in> set is then (\<exists>si. fmlookup s i = Some si \<and> indexDefOf d i = Some (siDef si) \<and> indexState L (current d) (tables d) i si)
             else fmlookup s i = fmlookup (secIndexes e1) i"
    using rebuildIndexes_ok [OF sqlInv_from [OF inv] _ o1(1) e(2) o1(2,3), of "is"] e1(4) by auto
  have "map_option siDef (fmlookup s i) = indexDefOf d i" "fmlookup s i = Some si \<Longrightarrow> indexState L (current d) (tables d) i si" for i si
    using spec [OF s(2), of i] e1(4) o1(4) by (auto split: if_splits)
  then show thesis using that e1(1,2) s(1) by blast
qed

lemma rebuild_ok:
  assumes inv: "sqlInv L d" and m: "current d0 = current d"
  obtains d' where "rebuildSQLState L d0 = Inr d'" "sqlInv L d'" "sameStore d0 d'" "tables d' = tables d"
    "\<forall>i. map_option siDef (fmlookup (secIndexes d') i) = map_option siDef (fmlookup (secIndexes d) i)"
proof -
  define e where "e = d0\<lparr>tables := fmempty, indexes := fmempty, secIndexes := fmempty\<rparr>"
  define t where "t = \<lparr>txId = nextTx e, readVersion = version e, writable = False, writes = fmempty, txClosed = False\<rparr>"
  have e: "openTx False e t" "writes t = fmempty" "current e = current d" "tables e = fmempty" "indexes e = fmempty"
    "sameStore d0 e" "secIndexes e = fmempty"
    using m by (simp_all add: e_def t_def openTx_def writesKeyed_def liveDeletes_def)
  obtain defs e1 e2 where e2: "listTableDefs t e = (Inr defs, e1)" "stepAll (rebuildTable L t) defs e1 = (None, e2)" "sameStore e e2"
    "tables e2 = tables d" "secIndexes e2 = secIndexes e"
    "\<And>n def. fmlookup (tables d) n = Some def \<Longrightarrow> tableState L (current d) n def (fmlookup (indexes e2) n)"
    by (rule rebuild_tables [OF inv e(1-5)]) blast
  have o2: "openTx False e2 t" "current e2 = current d" "secIndexes e2 = fmempty"
    using sameStore_open [OF e2(3)] sameStore_current [OF e2(3)] e e2(5) by simp_all
  obtain ixs e3 s where s: "listIndexDefs t e2 = (Inr ixs, e3)" "stepAll (rebuildIndex L t) ixs e3 = (None, e3\<lparr>secIndexes := s\<rparr>)" "quiet e2 e3"
    "\<And>i. map_option siDef (fmlookup s i) = indexDefOf d i"
    "\<And>i si. fmlookup s i = Some si \<Longrightarrow> indexState L (current d) (tables d) i si"
    by (rule rebuild_indexes [OF inv o2(1) e(2) o2(2) e2(4) o2(3)]) blast
  let ?d' = "e3\<lparr>secIndexes := s\<rparr>"
  have same: "current e3 = current d" "tables e3 = tables d" "indexes e3 = indexes e2"
    using quiet_current [OF s(3)] quiet_sql [OF s(3)] o2(2) e2(4) by simp_all
  have "sqlInv L ?d'"
    using inv s(4,5) e2(6) same s(4) [unfolded indexDefOf_def] by (simp add: sqlInv_def option.map_comp [symmetric])
  moreover have "rebuildSQLState L d0 = Inr ?d'"
    using e2(1,2) s(1,2) unfolding rebuildSQLState_def Let_def e_def [symmetric] t_def [symmetric] by simp
  moreover have "sameStore d0 ?d'"
    using sameStore_trans [OF sameStore_trans [OF e(6) e2(3)] quiet_sameStore [OF s(3)]] by simp
  ultimately show thesis using that [of ?d'] same(2) s(4) by (simp add: indexDefOf_def)
qed

end
