(* ===== verification/SqlLayer.thy ===== *)
theory SqlLayer
  imports SqlRebuild Mvcc "HOL-Library.Multiset"
begin

text \<open>
  The SQL layer as a whole: the states that a database reaches by executing statements one after the
  other, with compactions in between, and what a statement does in such a state. The theorems rest on the specification of each
  statement in the theories before.
\<close>

section \<open>Statements\<close>

fun stmtOk :: "golib \<Rightarrow> sqldb \<Rightarrow> stmt \<Rightarrow> bool" where
  \<comment> \<open>what a statement has to respect: names that survive the catalog, no NUL byte in indexed values, and
    no assignment that reaches the primary key under another name\<close>
  "stmtOk L d (CreateTableStmt name cols) \<longleftrightarrow>
     tableOk L (normalizeName L name) \<lparr>tblName = normalizeName L name, tblColumns = normalizeColumns L cols\<rparr>"
| "stmtOk L d (InsertStmt tbl cols es) \<longleftrightarrow>
     (\<forall>si\<in>tableIndexes d (normalizeName L tbl). \<forall>e\<in>set es. exprFree L (siDef si) e)"
| "stmtOk L d (UpdateStmt tbl sets whr) \<longleftrightarrow>
     (\<forall>si\<in>tableIndexes d (normalizeName L tbl). \<forall>a\<in>set sets. exprFree L (siDef si) (asValue a))
     \<and> (\<forall>def c i. fmlookup (tables d) (normalizeName L tbl) = Some def \<longrightarrow> pkColumn def = Inr (c, i) \<longrightarrow>
          (\<forall>a\<in>set sets. columnIndex L def (normalizeName L (asColumn a)) \<noteq> Inr i))"
| "stmtOk L d (CreateIndexStmt stIndex tbl col path) \<longleftrightarrow>
     (let n = normalizeName L tbl;
          ix = \<lparr>ixName = normalizeName L stIndex, ixTable = n, ixColumn = normalizeName L col, ixPath = path\<rparr>
      in indexTextOk ix \<and> normalizeIndex L ix = ix
         \<and> (\<forall>def. fmlookup (tables d) n = Some def \<longrightarrow> (\<forall>enc vals. stored (current d) def enc vals \<longrightarrow> nulFree L def ix vals)))"
| "stmtOk L d st \<longleftrightarrow> True"

definition outcomeOk :: "golib \<Rightarrow> writeOutcome \<Rightarrow> sqldb \<Rightarrow> execResult \<times> sqldb \<Rightarrow> bool" where
  \<comment> \<open>the invariant holds afterwards, and an error has changed nothing\<close>
  "outcomeOk L out d r \<longleftrightarrow>
     sqlNext L out d (snd r) \<and> (snd (fst r) \<noteq> None \<longrightarrow> current (snd r) = current d \<and> tables (snd r) = tables d)"

lemma outcome_same: "sqlOk L d \<Longrightarrow> outcomeOk L out d (r, d)"
  by (simp add: outcomeOk_def sqlNext_refl)

lemma insert_outcome:
  assumes ok: "sqlOk L d" "roomFor 2 d" "libFinite L" and st: "stmtOk L d (InsertStmt tbl cols es)"
  shows "outcomeOk L out d (execInsert L out tbl cols es d)"
proof (cases "fmlookup (tables d) (normalizeName L tbl)")
  case None
  then show ?thesis using outcome_same [OF ok(1)] by (simp add: execInsert_def tableDef_def)
next
  case (Some def)
  show ?thesis
  proof (cases "insertRow L def (normalizeName L tbl) cols es")
    case (Inl e)
    then show ?thesis using outcome_same [OF ok(1)] Some by (simp add: execInsert_def tableDef_def)
  next
    case (Inr r)
    obtain vals pk rk page where r: "r = (vals, pk, rk, page)" by (cases r)
    have free: "\<forall>si\<in>tableIndexes d (normalizeName L tbl). \<forall>e\<in>set es. exprFree L (siDef si) e" using st by simp
    show ?thesis
      by (rule execInsert_spec [OF ok refl Some Inr [unfolded r] free, of out]) (auto simp: outcomeOk_def split: if_splits)
  qed
qed

lemma update_outcome:
  assumes ok: "sqlOk L d" "roomFor 2 d" "libFinite L" and st: "stmtOk L d (UpdateStmt tbl sets whr)"
  shows "outcomeOk L out d (execUpdate L out tbl sets whr d)"
proof (cases "fmlookup (tables d) (normalizeName L tbl)")
  case None
  then show ?thesis using outcome_same [OF ok(1)] by (simp add: execUpdate_def tableDef_def)
next
  case (Some def)
  have "sqlInv L d" using ok(1) by (simp add: sqlOk_def)
  then obtain c i where pk: "pkColumn def = Inr (c, i)" using Some by (auto elim!: sqlInv_table simp: tableOk_def)
  then have "\<forall>a\<in>set sets. columnIndex L def (normalizeName L (asColumn a)) \<noteq> Inr i" using st Some by simp
  then show ?thesis
    by (rule execUpdate_spec [OF ok refl Some pk, where sets = sets and out = out and whr = whr]) (use st in \<open>auto simp: outcomeOk_def\<close>)
qed

lemma delete_outcome:
  assumes ok: "sqlOk L d" "roomFor 2 d"
  shows "outcomeOk L out d (execDelete L out tbl whr d)"
proof (cases "fmlookup (tables d) (normalizeName L tbl)")
  case None
  then show ?thesis using outcome_same [OF ok(1)] by (simp add: execDelete_def tableDef_def)
next
  case (Some def)
  show ?thesis by (rule execDelete_spec [OF ok refl Some, of out whr]) (auto simp: outcomeOk_def)
qed

lemma create_outcome:
  assumes ok: "sqlOk L d" "roomFor 2 d" and st: "stmtOk L d (CreateTableStmt name cols)"
  shows "outcomeOk L out d (execCreate L out name cols d)"
  by (rule execCreate_spec [OF ok refl refl, of name cols out]) (use st in \<open>auto simp: outcomeOk_def\<close>)

lemma drop_outcome:
  assumes ok: "sqlOk L d" "roomFor 2 d"
  shows "outcomeOk L out d (execDrop L out name d)"
  by (rule execDrop_spec [OF ok refl, where out = out and stName = name]) (auto simp: outcomeOk_def)

lemma createIndex_outcome:
  assumes ok: "sqlOk L d" "roomFor 2 d" and st: "stmtOk L d (CreateIndexStmt ix tbl col path)"
  shows "outcomeOk L out d (execCreateIndex L out ix tbl col path d)"
  by (rule execCreateIndex_spec [OF ok refl refl refl, of ix tbl col path out]) (use st in \<open>auto simp: outcomeOk_def Let_def\<close>)

lemma dropIndex_outcome:
  assumes ok: "sqlOk L d" "roomFor 2 d"
  shows "outcomeOk L out d (execDropIndex L out ix d)"
  by (rule execDropIndex_spec [OF ok refl, where out = out and stIndex = ix]) (auto simp: outcomeOk_def)

lemma execStmt_outcome:
  assumes "sqlOk L d" "roomFor 2 d" "libFinite L" "stmtOk L d st"
  shows "outcomeOk L out d (execStmt L out st d)"
  using insert_outcome [OF assms(1-3)] update_outcome [OF assms(1-3)] delete_outcome [OF assms(1,2)] create_outcome [OF assms(1,2)]
    drop_outcome [OF assms(1,2)] createIndex_outcome [OF assms(1,2)] dropIndex_outcome [OF assms(1,2)] outcome_same [OF assms(1)] assms(4)
  by (cases st) (simp_all add: execStmt_def del: stmtOk.simps)


section \<open>SELECT\<close>

lemma execSelect_spec:
  assumes ok: "sqlOk L d" and tbl: "normalizeName L stTable = n" "fmlookup (tables d) n = Some def"
    and projs: "selectProjs L def cols = Inr projs" and w: "list_all (predOk L def) whr"
  obtains ks d' where "quiet d d'" "distinct ks" "set ks = {k \<in> liveRows (current d) def. hit L (current d) def whr k}"
    "execSelect L stTable cols whr d =
      (ebind (projectRows L projs (map (rowAt (current d) def) ks)) (\<lambda>rs.
         Inr \<lparr>rwColumns = map projName projs, rwData = rs, rwI = -1, rwClosed = False\<rparr>), d')"
proof -
  have inv: "sqlInv L d" "\<not> dbClosed d" using ok by (simp_all add: sqlOk_def seqOk_def)
  have q: "quiet d (begun d)" by (rule begun_quiet)
  have tb: "fmlookup (tables (begun d)) n = Some def" using tbl(2) quiet_sql [OF q] by simp
  obtain ks d2 where ks: "collectRows L def whr (freshTx False d) (begun d) = (Inr (map (rowAt (current (begun d)) def) ks), d2)" "quiet (begun d) d2"
    "distinct ks" "set ks = {k \<in> liveRows (current (begun d)) def. hit L (current (begun d)) def whr k}"
    by (rule collectRows_spec [OF sqlInv_quiet [OF q inv(1)] tb fresh_open freshTx_open(2) w])
  note cur = quiet_current [OF q]
  let ?r = "projectRows L projs (map (rowAt (current d) def) ks)"
  have run: "selectTx L def projs whr (freshTx False d) (begun d) =
      (case ?r of Inl e \<Rightarrow> (Some e, [], freshTx False d, d2) | Inr rs \<Rightarrow> (None, rs, freshTx False d, d2))"
    using ks(1) cur by (simp add: selectTx_def split: sum.split)
  have q2: "quiet d d2" using quiet_trans [OF q ks(2)] .
  show thesis
  proof (cases ?r)
    case (Inl e)
    have r: "selectTx L def projs whr (freshTx False d) (begun d) = (Some e, [], freshTx False d, d2)" using run Inl by simp
    obtain d' where "dbView [] (selectTx L def projs whr) d = (Some e, [], d')" "quiet d d'"
      by (rule dbView_seq [where fn = "selectTx L def projs whr", OF inv(2) r q2])
    then show thesis using that [of d' ks] ks(3,4) cur Inl tbl projs by (simp add: execSelect_def tableDef_def)
  next
    case (Inr rs)
    have r: "selectTx L def projs whr (freshTx False d) (begun d) = (None, rs, freshTx False d, d2)" using run Inr by simp
    obtain d' where "dbView [] (selectTx L def projs whr) d = (None, rs, d')" "quiet d d'"
      by (rule dbView_seq [where fn = "selectTx L def projs whr", OF inv(2) r q2])
    then show thesis using that [of d' ks] ks(3,4) cur Inr tbl projs by (simp add: execSelect_def tableDef_def)
  qed
qed

lemma eseq_Inr: "eseq (map (\<lambda>x. Inr (f x)) xs) = Inr (map f xs)"
  by (induction xs) simp_all

lemma project_star:
  assumes "length vals = length (tblColumns def)"
  shows "eseq (map (projectValue L vals) (starProjs def)) = Inr vals"
proof -
  have "map (projectValue L vals) (starProjs def) = map (\<lambda>i. Inr (vals ! i)) [0..<length vals]"
    using assms by (simp add: starProjs_def projectValue_def nthRes_def)
  then show ?thesis by (simp add: eseq_Inr map_nth)
qed

lemma project_rows_star:
  assumes "\<forall>item\<in>set items. length (riValues item) = length (tblColumns def)"
  shows "projectRows L (starProjs def) items = Inr (map riValues items)"
  using assms by (induction items) (simp_all add: projectRows_def project_star)

lemma rowAt_length:
  assumes "sqlInv L d" "fmlookup (tables d) n = Some def" "k \<in> liveRows (current d) def"
  shows "length (riValues (rowAt (current d) def k)) = length (tblColumns def)"
proof -
  have tb: "tableOk L n def" "rowsOk L (current d) def" using assms(1,2) by (auto elim: sqlInv_table)
  obtain vals enc pk where "rowOk L def enc vals" "rowAt (current d) def k = \<lparr>riPk = pk, riKey = k, riValues = vals\<rparr>"
    by (rule liveRows_cases [OF assms(3) tb(2,1)])
  then show ?thesis using rowOk_lengths by simp
qed


section \<open>Compaction between statements\<close>

definition keepsLog :: "compactOutcome \<Rightarrow> bool" where
  \<comment> \<open>the outcomes of a compaction after which there is a log to write to\<close>
  "keepsLog out \<longleftrightarrow> out = CompactOk \<or> out = TmpFails \<or> out = RenameFails True"

lemma settled_prune:
  assumes "settled d" "\<And>k. versionsOf k d' = pruneVersions (versionsOf k d) r" "version d' = version d" "active d' = active d"
  shows "settled d'"
proof -
  have srt: "sorted_wrt (<) (map vvVersion (pruneVersions (versionsOf k d) r))" for k
  proof -
    have "sorted_wrt (<) (map vvVersion (versionsOf k d))" using assms(1) by (simp add: settled_def)
    then show ?thesis by (cases rule: pruneVersions_cases [of "versionsOf k d" r]) (auto simp: sorted_wrt_append)
  qed
  have "\<forall>x\<in>set (pruneVersions (versionsOf k d) r). vvVersion x \<le> version d" for k
    using assms(1) pruneVersions_subset unfolding settled_def by blast
  then show ?thesis using assms srt by (simp add: settled_def)
qed

lemma pruneHistory_same [simp]:
  "version (pruneHistory r d) = version d" "active (pruneHistory r d) = active d" "dbClosed (pruneHistory r d) = dbClosed d"
  "fileOpen (pruneHistory r d) = fileOpen d" "dbFile (pruneHistory r d) = dbFile d" "db.more (pruneHistory r d) = db.more d"
  by (simp_all add: pruneHistory_def Let_def)

lemma compact_keeps:
  assumes "settled d" "seqOk d" "keepsLog out" "compact out d = (e, d')"
  shows "settled d'" "seqOk d'" "current d' = current d" "version d' = version d" "db.more d' = db.more d"
    "dbFile d' = (if out = CompactOk then compactedFile (oldestReadVersion d) (pruneHistory (oldestReadVersion d) d) else dbFile d)"
proof -
  let ?r = "oldestReadVersion d"
  have le: "?r \<le> version d" using assms(1) by (intro oldestReadVersion_current) (simp add: settled_def)
  have op: "\<not> dbClosed d" "fileOpen d" using assms(2) by (simp_all add: seqOk_def)
  have vs: "versionsOf k d' = pruneVersions (versionsOf k d) ?r" for k
    using assms(3,4) op by (auto simp: keepsLog_def compact_def Let_def)
  have f: "version d' = version d" "active d' = active d" "\<not> dbClosed d'" "fileOpen d'" "db.more d' = db.more d"
    using assms(3,4) op by (auto simp: keepsLog_def compact_def Let_def)
  show "settled d'" by (rule settled_prune [OF assms(1) vs f(1,2)])
  then show "seqOk d'" using assms(2) f by (simp add: seqOk_def settled_def)
  show "current d' = current d" using readAt_prune [OF le] by (simp add: fun_eq_iff current_def vs f(1))
  show "version d' = version d" "db.more d' = db.more d" by (rule f)+
  show "dbFile d' = (if out = CompactOk then compactedFile ?r (pruneHistory ?r d) else dbFile d)"
    using assms(3,4) op by (auto simp: keepsLog_def compact_def Let_def)
qed

lemma compact_sqlOk:
  assumes "settled d" "sqlOk L d" "keepsLog out" "compact out d = (e, d')"
  shows "sqlOk L d'"
proof -
  have "seqOk d" using assms(2) by (simp add: sqlOk_def)
  note c = compact_keeps [OF assms(1) this assms(3,4)]
  show ?thesis using assms(2) c(2,3) sqldb_more [OF c(5)] by (simp add: sqlOk_def sqlInv_def)
qed


section \<open>Reachable databases\<close>

definition noCaches :: "db \<Rightarrow> sqldb" where
  "noCaches d = db.extend d \<lparr>tables = fmempty, indexes = fmempty, secIndexes = fmempty\<rparr>"

lemma noCaches_store: "current (noCaches d) = current d" "version (noCaches d) = version d" "versionsOf k (noCaches d) = versionsOf k d"
  "fileOpen (noCaches d) = fileOpen d" "dbClosed (noCaches d) = dbClosed d" "active (noCaches d) = active d"
  by (cases d; simp add: noCaches_def db.extend_def fun_eq_iff current_def versionsOf_def)+

inductive sqlReach :: "golib \<Rightarrow> nat \<Rightarrow> sqldb \<Rightarrow> bool" for L where
  sql_open: "OpenWithOptions L [] = Inr d \<Longrightarrow> sqlReach L 0 d"
| sql_exec: "sqlReach L n d \<Longrightarrow> stmtOk L d st \<Longrightarrow> execStmt L out st d = (r, d') \<Longrightarrow> sqlReach L (Suc n) d'"
| sql_query: "sqlReach L n d \<Longrightarrow> execSelect L tbl cols whr d = (r, d') \<Longrightarrow> sqlReach L n d'"
| sql_compact: "sqlReach L n d \<Longrightarrow> keepsLog out \<Longrightarrow> compact out d = (e, d') \<Longrightarrow> sqlReach L n d'"

inductive_cases sqlReachE: "sqlReach L n d"

lemma execSelect_quiet:
  assumes "sqlOk L d" "execSelect L tbl cols whr d = (r, d')"
  shows "quiet d d'"
proof (cases "ebind (tableDef (normalizeName L tbl) d) (\<lambda>def. ebind (selectProjs L def cols) (\<lambda>projs. Inr (def, projs)))")
  case (Inl e)
  then show ?thesis using assms(2) by (simp add: execSelect_def)
next
  case (Inr p)
  obtain def projs where p: "p = (def, projs)" by (cases p)
  have tb: "fmlookup (tables d) (normalizeName L tbl) = Some def"
    using Inr p by (auto simp: tableDef_def ebind_eq_Inr split: option.splits)
  have inv: "sqlInv L d" "\<not> dbClosed d" using assms(1) by (simp_all add: sqlOk_def seqOk_def)
  obtain c d2 where c: "collectRows L def whr (freshTx False d) (begun d) = (c, d2)" "quiet d d2"
    by (rule fresh_collect [OF inv(1) tb])
  obtain e x t2 where r: "selectTx L def projs whr (freshTx False d) (begun d) = (e, x, t2, d2)"
    using c(1) by (cases c; cases "projectRows L projs (projr c)") (auto simp: selectTx_def)
  obtain d1 where "dbView [] (selectTx L def projs whr) d = (e, x, d1)" "quiet d d1"
    by (rule dbView_seq [where fn = "selectTx L def projs whr", OF inv(2) r c(2)])
  then show ?thesis using assms(2) Inr p by (simp add: execSelect_def split: option.splits)
qed

lemma empty_store:
  defines "e \<equiv> noCaches (emptyDb writeWALHeader)"
  shows "current e = Map.empty" "version e = 0" "seqOk e" "settled e" "sqlInv L e"
    "OpenWithOptions L [] = rebuildSQLState L e"
proof -
  show m: "current e = Map.empty" "version e = 0" "seqOk e" "settled e"
    unfolding e_def by (simp_all add: noCaches_store fun_eq_iff current_def seqOk_def settled_def)
      (simp_all add: versionsOf_def emptyDb_def noCaches_def db.extend_def)
  show "sqlInv L e" using m(1) by (simp add: sqlInv_def) (simp add: e_def noCaches_def db.extend_def)
  show "OpenWithOptions L [] = rebuildSQLState L e" by (simp add: e_def OpenWithOptions_def openStore_new noCaches_def)
qed

lemma open_exists: "\<exists>d. OpenWithOptions L [] = Inr d"
  using rebuild_ok [OF empty_store(5) refl] empty_store(6) by metis

lemma open_empty:
  assumes "OpenWithOptions L [] = Inr d"
  shows "sqlOk L d" "version d = 0" "current d = Map.empty" "tables d = fmempty" "secIndexes d = fmempty" "settled d"
proof -
  let ?e = "noCaches (emptyDb writeWALHeader)"
  note e = empty_store(1-4)
  obtain d' where d': "rebuildSQLState L ?e = Inr d'" "sqlInv L d'" "sameStore ?e d'" "tables d' = tables ?e"
    "\<forall>i. map_option siDef (fmlookup (secIndexes d') i) = map_option siDef (fmlookup (secIndexes ?e) i)"
    by (rule rebuild_ok [OF empty_store(5) refl])
  have "d' = d" using assms d'(1) by (simp add: empty_store(6))
  then show "sqlOk L d" "version d = 0" "current d = Map.empty"
    using d' e sameStore_current [OF d'(3)] sameStore_seqOk [OF d'(3)] by (simp_all add: sqlOk_def sameStore_def)
  show "settled d" using settled_cong [of d' ?e] e(4) d'(3) \<open>d' = d\<close> by (simp add: sameStore_def)
  show "tables d = fmempty" using d'(4) \<open>d' = d\<close> by (simp add: noCaches_def db.extend_def)
  show "secIndexes d = fmempty"
    by (rule fmap_ext) (use d'(5) \<open>d' = d\<close> in \<open>simp add: noCaches_def db.extend_def\<close>)
qed

lemma sqlReach_ok:
  assumes "libFinite L"
  shows "sqlReach L n d \<Longrightarrow> n + 2 < 2 ^ 64 \<Longrightarrow> sqlOk L d \<and> unat (version d) \<le> n \<and> settled d"
proof (induction rule: sqlReach.induct)
  case (sql_open d)
  then show ?case using open_empty by simp
next
  case (sql_exec n d st out r d')
  then have ok: "sqlOk L d" "unat (version d) \<le> n" "settled d" by simp_all
  then have "roomFor 2 d" using sql_exec.prems by (simp add: roomFor_def)
  then have "outcomeOk L out d (execStmt L out st d)" using execStmt_outcome ok(1) assms sql_exec.hyps(2) by blast
  then show ?case using sql_exec.hyps(3) ok(2,3) by (simp add: outcomeOk_def sqlNext_def seqNext_def sqlOk_def)
next
  case (sql_query n d tbl cols whr r d')
  then have ok: "sqlOk L d" "unat (version d) \<le> n" "settled d" by simp_all
  have q: "quiet d d'" by (rule execSelect_quiet [OF ok(1) sql_query.hyps(2)])
  have "version d' = version d" using q by (simp add: quiet_def)
  then show ?case using ok sqlOk_quiet [OF q] settled_quiet [OF q] by simp
next
  case (sql_compact n d out e d')
  then have ok: "sqlOk L d" "unat (version d) \<le> n" "settled d" by simp_all
  then have "seqOk d" by (simp add: sqlOk_def)
  note c = compact_keeps [OF ok(3) this sql_compact.hyps(2,3)]
  show ?case using compact_sqlOk [OF ok(3,1) sql_compact.hyps(2,3)] ok(2) c(1,4) by simp
qed

end
