(* ===== verification/SqlDurable.thy ===== *)
theory SqlDurable
  imports SqlLayer Recovery
begin

text \<open>
  Durability of the SQL layer. The log of a database on which statements were executed, and which may
  have been compacted or opened again in between, consists of records that rebuild the content of the
  store; opening the file therefore gives the same tables, indexes and rows back. This needs what the log
  needs: keys that are valid UTF-8 and records that do not exceed the limit of replay.
\<close>

definition textKeys :: "(string \<rightharpoonup> bytes) \<Rightarrow> bool" where
  "textKeys m \<longleftrightarrow> (\<forall>k. m k \<noteq> None \<longrightarrow> valid_utf8 k)"

definition rebuilds :: "wrec list \<Rightarrow> ('z) db_scheme \<Rightarrow> bool" where
  \<comment> \<open>the log is the frames of these records, and they rebuild the content of the store\<close>
  "rebuilds rs d \<longleftrightarrow>
     dbFile d = writeWALHeader @ frames rs \<and> list_all recordOk rs
     \<and> settled (rebuild rs) \<and> version (rebuild rs) \<le> version d \<and> current (rebuild rs) = current d"

definition logFits :: "('z) db_scheme \<Rightarrow> ('z) db_scheme \<Rightarrow> bool" where
  \<comment> \<open>the keys are valid UTF-8, and the log has not grown by more than the largest record\<close>
  "logFits d d' \<longleftrightarrow> textKeys (current d') \<and> length (dbFile d') \<le> length (dbFile d) + 8 + unat maxRecordSize"

lemma rebuild_open: "fileOpen (rebuild rs)" "\<not> dbClosed (rebuild rs)" "active (rebuild rs) = fmempty"
proof -
  have "fileOpen (foldl dbApply d rs) = fileOpen d \<and> dbClosed (foldl dbApply d rs) = dbClosed d \<and> active (foldl dbApply d rs) = active d" for d :: db
    by (induction rs arbitrary: d) simp_all
  then show "fileOpen (rebuild rs)" "\<not> dbClosed (rebuild rs)" "active (rebuild rs) = fmempty"
    by (simp_all add: rebuild_def) (simp_all add: emptyDb_def)
qed

lemma record_fits:
  assumes t: "writesKeyed t" "liveDeletes (current d) (writes t)" and keys: "textKeys (current d)" "textKeys (content (current d) (writes t))"
    and len: "length (encodeRecord (commitRecord t d)) \<le> 8 + unat maxRecordSize"
  shows "recordOk (commitRecord t d)"
proof -
  have "valid_utf8 (opKey (the (fmlookup (writes t) k)))" if k: "k \<in> set (fmkeys (writes t))" for k
  proof -
    obtain op where op: "fmlookup (writes t) k = Some op" using k by (cases "fmlookup (writes t) k") (auto simp: fmdom_lookup)
    then have "current d k \<noteq> None \<or> content (current d) (writes t) k \<noteq> None"
      using t(2) by (cases "opDelete op") (auto simp: liveDeletes_def content_def)
    then show ?thesis using op t(1) keys by (auto simp: textKeys_def writesKeyed_def)
  qed
  then show ?thesis using len by (auto simp: recordOk_def recKeysOk_def commitRecord_def list_all_iff length_encodeRecord)
qed

lemma rebuilds_apply:
  assumes rs: "rebuilds rs d" and seq: "seqOk d" and t: "writesKeyed t" "recordOk (commitRecord t d)"
    and d': "dbFile d' = dbFile d @ encodeRecord (commitRecord t d)" "current d' = content (current d) (writes t)" "version d' = version d + 1"
  shows "rebuilds (rs @ [commitRecord t d]) d'"
proof -
  let ?r = "commitRecord t d"
  have le: "version (rebuild rs) \<le> version d" and cur: "current (rebuild rs) = current d" using rs by (simp_all add: rebuilds_def)
  have less: "version d < version d + 1" using seq next_version(2) [of "version d" 0] by (simp add: seqOk_def)
  have reb: "rebuild (rs @ [?r]) = dbApply (rebuild rs) ?r" by (simp add: rebuild_def)
  have ver: "version (rebuild (rs @ [?r])) = version d + 1"
    unfolding reb using le_less_trans [OF le less] by (simp add: commitRecord_def max_def less_imp_le)
  have "current (rebuild (rs @ [?r])) k = content (current d) (writes t) k" for k
  proof (cases "fmlookup (writes t) k")
    case None
    have "readAt (version d + 1) (versionsOf k (rebuild rs)) = current (rebuild rs) k"
      unfolding current_def using rebuild_bound le less by (intro readAt_later) auto
    then show ?thesis
      unfolding current_def [of "rebuild (rs @ [?r])"] ver unfolding reb commit_versions [OF t(1)]
      using None cur by (simp add: newVersions_def content_def)
  next
    case (Some op)
    then show ?thesis
      unfolding current_def [of "rebuild (rs @ [?r])"] ver unfolding reb commit_versions [OF t(1)]
      by (simp add: newVersions_def content_def)
  qed
  moreover have "settled (rebuild (rs @ [?r]))"
    by (rule settled_commit [OF _ t(1) le less]) (use rs reb ver in \<open>simp_all add: rebuilds_def\<close>)
  ultimately show ?thesis using rs d' t(2) ver by (auto simp: rebuilds_def fun_eq_iff)
qed

lemma rebuilds_logged:
  assumes "rebuilds rs d" "seqOk d" "textKeys (current d)" "logged d d'" "logFits d d'"
  shows "\<exists>rs'. rebuilds rs' d'"
  using assms(4) unfolding logged_def
proof (elim disjE exE conjE)
  assume "dbFile d' = dbFile d" "current d' = current d" "version d' = version d"
  then show ?thesis using assms(1) by (auto simp: rebuilds_def)
next
  fix t
  assume t: "writesKeyed t" "liveDeletes (current d) (writes t)" "dbFile d' = dbFile d @ encodeRecord (commitRecord t d)"
    "current d' = content (current d) (writes t)" "version d' = version d + 1"
  have "recordOk (commitRecord t d)" by (rule record_fits [OF t(1,2) assms(3)]) (use assms(5) t(3,4) in \<open>simp_all add: logFits_def\<close>)
  then show ?thesis using rebuilds_apply [OF assms(1,2) t(1) _ t(3-5)] by blast
qed

text \<open>The log that a compaction writes rebuilds the pruned store, as \<open>Recovery\<close> shows for the store alone.\<close>

lemma compactRecords_truncate: "compactRecords r (db.truncate d) = compactRecords r d"
proof -
  have vs: "versionsOf k (db.truncate d) = versionsOf k d" for k by (cases d) (simp add: versionsOf_def db.truncate_def)
  have "history (db.truncate d) = history d" "version (db.truncate d) = version d" by (cases d; simp add: db.truncate_def)+
  then show ?thesis by (simp add: compactRecords_def snapshotOps_def byVersion_def vs)
qed

lemma storeOk_truncate: "settled d \<Longrightarrow> storeOk (db.truncate d)"
  by (cases d) (simp add: settled_def storeOk_def db.truncate_def versionsOf_def)

lemma rebuilds_compact:
  assumes "\<exists>rs. rebuilds rs d" "settled d" "seqOk d" "keepsLog out"
    and fits: "list_all recordOk (compactRecords (oldestReadVersion d) (pruneHistory (oldestReadVersion d) d))"
    and run: "compact out d = (e, d')"
  shows "\<exists>rs. rebuilds rs d'"
proof -
  let ?r = "oldestReadVersion d" let ?p = "pruneHistory ?r d"
  note c = compact_keeps [OF assms(2-4) run]
  show ?thesis
  proof (cases "out = CompactOk")
    case True
    have p: "settled ?p" by (rule settled_prune [OF assms(2)]) simp_all
    have "?r \<le> version d" using assms(2) by (intro oldestReadVersion_current) (simp add: settled_def)
    then have cur: "current ?p = current d" using readAt_prune by (simp add: fun_eq_iff current_def)
    have "version (db.truncate ?p) = version ?p" "current (db.truncate ?p) = current ?p"
      by (cases ?p; simp add: db.truncate_def current_def versionsOf_def fun_eq_iff)+
    then have "version (rebuild (compactRecords ?r ?p)) \<le> version d" "current (rebuild (compactRecords ?r ?p)) = current d"
      using represents_compact [OF storeOk_truncate [OF p], of ?r] cur by (simp_all add: represents_def compactRecords_truncate fun_eq_iff)
    moreover have "settled (rebuild (compactRecords ?r ?p))"
      using rebuild_compact_sorted [OF storeOk_truncate [OF p], of _ ?r] rebuild_bound rebuild_open(3)
      by (simp add: settled_def compactRecords_truncate)
    ultimately show ?thesis using True fits c by (auto simp: rebuilds_def compactedFile_def)
  next
    case False
    then show ?thesis using assms(1) c by (auto simp: rebuilds_def)
  qed
qed

lemma quiet_version: "quiet d d' \<Longrightarrow> version d' = version d"
  by (simp add: quiet_def)

lemma rebuilds_quiet: "quiet d d' \<Longrightarrow> rebuilds rs d \<Longrightarrow> rebuilds rs d'"
  using quiet_current [of d d'] by (simp add: rebuilds_def quiet_def)


section \<open>Databases with a log in step\<close>

inductive loggedReach :: "golib \<Rightarrow> nat \<Rightarrow> sqldb \<Rightarrow> bool" for L where
  logged_new: "OpenWithOptions L [] = Inr d \<Longrightarrow> loggedReach L 0 d"
| logged_exec: "loggedReach L n d \<Longrightarrow> stmtOk L d st \<Longrightarrow> execStmt L WriteOk st d = (r, d') \<Longrightarrow> logFits d d' \<Longrightarrow> loggedReach L (Suc n) d'"
| logged_query: "loggedReach L n d \<Longrightarrow> execSelect L tbl cols whr d = (r, d') \<Longrightarrow> loggedReach L n d'"
| logged_compact: "loggedReach L n d \<Longrightarrow> keepsLog out \<Longrightarrow>
     list_all recordOk (compactRecords (oldestReadVersion d) (pruneHistory (oldestReadVersion d) d)) \<Longrightarrow>
     compact out d = (e, d') \<Longrightarrow> loggedReach L n d'"
| logged_reopen: "loggedReach L n d \<Longrightarrow> OpenWithOptions L (dbFile d) = Inr d' \<Longrightarrow> loggedReach L n d'"

definition durableSql :: "golib \<Rightarrow> nat \<Rightarrow> sqldb \<Rightarrow> bool" where
  "durableSql L n d \<longleftrightarrow> sqlOk L d \<and> unat (version d) \<le> n \<and> settled d \<and> textKeys (current d) \<and> (\<exists>rs. rebuilds rs d)"

lemma open_file: "OpenWithOptions L [] = Inr d \<Longrightarrow> dbFile d = writeWALHeader"
proof -
  assume "OpenWithOptions L [] = Inr d"
  moreover obtain d' where "rebuildSQLState L (noCaches (emptyDb writeWALHeader)) = Inr d'" "sameStore (noCaches (emptyDb writeWALHeader)) d'"
    by (rule rebuild_ok [OF empty_store(5) refl])
  ultimately show ?thesis by (simp add: empty_store(6) sameStore_def) (simp add: noCaches_def db.extend_def emptyDb_def)
qed

lemma reopen_ok:
  assumes "durableSql L n d" "n + 2 < 2 ^ 64"
  obtains d' where "OpenWithOptions L (dbFile d) = Inr d'" "durableSql L n d'" "current d' = current d" "tables d' = tables d"
    "\<forall>i. map_option siDef (fmlookup (secIndexes d') i) = map_option siDef (fmlookup (secIndexes d) i)"
proof -
  obtain rs where rs: "rebuilds rs d" and ok: "sqlInv L d" "unat (version d) \<le> n" "textKeys (current d)"
    using assms by (auto simp: durableSql_def sqlOk_def)
  let ?e = "(rebuild rs)\<lparr>dbFile := dbFile d\<rparr>"
  have f: "openStore (dbFile d) = Inr ?e" using openStore_frames [of rs] rs by (simp add: rebuilds_def)
  have e: "current (noCaches ?e) = current d" "version (noCaches ?e) = version (rebuild rs)" "dbFile (noCaches ?e) = dbFile d"
    using rs by (simp_all add: noCaches_store rebuilds_def) (simp_all add: current_def fun_eq_iff noCaches_def db.extend_def)
  obtain d' where d': "rebuildSQLState L (noCaches ?e) = Inr d'" "sqlInv L d'" "sameStore (noCaches ?e) d'" "tables d' = tables d"
    "\<forall>i. map_option siDef (fmlookup (secIndexes d') i) = map_option siDef (fmlookup (secIndexes d) i)"
    by (rule rebuild_ok [OF ok(1) e(1)])
  have le: "version (rebuild rs) \<le> version d" using rs by (simp add: rebuilds_def)
  have "seqOk (noCaches ?e)"
    using rebuild_bound le ok(2) assms(2) rebuild_open [of rs] by (simp add: seqOk_def noCaches_store word_le_nat_alt)
  then have "sqlOk L d'" using d'(2) sameStore_seqOk [OF d'(3)] by (simp add: sqlOk_def)
  moreover have "settled d'"
  proof (rule settled_cong)
    show "settled (noCaches ?e)" using rs rebuild_open(3) [of rs] by (simp add: settled_def noCaches_store rebuilds_def)
  qed (use d'(3) in \<open>simp_all add: sameStore_def\<close>)
  moreover have "unat (version d') \<le> n" using d'(3) e(2) le ok(2) by (simp add: sameStore_def word_le_nat_alt)
  moreover have cur: "current d' = current d" using sameStore_current [OF d'(3)] e(1) by simp
  moreover have "rebuilds rs d'" using rs d'(3) e cur by (simp add: rebuilds_def sameStore_def)
  ultimately have "durableSql L n d'" using ok(3) by (auto simp: durableSql_def)
  then show thesis using that [of d'] d' cur f by (simp add: OpenWithOptions_def noCaches_def)
qed

lemma loggedReach_ok:
  assumes "libFinite L"
  shows "loggedReach L n d \<Longrightarrow> n + 2 < 2 ^ 64 \<Longrightarrow> durableSql L n d"
proof (induction rule: loggedReach.induct)
  case (logged_new d)
  note o = open_empty [OF logged_new.hyps]
  have "dbFile d = writeWALHeader" by (rule open_file [OF logged_new.hyps])
  moreover have "current (rebuild []) = Map.empty" by (simp add: rebuild_def current_def fun_eq_iff)
  moreover have "settled (rebuild [])" using rebuild_open(3) [of "[]"] by (simp add: settled_def) (simp add: rebuild_def)
  ultimately have "rebuilds [] d" using o(3) by (simp add: rebuilds_def) (simp add: rebuild_def)
  then show ?case using o by (auto simp: durableSql_def textKeys_def)
next
  case (logged_exec n d st r d')
  then have ok: "sqlOk L d" "unat (version d) \<le> n" "textKeys (current d)" "settled d" and ex: "\<exists>rs. rebuilds rs d" by (simp_all add: durableSql_def)
  then have "roomFor 2 d" using logged_exec.prems by (simp add: roomFor_def)
  then have "outcomeOk L WriteOk d (execStmt L WriteOk st d)" using execStmt_outcome ok(1) assms logged_exec.hyps(2) by blast
  then have n: "sqlOk L d'" "unat (version d') \<le> unat (version d) + 1" "logged d d'" "settled d'"
    using logged_exec.hyps(3) ok(4) by (simp_all add: outcomeOk_def sqlNext_def seqNext_def sqlOk_def)
  have "seqOk d" using ok(1) by (simp add: sqlOk_def)
  then have "\<exists>rs. rebuilds rs d'" using ex rebuilds_logged [OF _ _ ok(3) n(3) logged_exec.hyps(4)] by blast
  then show ?case using n ok(2) logged_exec.hyps(4) by (simp add: durableSql_def logFits_def)
next
  case (logged_query n d tbl cols whr r d')
  then have ok: "durableSql L n d" by simp
  then have q: "quiet d d'" using execSelect_quiet [OF _ logged_query.hyps(2)] by (simp add: durableSql_def)
  then show ?case
    using ok sqlOk_quiet [OF q] settled_quiet [OF q] rebuilds_quiet [OF q] quiet_current [OF q] quiet_version [OF q] by (auto simp: durableSql_def)
next
  case (logged_compact n d out e d')
  then have ok: "sqlOk L d" "seqOk d" "unat (version d) \<le> n" "settled d" "textKeys (current d)" and ex: "\<exists>rs. rebuilds rs d"
    by (simp_all add: durableSql_def sqlOk_def)
  note c = compact_keeps [OF ok(4,2) logged_compact.hyps(2,4)]
  have "\<exists>rs. rebuilds rs d'" by (rule rebuilds_compact [OF ex ok(4,2) logged_compact.hyps(2-4)])
  then show ?case
    using compact_sqlOk [OF ok(4,1) logged_compact.hyps(2,4)] c ok(3,5) by (simp add: durableSql_def)
next
  case (logged_reopen n d d')
  then have "durableSql L n d" "n + 2 < 2 ^ 64" by simp_all
  then obtain d1 where "OpenWithOptions L (dbFile d) = Inr d1" "durableSql L n d1" by (rule reopen_ok)
  then show ?case using logged_reopen.hyps(2) by simp
qed

end
