(* ===== verification/SqlTheorems.thy ===== *)
theory SqlTheorems
  imports SqlDurable
begin

text \<open>
  The properties of the SQL layer. They are stated for databases that are reached from an empty file by
  statements, queries and compactions; a small table serves as the concrete input of the witnesses.
\<close>

definition hits :: "golib \<Rightarrow> sqldb \<Rightarrow> TableDef \<Rightarrow> pred list \<Rightarrow> string set" where
  \<comment> \<open>the keys of the stored rows that satisfy the predicates\<close>
  "hits L d def whr = {k \<in> liveRows (current d) def. hit L (current d) def whr k}"

lemma reach_facts:
  assumes "libFinite L" "sqlReach L n d" "n + 2 < 2 ^ 64"
  shows "sqlOk L d" "sqlInv L d" "roomFor 2 d" "\<not> dbClosed d"
  using sqlReach_ok [OF assms] assms(3) by (auto simp: sqlOk_def seqOk_def roomFor_def)

lemma fresh_collect_hits:
  assumes "sqlInv L d" "fmlookup (tables d) n = Some def" "list_all (predOk L def) whr"
  obtains ks d2 where "collectRows L def whr (freshTx wr d) (begun d) = (Inr (map (rowAt (current d) def) ks), d2)" "distinct ks"
    "set ks = hits L d def whr"
proof -
  have q: "quiet d (begun d)" by (rule begun_quiet)
  have tb: "fmlookup (tables (begun d)) n = Some def" using assms(2) quiet_sql [OF q] by simp
  obtain ks d2 where "collectRows L def whr (freshTx wr d) (begun d) = (Inr (map (rowAt (current (begun d)) def) ks), d2)" "quiet (begun d) d2"
    "distinct ks" "set ks = {k \<in> liveRows (current (begun d)) def. hit L (current (begun d)) def whr k}"
    by (rule collectRows_spec [OF sqlInv_quiet [OF q assms(1)] tb fresh_open freshTx_open(2) assms(3)])
  then show thesis using that [of ks d2] quiet_current [OF q] by (simp add: hits_def)
qed

lemma map_rowAt_inj: "map (rowAt m def) ks = map (rowAt m def) ks' \<longleftrightarrow> ks = ks'"
proof
  assume "map (rowAt m def) ks = map (rowAt m def) ks'"
  then have "map riKey (map (rowAt m def) ks) = map riKey (map (rowAt m def) ks')" by simp
  then show "ks = ks'" by (simp add: comp_def)
qed simp


section \<open>A small database\<close>

definition sampleCols :: "ColumnDef list" where
  "sampleCols = [\<lparr>colName = ''id'', colTyp = TypeInteger, colPK = True\<rparr>, \<lparr>colName = ''name'', colTyp = TypeText, colPK = False\<rparr>]"

definition sampleDef :: TableDef where
  "sampleDef = \<lparr>tblName = ''t'', tblColumns = sampleCols\<rparr>"

lemma sample_names:
  "normalizeName asciiLib ''t'' = ''t''" "normalizeName asciiLib ''id'' = ''id''" "normalizeName asciiLib ''name'' = ''name''"
  "normalizeName asciiLib ''by_name'' = ''by_name''"
  by code_simp+

lemma sample_fold: "equalFold asciiLib ''id'' ''id''" "\<not> equalFold asciiLib ''id'' ''name''" "equalFold asciiLib ''name'' ''name''"
  by code_simp+

lemma sample_columns:
  "columnIndex asciiLib sampleDef ''id'' = Inr 0" "columnIndex asciiLib sampleDef ''name'' = Inr 1"
  "pkColumn sampleDef = Inr (\<lparr>colName = ''id'', colTyp = TypeInteger, colPK = True\<rparr>, 0)"
  by (simp_all add: columnIndex_def pkColumn_def sampleDef_def sampleCols_def sample_fold upt_conv_Cons)

lemma sample_table: "tableOk asciiLib ''t'' sampleDef"
  by (simp add: tableOk_def sample_names sample_columns)
    (simp add: sampleDef_def sampleCols_def normalizeColumns_def sample_names tableTextOk_def valid_utf8_ascii TypeInteger_def TypeText_def)

lemma sample_lib: "libFinite asciiLib"
  by (simp add: libFinite_def asciiLib_def)

lemma sample_create:
  obtains d0 d where "OpenWithOptions asciiLib [] = Inr d0" "stmtOk asciiLib d0 (CreateTableStmt ''t'' sampleCols)"
    "execStmt asciiLib WriteOk (CreateTableStmt ''t'' sampleCols) d0 = ((0, None), d)"
    "fmlookup (tables d) ''t'' = Some sampleDef" "secIndexes d = fmempty" "current d = [catalogTableKey ''t'' \<mapsto> marshalTable sampleDef]"
proof -
  obtain d0 where d0: "OpenWithOptions asciiLib [] = Inr d0" using open_exists by blast
  note o = open_empty [OF d0]
  have room: "roomFor 2 d0" using o(2) by (simp add: roomFor_def)
  have def: "sampleDef = \<lparr>tblName = ''t'', tblColumns = normalizeColumns asciiLib sampleCols\<rparr>"
    using sample_table by (simp add: tableOk_def) (simp add: sampleDef_def)
  have ok: "stmtOk asciiLib d0 (CreateTableStmt ''t'' sampleCols)"
    using sample_table def by (simp add: sample_names)
  obtain d where d: "execCreate asciiLib WriteOk ''t'' sampleCols d0 = ((0, None), d)" "current d = (current d0)(catalogTableKey ''t'' \<mapsto> marshalTable sampleDef)"
      "tables d = fmupd ''t'' sampleDef (tables d0)" "secIndexes d = secIndexes d0"
    by (rule execCreate_spec [OF o(1) room _ def sample_table, where stName = "''t''" and out = WriteOk]) (use o in \<open>auto simp: sample_names\<close>)
  then show thesis using that [of d0 d] d0 ok o by (simp add: execStmt_def)
qed

lemma sample_created:
  obtains d where "sqlReach asciiLib 1 d" "fmlookup (tables d) ''t'' = Some sampleDef" "secIndexes d = fmempty"
    "\<forall>enc. current d (rowKey ''t'' enc) = None"
proof -
  obtain d0 d where d: "OpenWithOptions asciiLib [] = Inr d0" "stmtOk asciiLib d0 (CreateTableStmt ''t'' sampleCols)"
    "execStmt asciiLib WriteOk (CreateTableStmt ''t'' sampleCols) d0 = ((0, None), d)"
    "fmlookup (tables d) ''t'' = Some sampleDef" "secIndexes d = fmempty" "current d = [catalogTableKey ''t'' \<mapsto> marshalTable sampleDef]"
    by (rule sample_create)
  have "sqlReach asciiLib (Suc 0) d" by (rule sql_exec [OF sql_open [OF d(1)] d(2,3)])
  then show thesis using that [of d] d by simp
qed

definition sampleRow :: "sqlval list" where
  "sampleRow = [intValue 1, textValue ''a'']"

definition sampleKey :: string where
  "sampleKey = rowKey ''t'' (pkEncode (pkFromInt 1))"

lemma sample_insert:
  obtains page where "insertRow asciiLib sampleDef ''t'' [] [ExprInt 1, ExprText ''a''] = Inr (sampleRow, pkFromInt 1, sampleKey, page)"
    "unpackRow page = Inr sampleRow"
proof -
  have "length (encodeRow sampleRow) \<le> 4088"
    by (simp add: sampleRow_def encodeRow_def encodeValue_def zeroValue_def)
  then obtain page where page: "packRow sampleRow = Inr page" using packRow_fits by blast
  have "map normValue sampleRow = sampleRow" by (simp add: sampleRow_def normValue_def zeroValue_def)
  moreover have "insertRow asciiLib sampleDef ''t'' [] [ExprInt 1, ExprText ''a''] = Inr (sampleRow, pkFromInt 1, sampleKey, page)"
    using page
    by (simp add: insertRow_def sample_columns insertValues_def insertColumns_def encodePK_def nthRes_def pkOfValue_def sampleKey_def
        pkEncode_def pkFromInt_def sampleRow_def zeroValue_def)
      (simp add: sampleDef_def sampleCols_def nullRow_def upt_conv_Cons exprToValue_def zeroValue_def encodePK_def pkOfValue_def pkFromInt_def)
  ultimately show thesis using that packRow_ok(1) [OF page] by simp
qed

lemma sample_filled:
  obtains d page where "sqlReach asciiLib 2 d" "fmlookup (tables d) ''t'' = Some sampleDef" "secIndexes d = fmempty"
    "\<forall>enc. current d (rowKey ''t'' enc) = (if rowKey ''t'' enc = sampleKey then Some page else None)" "unpackRow page = Inr sampleRow"
proof -
  obtain d1 where d1: "sqlReach asciiLib 1 d1" "fmlookup (tables d1) ''t'' = Some sampleDef" "secIndexes d1 = fmempty"
    "\<forall>enc. current d1 (rowKey ''t'' enc) = None"
    by (rule sample_created)
  obtain page where page: "insertRow asciiLib sampleDef ''t'' [] [ExprInt 1, ExprText ''a''] = Inr (sampleRow, pkFromInt 1, sampleKey, page)"
    "unpackRow page = Inr sampleRow"
    by (rule sample_insert)
  note ok = reach_facts [OF sample_lib d1(1)]
  have free: "tableIndexes d1 ''t'' = {}" using d1(3) by (simp add: tableIndexes_def)
  have none: "current d1 sampleKey = None" using d1(4) by (simp add: sampleKey_def)
  obtain d where d: "execInsert asciiLib WriteOk ''t'' [] [ExprInt 1, ExprText ''a''] d1 = ((1, None), d)"
    "current d = (current d1)(sampleKey \<mapsto> page)" "tables d = tables d1"
    by (rule execInsert_spec [OF _ _ sample_lib sample_names(1) d1(2) page(1), where out = WriteOk]) (use ok free none in auto)
  have st: "stmtOk asciiLib d1 (InsertStmt ''t'' [] [ExprInt 1, ExprText ''a''])" using free by (simp add: sample_names)
  have reach: "sqlReach asciiLib (Suc 1) d"
    by (rule sql_exec [OF d1(1) st, of WriteOk]) (use d(1) in \<open>simp add: execStmt_def\<close>)
  have inv: "sqlInv asciiLib d" using reach_facts(2) [OF sample_lib reach] by simp
  have "fmlookup (secIndexes d) i = None" for i
  proof -
    have "current d (catalogIndexKey i) = None" using d(2) ok(2) d1(3) by (simp add: sqlInv_def sampleKey_def)
    then show ?thesis using inv by (simp add: sqlInv_def)
  qed
  then have "secIndexes d = fmempty" by (intro fmap_ext) simp
  then show thesis using that [of d page] reach d d1 page(2) by (simp add: numeral_2_eq_2)
qed

definition sampleIndex :: IndexDef where
  "sampleIndex = \<lparr>ixName = ''by_name'', ixTable = ''t'', ixColumn = ''name'', ixPath = []\<rparr>"

lemma sample_value: "valueFromRow asciiLib sampleIndex sampleDef sampleRow = Inr (Some (textValue ''a''))"
  using sample_columns(2) by (simp add: valueFromRow_def sampleIndex_def sampleRow_def zeroValue_def)

lemma sample_indexed:
  obtains d page where "sqlReach asciiLib 3 d" "fmlookup (tables d) ''t'' = Some sampleDef"
    "\<exists>si. secIndexes d = fmupd ''by_name'' si fmempty \<and> siDef si = sampleIndex"
    "\<forall>enc. current d (rowKey ''t'' enc) = (if rowKey ''t'' enc = sampleKey then Some page else None)" "unpackRow page = Inr sampleRow"
proof -
  obtain d2 page where d2: "sqlReach asciiLib 2 d2" "fmlookup (tables d2) ''t'' = Some sampleDef" "secIndexes d2 = fmempty"
    "\<forall>enc. current d2 (rowKey ''t'' enc) = (if rowKey ''t'' enc = sampleKey then Some page else None)" "unpackRow page = Inr sampleRow"
    by (rule sample_filled)
  note ok = reach_facts [OF sample_lib d2(1)]
  have ix: "indexTextOk sampleIndex" "normalizeIndex asciiLib sampleIndex = sampleIndex"
    by (simp_all add: sampleIndex_def indexTextOk_def normalizeIndex_def sample_names valid_utf8_ascii)
  have free: "\<forall>enc vals. stored (current d2) sampleDef enc vals \<longrightarrow> nulFree asciiLib sampleDef sampleIndex vals"
  proof (intro allI impI)
    fix enc vals
    assume "stored (current d2) sampleDef enc vals"
    then have "vals = sampleRow" using d2(4,5) by (auto simp: stored_def sampleDef_def split: if_splits)
    then show "nulFree asciiLib sampleDef sampleIndex vals" by (simp add: nulFree_def sample_value valuePrefix_def zeroValue_def)
  qed
  have check: "checkIndex asciiLib sampleDef ''name'' [] = Inr ()"
    by (simp add: checkIndex_def sample_columns) (simp add: sampleDef_def sampleCols_def)
  obtain d si where d: "execCreateIndex asciiLib WriteOk ''by_name'' ''t'' ''name'' [] d2 = ((0, None), d)"
    "current d = (current d2)(catalogIndexKey ''by_name'' \<mapsto> marshalIndex sampleIndex)" "tables d = tables d2"
    "secIndexes d = fmupd ''by_name'' si (secIndexes d2)" "siDef si = sampleIndex"
    by (rule execCreateIndex_spec [of asciiLib d2 "''by_name''" "''by_name''" "''t''" "''t''" sampleIndex "''name''" "[]" WriteOk])
      (use ok ix free d2(2,3) check in \<open>auto simp: sample_names\<close>, auto simp: sampleIndex_def sample_names)
  have st: "stmtOk asciiLib d2 (CreateIndexStmt ''by_name'' ''t'' ''name'' [])"
    using ix free d2(2) by (simp add: sample_names Let_def sampleIndex_def)
  have "sqlReach asciiLib (Suc 2) d"
    by (rule sql_exec [OF d2(1) st, of WriteOk]) (use d(1) in \<open>simp add: execStmt_def\<close>)
  moreover have "\<exists>s. secIndexes d = fmupd ''by_name'' s fmempty \<and> siDef s = sampleIndex" using d(4,5) d2(3) by auto
  ultimately show thesis using that [of d page] d(2,3) d2 by (simp add: numeral_3_eq_3)
qed

lemma sample_digit: "formatInt (1 :: i64) = ''1''"
  by code_simp

lemma sample_pred: "predOk asciiLib sampleDef (PredColumn ''name'' (ExprText ''a''))" "predOk asciiLib sampleDef (PredColumn ''id'' (ExprInt 1))"
  using sample_columns sample_digit
  by (simp_all add: predOk_def predTotal_def sample_names) (simp_all add: sampleDef_def sampleCols_def exprToValue_def valuePrefix_def zeroValue_def)

lemma sample_hits:
  assumes "\<forall>enc. current d (rowKey ''t'' enc) = (if rowKey ''t'' enc = sampleKey then Some page else None)" "unpackRow page = Inr sampleRow"
  shows "hits asciiLib d sampleDef [PredColumn ''name'' (ExprText ''a'')] = {sampleKey}" "hits asciiLib d sampleDef [PredColumn ''id'' (ExprInt 1)] = {sampleKey}"
    "riValues (rowAt (current d) sampleDef sampleKey) = sampleRow"
proof -
  have page: "current d sampleKey = Some page" using assms(1) by (simp add: sampleKey_def)
  show row: "riValues (rowAt (current d) sampleDef sampleKey) = sampleRow" using page assms(2) by (simp add: rowAt_def)
  have live: "liveRows (current d) sampleDef = {sampleKey}"
  proof (rule set_eqI)
    fix k
    show "k \<in> liveRows (current d) sampleDef \<longleftrightarrow> k \<in> {sampleKey}"
    proof (cases "\<exists>enc. k = rowKey ''t'' enc")
      case True
      then obtain enc where k: "k = rowKey (tblName sampleDef) enc" by (auto simp: sampleDef_def)
      then have "current d k = (if k = sampleKey then Some page else None)" using assms(1) by (simp add: sampleDef_def)
      then show ?thesis using k liveRows_rowKey [of sampleDef enc "current d"] by simp
    next
      case False
      then show ?thesis by (auto simp: liveRows_def sampleDef_def sampleKey_def rowKey_split prefix_def)
    qed
  qed
  have "matchWhere asciiLib sampleDef sampleRow [PredColumn ''name'' (ExprText ''a'')] = Inr True"
    "matchWhere asciiLib sampleDef sampleRow [PredColumn ''id'' (ExprInt 1)] = Inr True"
    by (simp_all add: sample_names sample_columns) (simp_all add: sampleDef_def sampleCols_def sampleRow_def exprToValue_def nthRes_def valuesEqual_def zeroValue_def)
  then have "hit asciiLib (current d) sampleDef [PredColumn ''name'' (ExprText ''a'')] sampleKey"
    "hit asciiLib (current d) sampleDef [PredColumn ''id'' (ExprInt 1)] sampleKey"
    unfolding hit_def row by blast+
  then show "hits asciiLib d sampleDef [PredColumn ''name'' (ExprText ''a'')] = {sampleKey}" "hits asciiLib d sampleDef [PredColumn ''id'' (ExprInt 1)] = {sampleKey}"
    unfolding hits_def live by blast+
qed


section \<open>Properties\<close>

text \<open>
  C3. The caches always agree with the stored data: in every database that is reached from an empty file
  by any number of statements, queries and compactions (successful or not, whatever the file system
  answers, as long as there is a log to write to), the table and index definitions in memory are those of the catalog, each primary-key index maps exactly
  the keys of the stored rows to their storage keys, and each secondary index holds exactly the stored
  rows that have a value for it. The statements respect \<open>stmtOk\<close>: names that survive the catalog, no NUL
  byte in indexed values, no assignment that reaches the primary key through case folding.
\<close>

theorem sql_caches_consistent:
  assumes "libFinite L" "sqlReach L n d" "n + 2 < 2 ^ 64"
  shows "sqlInv L d"
  by (rule reach_facts(2) [OF assms])

theorem sql_caches_consistent_witness:
  "\<exists>d. sqlReach asciiLib 3 d \<and> sqlInv asciiLib d \<and> fmlookup (tables d) ''t'' = Some sampleDef \<and> secIndexes d \<noteq> fmempty"
proof -
  obtain d where d: "sqlReach asciiLib 3 d" "fmlookup (tables d) ''t'' = Some sampleDef"
    "\<exists>si. secIndexes d = fmupd ''by_name'' si fmempty \<and> siDef si = sampleIndex"
    by (rule sample_indexed)
  have "sqlInv asciiLib d" by (rule sql_caches_consistent [OF sample_lib d(1)]) simp
  moreover have "secIndexes d \<noteq> fmempty" using d(3) by (metis fmempty_lookup fmupd_lookup option.distinct(1))
  ultimately show ?thesis using d by blast
qed

text \<open>
  C5. The ways of finding rows are equivalent: for predicates whose literals fit their columns, are not
  NULL and contain no NUL byte, a statement that goes through the primary-key index or a secondary
  index collects the same rows, each once, as the scan of the whole table.
\<close>

theorem indexes_equal_scan:
  assumes "libFinite L" "sqlReach L n d" "n + 2 < 2 ^ 64"
    and "fmlookup (tables d) tbl = Some def" "list_all (predOk L def) whr" "dbBegin wr d = (Inr t, d1)"
  shows "\<exists>items items'. fst (collectRows L def whr t d1) = Inr items \<and> fst (tableScan L def whr t d1) = Inr items'
    \<and> mset items = mset items' \<and> distinct (map riKey items)"
proof -
  note ok = reach_facts [OF assms(1-3)]
  have t: "t = freshTx wr d" "d1 = begun d" using assms(6) ok(4) by (simp_all add: dbBegin_fresh)
  have q: "quiet d (begun d)" by (rule begun_quiet)
  note inv = sqlInv_quiet [OF q ok(2)]
  have tb: "fmlookup (tables (begun d)) tbl = Some def" using assms(4) quiet_sql [OF q] by simp
  have total: "whereTotal L def whr"
    by (rule whereTotalI) (use inv tb assms(5) in \<open>auto elim: sqlInv_table simp: list_all_iff predOk_def\<close>)
  let ?m = "current (begun d)"
  obtain ks d2 where ks: "collectRows L def whr t d1 = (Inr (map (rowAt ?m def) ks), d2)" "distinct ks"
    "set ks = {k \<in> liveRows ?m def. hit L ?m def whr k}"
    unfolding t by (rule collectRows_spec [OF inv tb fresh_open freshTx_open(2) assms(5)])
  obtain ks' d3 where ks': "tableScan L def whr t d1 = (Inr (map (rowAt ?m def) ks'), d3)" "distinct ks'"
    "set ks' = {k \<in> liveRows ?m def. hit L ?m def whr k}"
    unfolding t by (rule tableScan_spec [OF inv tb fresh_open freshTx_open(2) total])
  have "mset ks = mset ks'" using set_eq_iff_mset_eq_distinct [OF ks(2) ks'(2)] ks(3) ks'(3) by simp
  then have "mset (map (rowAt ?m def) ks) = mset (map (rowAt ?m def) ks')" by simp
  then show ?thesis
    using ks(1,2) ks'(1) by (intro exI [of _ "map (rowAt ?m def) ks"] exI [of _ "map (rowAt ?m def) ks'"]) (simp add: comp_def)
qed

theorem indexes_equal_scan_witness:
  "\<exists>d t d1 items items'. sqlReach asciiLib 3 d \<and> dbBegin False d = (Inr t, d1)
     \<and> findIndex asciiLib sampleDef (PredColumn ''name'' (ExprText ''a'')) d \<noteq> None
     \<and> fst (collectRows asciiLib sampleDef [PredColumn ''name'' (ExprText ''a'')] t d1) = Inr items
     \<and> fst (tableScan asciiLib sampleDef [PredColumn ''name'' (ExprText ''a'')] t d1) = Inr items' \<and> mset items = mset items'"
proof -
  obtain d where d: "sqlReach asciiLib 3 d" "fmlookup (tables d) ''t'' = Some sampleDef"
    "\<exists>si. secIndexes d = fmupd ''by_name'' si fmempty \<and> siDef si = sampleIndex"
    by (rule sample_indexed)
  have "\<not> dbClosed d" using reach_facts(4) [OF sample_lib d(1)] by simp
  then have b: "dbBegin False d = (Inr (freshTx False d), begun d)" by (simp add: dbBegin_fresh)
  have "findIndex asciiLib sampleDef (PredColumn ''name'' (ExprText ''a'')) d \<noteq> None"
  proof -
    obtain si where si: "secIndexes d = fmupd ''by_name'' si fmempty" "siDef si = sampleIndex" using d(3) by blast
    then have "fmlookup (secIndexes d) ''by_name'' = Some si" by simp
    then have "''by_name'' \<in> set (fmkeys (secIndexes d))" by (simp add: fmlookup_dom_iff)
    moreover have "usableIndex asciiLib sampleDef (PredColumn ''name'' (ExprText ''a'')) si"
      using si(2) by (simp add: usableIndex_def sampleIndex_def sample_names) (simp add: sampleDef_def)
    ultimately have "\<exists>x\<in>set (fmkeys (secIndexes d)). usableIndex asciiLib sampleDef (PredColumn ''name'' (ExprText ''a'')) (the (fmlookup (secIndexes d) x))"
      using \<open>fmlookup (secIndexes d) ''by_name'' = Some si\<close> by (intro bexI [of _ "''by_name''"]) simp_all
    then show ?thesis unfolding findIndex_def find_None_iff by auto
  qed
  then show ?thesis
    using indexes_equal_scan [OF sample_lib d(1) _ d(2) _ b, of "[PredColumn ''name'' (ExprText ''a'')]"] d(1) b sample_pred(1) by auto
qed

text \<open>
  C7. INSERT stores exactly one row: a row whose primary key is present is refused as a duplicate, a
  failed write to the log is reported, and both leave the stored data alone; otherwise one row is
  reported and the content of the store gains exactly the packed row under the key that its primary
  key encodes to.
\<close>

theorem insert_stores_row:
  assumes "libFinite L" "sqlReach L n d" "n + 2 < 2 ^ 64"
    and "fmlookup (tables d) (normalizeName L tbl) = Some def" "stmtOk L d (InsertStmt tbl cols es)"
    and "insertRow L def (normalizeName L tbl) cols es = Inr (vals, pk, rk, page)"
  shows "\<exists>d'. execStmt L out (InsertStmt tbl cols es) d =
      (if current d rk \<noteq> None then (0, Some (ErrSQL ''duplicate primary key''))
       else if out = WriteOk then (1, None) else (0, Some ErrIO), d')
    \<and> current d' = (if current d rk = None \<and> out = WriteOk then (current d)(rk \<mapsto> page) else current d)
    \<and> rk = rowKey (tblName def) (pkEncode pk) \<and> unpackRow page = Inr (map normValue vals)"
proof -
  note ok = reach_facts [OF assms(1-3)]
  have free: "\<forall>si\<in>tableIndexes d (normalizeName L tbl). \<forall>e\<in>set es. exprFree L (siDef si) e" using assms(5) by simp
  have tb: "tableOk L (normalizeName L tbl) def" "tblName def = normalizeName L tbl" using ok(2) assms(4) by (auto elim: sqlInv_table)
  obtain d' where "execInsert L out tbl cols es d =
      (if current d rk \<noteq> None then (0, Some (ErrSQL ''duplicate primary key''))
       else if out = WriteOk then (1, None) else (0, Some ErrIO), d')"
    "current d' = (if current d rk = None \<and> out = WriteOk then (current d)(rk \<mapsto> page) else current d)"
    by (rule execInsert_spec [OF ok(1,3) assms(1) refl assms(4,6) free])
  moreover obtain enc where "rk = rowKey (normalizeName L tbl) enc" "enc = pkEncode pk" "unpackRow page = Inr (map normValue vals)"
    by (rule insertRow_ok [OF assms(1) tb(1) assms(6)])
  ultimately show ?thesis using tb(2) by (simp add: execStmt_def)
qed

theorem insert_stores_row_witness:
  "\<exists>d page d'. sqlReach asciiLib 1 d \<and> execStmt asciiLib WriteOk (InsertStmt ''t'' [] [ExprInt 1, ExprText ''a'']) d = ((1, None), d')
     \<and> current d' = (current d)(sampleKey \<mapsto> page) \<and> unpackRow page = Inr (map normValue sampleRow)"
proof -
  obtain d where d: "sqlReach asciiLib 1 d" "fmlookup (tables d) ''t'' = Some sampleDef" "secIndexes d = fmempty"
    "\<forall>enc. current d (rowKey ''t'' enc) = None"
    by (rule sample_created)
  obtain page where page: "insertRow asciiLib sampleDef ''t'' [] [ExprInt 1, ExprText ''a''] = Inr (sampleRow, pkFromInt 1, sampleKey, page)"
    by (rule sample_insert)
  have "stmtOk asciiLib d (InsertStmt ''t'' [] [ExprInt 1, ExprText ''a''])" using d(3) by (simp add: tableIndexes_def)
  moreover have "current d sampleKey = None" using d(4) by (simp add: sampleKey_def)
  ultimately show ?thesis
    using insert_stores_row [OF sample_lib d(1), of "''t''" sampleDef "[]" "[ExprInt 1, ExprText ''a'']" sampleRow "pkFromInt 1" sampleKey page WriteOk]
      d(1,2) page by (auto simp: sample_names)
qed

text \<open>
  C9. DELETE removes exactly the matching rows: with predicates that fit the table and a log that
  takes the write, it reports their number, and afterwards the store has lost these rows and nothing
  else.
\<close>

theorem delete_removes_matching:
  assumes "libFinite L" "sqlReach L n d" "n + 2 < 2 ^ 64"
    and "fmlookup (tables d) (normalizeName L tbl) = Some def" "list_all (predOk L def) whr"
  shows "\<exists>d'. execStmt L WriteOk (DeleteStmt tbl whr) d = ((card (hits L d def whr), None), d')
    \<and> (\<forall>k. current d' k = (if k \<in> hits L d def whr then None else current d k))"
proof -
  note ok = reach_facts [OF assms(1-3)]
  obtain ks d2 where ks: "collectRows L def whr (freshTx True d) (begun d) = (Inr (map (rowAt (current d) def) ks), d2)" "distinct ks"
    "set ks = hits L d def whr"
    by (rule fresh_collect_hits [OF ok(2) assms(4,5)])
  show ?thesis
  proof (rule execDelete_spec [OF ok(1,3) refl assms(4), of WriteOk whr])
    fix e d'
    assume "WriteOk \<noteq> WriteOk \<or> (\<exists>d2. collectRows L def whr (freshTx True d) (begun d) = (Inl e, d2))"
    then show ?thesis using ks(1) by simp
  next
    fix ks' d' d3
    assume d': "execDelete L WriteOk tbl whr d = ((length ks', None), d')" "current d' = without (current d) ks'"
      "collectRows L def whr (freshTx True d) (begun d) = (Inr (map (rowAt (current d) def) ks'), d3)"
    then have "ks' = ks" using ks(1) map_rowAt_inj by auto
    then show ?thesis using d' ks(2,3) distinct_card [OF ks(2)] by (simp add: execStmt_def without_apply)
  qed
qed

theorem delete_removes_matching_witness:
  "\<exists>d d'. sqlReach asciiLib 3 d \<and> current d sampleKey \<noteq> None
     \<and> execStmt asciiLib WriteOk (DeleteStmt ''t'' [PredColumn ''id'' (ExprInt 1)]) d = ((1, None), d') \<and> current d' = (current d)(sampleKey := None)"
proof -
  obtain d page where d: "sqlReach asciiLib 3 d" "fmlookup (tables d) ''t'' = Some sampleDef"
    "\<forall>enc. current d (rowKey ''t'' enc) = (if rowKey ''t'' enc = sampleKey then Some page else None)" "unpackRow page = Inr sampleRow"
    by (rule sample_indexed)
  then have "current d sampleKey \<noteq> None" by (simp add: sampleKey_def)
  then show ?thesis
    using delete_removes_matching [OF sample_lib d(1), of "''t''" sampleDef "[PredColumn ''id'' (ExprInt 1)]"] d(1,2) sample_pred(2) sample_hits(2) [OF d(3,4)]
    by (auto simp: sample_names fun_eq_iff)
qed

lemma updateFails_hits:
  assumes ok: "sqlInv L d" "fmlookup (tables d) n = Some def" "list_all (predOk L def) whr"
  shows "updateFails L out def sets whr d \<longleftrightarrow>
    \<not> (hits L d def whr = {} \<or> out = WriteOk
        \<and> (\<forall>k\<in>hits L d def whr. \<exists>new. updatedRow L def sets (riValues (rowAt (current d) def k)) new \<and> length (encodeRow new) \<le> 4088))"
proof -
  obtain ks d2 where ks: "collectRows L def whr (freshTx True d) (begun d) = (Inr (map (rowAt (current d) def) ks), d2)" "distinct ks"
    "set ks = hits L d def whr"
    by (rule fresh_collect_hits [OF ok])
  define fine where "fine k \<longleftrightarrow> (\<exists>new. updatedRow L def sets (riValues (rowAt (current d) def k)) new \<and> length (encodeRow new) \<le> 4088)" for k
  have "changeable L def sets (riValues (rowAt (current d) def k)) \<longleftrightarrow> fine k" if "k \<in> set ks" for k
  proof -
    have "length (riValues (rowAt (current d) def k)) = length (tblColumns def)"
      using rowAt_length [OF ok(1,2)] that ks(3) by (simp add: hits_def)
    then show ?thesis
      unfolding fine_def using assignPairs_iff [of "riValues (rowAt (current d) def k)" def L sets] packRow_bound packRow_fits by metis
  qed
  then have "(\<exists>k\<in>set ks. \<not> changeable L def sets (riValues (rowAt (current d) def k))) \<longleftrightarrow> (\<exists>k\<in>set ks. \<not> fine k)" by blast
  then have "updateFails L out def sets whr d \<longleftrightarrow> (out \<noteq> WriteOk \<and> ks \<noteq> []) \<or> (\<exists>k\<in>set ks. \<not> fine k)"
    using ks(1) by (simp add: updateFails_def)
  moreover have "ks = [] \<longleftrightarrow> hits L d def whr = {}" unfolding ks(3) [symmetric] by simp
  ultimately show ?thesis unfolding ks(3) fine_def [symmetric] by blast
qed

text \<open>
  C8. UPDATE changes exactly the matching rows. It succeeds if no row matches, or if the log takes the
  write, every assignment names a column and has a literal of its type, and every new row fits a page. It
  then reports the number of matching rows. Each of them reads back, under its old key, with the value
  of the last assignment in every column that is assigned and with its old value in the others, and no other key of the
  store has changed. Otherwise it fails and nothing has changed. The predicates fit the table (\<open>predOk\<close>); no
  assignment reaches the primary key, and none puts a NUL byte into an indexed column (\<open>stmtOk\<close>).
\<close>

theorem update_changes_matching:
  assumes "libFinite L" "sqlReach L n d" "n + 2 < 2 ^ 64"
    and "fmlookup (tables d) (normalizeName L tbl) = Some def" "list_all (predOk L def) whr" "stmtOk L d (UpdateStmt tbl sets whr)"
  shows "\<exists>cnt e d'. execStmt L out (UpdateStmt tbl sets whr) d = ((cnt, e), d')
    \<and> (e = None \<longleftrightarrow> hits L d def whr = {} \<or> out = WriteOk
         \<and> (\<forall>k\<in>hits L d def whr. \<exists>new. updatedRow L def sets (riValues (rowAt (current d) def k)) new \<and> length (encodeRow new) \<le> 4088))
    \<and> (e = None \<longrightarrow> cnt = card (hits L d def whr)
         \<and> (\<forall>k. k \<notin> hits L d def whr \<longrightarrow> current d' k = current d k)
         \<and> (\<forall>k\<in>hits L d def whr. \<exists>new page. updatedRow L def sets (riValues (rowAt (current d) def k)) new
              \<and> current d' k = Some page \<and> unpackRow page = Inr (map normValue new)))
    \<and> (e \<noteq> None \<longrightarrow> current d' = current d)"
proof -
  note ok = reach_facts [OF assms(1-3)]
  obtain c i where pk: "pkColumn def = Inr (c, i)" using ok(2) assms(4) by (auto elim!: sqlInv_table simp: tableOk_def)
  have sets: "\<forall>a\<in>set sets. columnIndex L def (normalizeName L (asColumn a)) \<noteq> Inr i"
    and free: "\<forall>si\<in>tableIndexes d (normalizeName L tbl). \<forall>a\<in>set sets. exprFree L (siDef si) (asValue a)"
    using assms(4,6) pk by simp_all
  obtain ks d2 where ks: "collectRows L def whr (freshTx True d) (begun d) = (Inr (map (rowAt (current d) def) ks), d2)" "distinct ks"
    "set ks = hits L d def whr"
    by (rule fresh_collect_hits [OF ok(2) assms(4,5)])
  note fails = updateFails_hits [OF ok(2) assms(4,5), of out sets]
  show ?thesis
  proof (rule execUpdate_spec [OF ok(1,3) assms(1) refl assms(4) pk sets free, of out whr])
    fix x e d1
    assume "execUpdate L out tbl sets whr d = ((x, Some e), d1)" "current d1 = current d" "updateFails L out def sets whr d"
    then show ?thesis using fails by (intro exI [of _ x] exI [of _ "Some e"] exI [of _ d1]) (simp add: execStmt_def)
  next
    fix us d1 d3
    assume u: "execUpdate L out tbl sets whr d = ((length us, None), d1)" "current d1 = written (current d) us" "distinct (map fst us)"
      "list_all (changeOk L def sets (current d)) us"
      "collectRows L def whr (freshTx True d) (begun d) = (Inr (map (rowAt (current d) def) (map fst us)), d3)" "out = WriteOk \<or> us = []"
    have us: "map fst us = ks" using u(5) ks(1) map_rowAt_inj [of "current d" def "map fst us" ks] by (simp del: map_map)
    then have keys: "fst ` set us = hits L d def whr" using ks(3) by (metis list.set_map)
    have cnt: "length us = card (hits L d def whr)" using us ks(2,3) distinct_card by (metis length_map)
    have row: "\<exists>new page. updatedRow L def sets (riValues (rowAt (current d) def k)) new \<and> length (encodeRow new) \<le> 4088
        \<and> current d1 k = Some page \<and> unpackRow page = Inr (map normValue new)" if k: "k \<in> hits L d def whr" for k
    proof -
      obtain new page where m: "(k, new, page) \<in> set us" using k keys by force
      then have new: "assignPairs L def sets (riValues (rowAt (current d) def k)) = Inr new" "packRow new = Inr page"
        using u(4) by (auto simp: list_all_iff changeOk_def)
      have "length (riValues (rowAt (current d) def k)) = length (tblColumns def)"
        using rowAt_length [OF ok(2) assms(4)] k by (simp add: hits_def)
      then have "updatedRow L def sets (riValues (rowAt (current d) def k)) new" using new(1) by (simp add: assignPairs_iff)
      moreover have "current d1 k = Some page" using written_mem [OF u(3) m] u(2) by simp
      ultimately show ?thesis using packRow_bound [OF new(2)] packRow_ok(1) [OF new(2)] by blast
    qed
    have "hits L d def whr = {} \<or> out = WriteOk" using u(6) keys by auto
    then show ?thesis
      using u(1,2) cnt row written_other [of _ us "current d"] keys
      by (intro exI [of _ "length us"] exI [of _ "None :: err option"] exI [of _ d1]) (auto simp: execStmt_def, blast+)
  qed
qed

lemma sample_updated:
  "updatedRow asciiLib sampleDef [\<lparr>asColumn = ''name'', asValue = ExprText ''b''\<rparr>] sampleRow new \<longleftrightarrow> new = [intValue 1, textValue ''b'']"
proof -
  have types: "colTyp (tblColumns sampleDef ! Suc 0) = TypeText" by (simp add: sampleDef_def sampleCols_def)
  have lit: "denotes asciiLib (ExprText ''b'') TypeText v \<longleftrightarrow> v = textValue ''b''" for v
    unfolding exprToValue_denotes [symmetric] by (auto simp: exprToValue_def)
  have row: "updatedRow asciiLib sampleDef [\<lparr>asColumn = ''name'', asValue = ExprText ''b''\<rparr>] sampleRow [intValue 1, textValue ''b'']"
    using lit [of "textValue ''b''"] by (auto simp: updatedRow_def sample_names sample_columns types sampleRow_def All_less_Suc2 numeral_2_eq_2)
  then show ?thesis using updatedRow_unique by blast
qed

theorem update_changes_matching_witness:
  "\<exists>d d' page. sqlReach asciiLib 2 d
     \<and> execStmt asciiLib WriteOk (UpdateStmt ''t'' [\<lparr>asColumn = ''name'', asValue = ExprText ''b''\<rparr>] [PredColumn ''id'' (ExprInt 1)]) d = ((1, None), d')
     \<and> current d' = (current d)(sampleKey \<mapsto> page) \<and> unpackRow page = Inr [intValue 1, textValue ''b'']"
proof -
  obtain d p where d: "sqlReach asciiLib 2 d" "fmlookup (tables d) ''t'' = Some sampleDef" "secIndexes d = fmempty"
    "\<forall>enc. current d (rowKey ''t'' enc) = (if rowKey ''t'' enc = sampleKey then Some p else None)" "unpackRow p = Inr sampleRow"
    by (rule sample_filled)
  let ?sets = "[\<lparr>asColumn = ''name'', asValue = ExprText ''b''\<rparr>]" and ?whr = "[PredColumn ''id'' (ExprInt 1)]"
  have st: "stmtOk asciiLib d (UpdateStmt ''t'' ?sets ?whr)" using d(2,3) sample_columns by (simp add: sample_names tableIndexes_def)
  note h = sample_hits(2,3) [OF d(4,5)]
  have fits: "length (encodeRow [intValue 1, textValue ''b'']) \<le> 4088" by (simp add: encodeRow_def encodeValue_def zeroValue_def)
  have norm: "map normValue [intValue 1, textValue ''b''] = [intValue 1, textValue ''b'']" by (simp add: normValue_def zeroValue_def)
  have tbl: "fmlookup (tables d) (normalizeName asciiLib ''t'') = Some sampleDef" "list_all (predOk asciiLib sampleDef) ?whr"
    using d(2) sample_pred(2) by (simp_all add: sample_names)
  obtain cnt e d' where r: "execStmt asciiLib WriteOk (UpdateStmt ''t'' ?sets ?whr) d = ((cnt, e), d')" "e = None" "cnt = 1"
      "\<forall>k. k \<noteq> sampleKey \<longrightarrow> current d' k = current d k" "\<exists>page. current d' sampleKey = Some page \<and> unpackRow page = Inr [intValue 1, textValue ''b'']"
    using update_changes_matching [OF sample_lib d(1) _ tbl st, of WriteOk] fits norm by (auto simp: h sample_updated)
  then show ?thesis using d(1) by (auto simp: fun_eq_iff)
qed

lemma select_star:
  assumes ok: "sqlOk L d" "sqlInv L d" and tbl: "fmlookup (tables d) (normalizeName L tbl) = Some def" "list_all (predOk L def) whr"
  shows "\<exists>r d'. execSelect L tbl [SelectStar] whr d = (Inr r, d')
    \<and> rwColumns r = map colName (tblColumns def)
    \<and> mset (rwData r) = image_mset (\<lambda>k. riValues (rowAt (current d) def k)) (mset_set (hits L d def whr))
    \<and> current d' = current d \<and> tables d' = tables d \<and> indexes d' = indexes d \<and> secIndexes d' = secIndexes d"
proof -
  have projs: "selectProjs L def [SelectStar] = Inr (starProjs def)" by (simp add: selectProjs_def)
  obtain ks d' where s: "quiet d d'" "distinct ks" "set ks = hits L d def whr"
    "execSelect L tbl [SelectStar] whr d =
      (ebind (projectRows L (starProjs def) (map (rowAt (current d) def) ks)) (\<lambda>rs.
         Inr \<lparr>rwColumns = map projName (starProjs def), rwData = rs, rwI = -1, rwClosed = False\<rparr>), d')"
    unfolding hits_def by (rule execSelect_spec [OF ok(1) refl tbl(1) projs tbl(2)])
  have "projectRows L (starProjs def) (map (rowAt (current d) def) ks) = Inr (map riValues (map (rowAt (current d) def) ks))"
    by (rule project_rows_star) (use s(3) rowAt_length [OF ok(2) tbl(1)] in \<open>auto simp: hits_def\<close>)
  moreover have "map projName (starProjs def) = map colName (tblColumns def)"
    by (rule nth_equalityI) (simp_all add: starProjs_def)
  moreover have "mset (map (\<lambda>k. riValues (rowAt (current d) def k)) ks) = image_mset (\<lambda>k. riValues (rowAt (current d) def k)) (mset_set (hits L d def whr))"
    using mset_set_set [OF s(2)] s(3) by simp
  ultimately show ?thesis using s(4) quiet_current [OF s(1)] quiet_sql [OF s(1)] by (simp add: comp_def)
qed

text \<open>
  C10. SELECT * returns exactly the matching rows: one result row per stored row that satisfies the
  predicates, with the values it is stored with, under the names of all columns; the stored data
  and the caches stay as they are. The literals of the predicates fit their columns, are not NULL and contain
  no NUL byte (\<open>predOk\<close>).
\<close>

theorem select_returns_matching:
  assumes "libFinite L" "sqlReach L n d" "n + 2 < 2 ^ 64"
    and "fmlookup (tables d) (normalizeName L tbl) = Some def" "list_all (predOk L def) whr"
  shows "\<exists>r d'. execSelect L tbl [SelectStar] whr d = (Inr r, d')
    \<and> rwColumns r = map colName (tblColumns def)
    \<and> mset (rwData r) = image_mset (\<lambda>k. riValues (rowAt (current d) def k)) (mset_set (hits L d def whr))
    \<and> current d' = current d \<and> tables d' = tables d \<and> indexes d' = indexes d \<and> secIndexes d' = secIndexes d"
  by (rule select_star [OF reach_facts(1,2) [OF assms(1-3)] assms(4,5)])

theorem select_returns_matching_witness:
  "\<exists>d r d'. sqlReach asciiLib 3 d \<and> execSelect asciiLib ''t'' [SelectStar] [PredColumn ''name'' (ExprText ''a'')] d = (Inr r, d')
     \<and> rwColumns r = [''id'', ''name''] \<and> mset (rwData r) = {#[intValue 1, textValue ''a'']#}"
proof -
  obtain d page where d: "sqlReach asciiLib 3 d" "fmlookup (tables d) ''t'' = Some sampleDef"
    "\<forall>enc. current d (rowKey ''t'' enc) = (if rowKey ''t'' enc = sampleKey then Some page else None)" "unpackRow page = Inr sampleRow"
    by (rule sample_indexed)
  have "map colName (tblColumns sampleDef) = [''id'', ''name'']" by (simp add: sampleDef_def sampleCols_def)
  then show ?thesis
    using select_returns_matching [OF sample_lib d(1), of "''t''" sampleDef "[PredColumn ''name'' (ExprText ''a'')]"] d(1,2) sample_pred(1)
      sample_hits(1,3) [OF d(3,4)]
    by (auto simp: sample_names sampleRow_def)
qed

text \<open>
  C13. What INSERT is given, SELECT finds. Take literals that fit the columns they go to (all columns in
  order, or the ones that the statement names, with NULL in the others), a primary key that is not NULL, contains no
  NUL byte and is not yet in the table, and a row that fits a page. Then INSERT reports one row,
  and the query for its primary key returns exactly that row, with each literal in the column it was given for.
  No literal puts a NUL byte into an indexed column (\<open>stmtOk\<close>), and the log takes the write.
\<close>

theorem insert_then_select:
  assumes "libFinite L" "sqlReach L n d" "n + 3 < 2 ^ 64"
    and "fmlookup (tables d) (normalizeName L tbl) = Some def" "stmtOk L d (InsertStmt tbl cols es)"
    and "insertedRow L def cols es row" "length (encodeRow row) \<le> 4088"
    and "pkColumn def = Inr (c, i)" "normalizeName L col = colName c" "denotes L e (colTyp c) (row ! i)"
    and "\<not> vNull (row ! i)" "nul \<notin> set (valuePrefix (row ! i))" "hits L d def [PredColumn col e] = {}"
  shows "\<exists>d' r d''. execStmt L WriteOk (InsertStmt tbl cols es) d = ((1, None), d')
    \<and> execSelect L tbl [SelectStar] [PredColumn col e] d' = (Inr r, d'') \<and> rwData r = [map normValue row]"
proof -
  let ?n = "normalizeName L tbl"
  have bound: "n + 2 < 2 ^ 64" using assms(3) by simp
  note ok = reach_facts [OF assms(1,2) bound]
  have tb: "tableOk L ?n def" "tblName def = ?n" using ok(2) assms(4) by (auto elim: sqlInv_table)
  define rk where "rk = rowKey ?n (pkEncode (pkOfValue (colTyp c) (row ! i)))"
  obtain page where row: "insertRow L def ?n cols es = Inr (row, pkOfValue (colTyp c) (row ! i), rk, page)"
    unfolding rk_def by (rule insertRow_inserted [OF tb(1) assms(6,8,11,7)])
  have e: "exprToValue L e (colTyp c) = Inr (row ! i)" using assms(10) by (simp add: exprToValue_denotes)
  have none: "current d rk = None"
    using pk_hits [OF ok(2) assms(4,8,9) e assms(11) rk_def] assms(13) by (auto simp: hits_def)
  have free: "\<forall>si\<in>tableIndexes d ?n. \<forall>e\<in>set es. exprFree L (siDef si) e" using assms(5) by simp
  obtain d' where d': "execInsert L WriteOk tbl cols es d = ((1, None), d')" "current d' = (current d)(rk \<mapsto> page)" "tables d' = tables d"
    by (rule execInsert_spec [OF ok(1,3) assms(1) refl assms(4) row free, of WriteOk]) (use none in auto)
  have ins: "execStmt L WriteOk (InsertStmt tbl cols es) d = ((1, None), d')" using d'(1) by (simp add: execStmt_def)
  have reach: "sqlReach L (Suc n) d'" by (rule sql_exec [OF assms(2,5) ins])
  have ok': "sqlOk L d'" "sqlInv L d'" using reach_facts [OF assms(1) reach] assms(3) by simp_all
  have tb': "fmlookup (tables d') ?n = Some def" using assms(4) d'(3) by simp
  have hit: "hits L d' def [PredColumn col e] = {rk}"
    using pk_hits [OF ok'(2) tb' assms(8,9) e assms(11) rk_def] d'(2) by (auto simp: hits_def)
  have "unpackRow page = Inr (map normValue row)" by (rule insertRow_ok [OF assms(1) tb(1) row])
  then have vals: "riValues (rowAt (current d') def rk) = map normValue row" using d'(2) by (simp add: rowAt_def)
  have "columnIndex L def (normalizeName L col) = Inr i" "colTyp (tblColumns def ! i) = colTyp c"
    using tb(1) assms(8,9) pkColumn_Inr(2) [OF assms(8)] by (auto simp: tableOk_def)
  then have "list_all (predOk L def) [PredColumn col e]" using e assms(11,12) by (simp add: predOk_def predTotal_def)
  then show ?thesis using select_star [OF ok' tb', of "[PredColumn col e]"] ins hit vals by auto
qed

lemma sample_inserted: "insertedRow asciiLib sampleDef [''name'', ''id''] [ExprText ''a'', ExprInt 1] sampleRow"
proof -
  have types: "colTyp (tblColumns sampleDef ! 0) = TypeInteger" "colTyp (tblColumns sampleDef ! Suc 0) = TypeText" "length (tblColumns sampleDef) = 2"
    by (simp_all add: sampleDef_def sampleCols_def)
  have "denotes asciiLib (ExprText ''a'') TypeText (textValue ''a'')" "denotes asciiLib (ExprInt 1) TypeInteger (intValue 1)"
    unfolding exprToValue_denotes [symmetric] by (simp_all add: exprToValue_def)
  then show ?thesis
    by (auto simp: insertedRow_def updatedRow_def sample_names sample_columns types sampleRow_def All_less_Suc2 numeral_2_eq_2)
qed

theorem insert_then_select_witness:
  "\<exists>d d' r d''. sqlReach asciiLib 1 d
     \<and> execStmt asciiLib WriteOk (InsertStmt ''t'' [''name'', ''id''] [ExprText ''a'', ExprInt 1]) d = ((1, None), d')
     \<and> execSelect asciiLib ''t'' [SelectStar] [PredColumn ''id'' (ExprInt 1)] d' = (Inr r, d'') \<and> rwData r = [[intValue 1, textValue ''a'']]"
proof -
  obtain d where d: "sqlReach asciiLib 1 d" "fmlookup (tables d) ''t'' = Some sampleDef" "secIndexes d = fmempty"
    "\<forall>enc. current d (rowKey ''t'' enc) = None"
    by (rule sample_created)
  have "tableIndexes d ''t'' = {}" using d(3) by (simp add: tableIndexes_def)
  then have st: "stmtOk asciiLib d (InsertStmt ''t'' [''name'', ''id''] [ExprText ''a'', ExprInt 1])" by (simp add: sample_names)
  let ?c = "\<lparr>colName = ''id'', colTyp = TypeInteger, colPK = True\<rparr>"
  have "k \<notin> liveRows (current d) sampleDef" for k
    using d(4) by (auto simp: liveRows_def sampleDef_def prefix_def rowKey_split)
  then have empty: "hits asciiLib d sampleDef [PredColumn ''id'' (ExprInt 1)] = {}" by (simp add: hits_def)
  have args: "(1 :: nat) + 3 < 2 ^ 64" "fmlookup (tables d) (normalizeName asciiLib ''t'') = Some sampleDef" "length (encodeRow sampleRow) \<le> 4088"
    "normalizeName asciiLib ''id'' = colName ?c" "denotes asciiLib (ExprInt 1) (colTyp ?c) (sampleRow ! 0)" "\<not> vNull (sampleRow ! 0)"
    "nul \<notin> set (valuePrefix (sampleRow ! 0))"
    using d(2) sample_digit unfolding exprToValue_denotes [symmetric]
    by (simp_all add: sample_names exprToValue_def sampleRow_def valuePrefix_def encodeRow_def encodeValue_def zeroValue_def)
  have norm: "map normValue sampleRow = [intValue 1, textValue ''a'']" by (simp add: sampleRow_def normValue_def zeroValue_def)
  show ?thesis
    using insert_then_select [OF sample_lib d(1) args(1,2) st sample_inserted args(3) sample_columns(3) args(4-7) empty] d(1) norm by auto
qed

text \<open>
  C14. A statement that fails changes nothing: whatever the statement and the reason (unknown names,
  values that do not fit, a duplicate key, a row that is too long, a log that does not take the write),
  the data that transactions read and the table definitions are as before, and the caches still agree with
  them. The statement respects \<open>stmtOk\<close>.
\<close>

theorem failed_statement_changes_nothing:
  assumes "libFinite L" "sqlReach L n d" "n + 3 < 2 ^ 64" "stmtOk L d st" "execStmt L out st d = ((cnt, Some e), d')"
  shows "current d' = current d \<and> tables d' = tables d \<and> sqlInv L d'"
proof -
  have "n + 2 < 2 ^ 64" using assms(3) by simp
  note ok = reach_facts [OF assms(1,2) this]
  show ?thesis
    using execStmt_outcome [OF ok(1,3) assms(1,4), of out] assms(5) by (simp add: outcomeOk_def sqlNext_def)
qed

theorem failed_statement_changes_nothing_witness:
  "\<exists>d d'. sqlReach asciiLib 2 d \<and> execStmt asciiLib WriteOk (InsertStmt ''t'' [] [ExprInt 1, ExprText ''a'']) d = ((0, Some (ErrSQL ''duplicate primary key'')), d')
     \<and> current d' = current d \<and> sqlInv asciiLib d'"
proof -
  obtain d where d: "sqlReach asciiLib 2 d" "fmlookup (tables d) ''t'' = Some sampleDef" "secIndexes d = fmempty"
    "\<exists>page. \<forall>enc. current d (rowKey ''t'' enc) = (if rowKey ''t'' enc = sampleKey then Some page else None)"
    by (rule sample_filled) blast
  obtain page where page: "insertRow asciiLib sampleDef ''t'' [] [ExprInt 1, ExprText ''a''] = Inr (sampleRow, pkFromInt 1, sampleKey, page)"
    by (rule sample_insert)
  note ok = reach_facts [OF sample_lib d(1)]
  have free: "tableIndexes d ''t'' = {}" using d(3) by (simp add: tableIndexes_def)
  have there: "current d sampleKey \<noteq> None" using d(4) by (auto simp: sampleKey_def)
  obtain d' where "execInsert asciiLib WriteOk ''t'' [] [ExprInt 1, ExprText ''a''] d = ((0, Some (ErrSQL ''duplicate primary key'')), d')"
    by (rule execInsert_spec [OF _ _ sample_lib sample_names(1) d(2) page, where out = WriteOk]) (use ok free there in auto)
  then have ins: "execStmt asciiLib WriteOk (InsertStmt ''t'' [] [ExprInt 1, ExprText ''a'']) d = ((0, Some (ErrSQL ''duplicate primary key'')), d')"
    by (simp add: execStmt_def)
  have st: "stmtOk asciiLib d (InsertStmt ''t'' [] [ExprInt 1, ExprText ''a''])" using free by (simp add: sample_names)
  show ?thesis using failed_statement_changes_nothing [OF sample_lib d(1) _ st ins] d(1) ins by auto
qed

text \<open>
  C15. Everything survives a restart: take any database that is reached by statements whose writes
  succeed and that respect \<open>stmtOk\<close>, by queries, by compactions and by earlier restarts, where the keys are
  valid UTF-8 and no record exceeds the limit of the log. Opening its log file succeeds, with the same stored data, the same tables and index
  definitions, caches that agree with the rows, and the same answer to every SELECT.
\<close>

theorem sql_survives_reopen:
  assumes "libFinite L" "loggedReach L n d" "n + 2 < 2 ^ 64"
  shows "\<exists>d'. OpenWithOptions L (dbFile d) = Inr d' \<and> sqlInv L d' \<and> current d' = current d \<and> tables d' = tables d
    \<and> (\<forall>i. map_option siDef (fmlookup (secIndexes d') i) = map_option siDef (fmlookup (secIndexes d) i))
    \<and> (\<forall>tbl def whr. fmlookup (tables d) (normalizeName L tbl) = Some def \<longrightarrow> list_all (predOk L def) whr \<longrightarrow>
         (\<exists>r e r' e'. execSelect L tbl [SelectStar] whr d = (Inr r, e) \<and> execSelect L tbl [SelectStar] whr d' = (Inr r', e')
            \<and> rwColumns r = rwColumns r' \<and> mset (rwData r) = mset (rwData r')))"
proof -
  have dur: "durableSql L n d" by (rule loggedReach_ok [OF assms])
  obtain d' where d': "OpenWithOptions L (dbFile d) = Inr d'" "durableSql L n d'" "current d' = current d" "tables d' = tables d"
    "\<forall>i. map_option siDef (fmlookup (secIndexes d') i) = map_option siDef (fmlookup (secIndexes d) i)"
    by (rule reopen_ok [OF dur assms(3)])
  have ok: "sqlOk L d" "sqlInv L d" "sqlOk L d'" "sqlInv L d'" using dur d'(2) by (simp_all add: durableSql_def sqlOk_def)
  have "\<exists>r e r' e'. execSelect L tbl [SelectStar] whr d = (Inr r, e) \<and> execSelect L tbl [SelectStar] whr d' = (Inr r', e')
      \<and> rwColumns r = rwColumns r' \<and> mset (rwData r) = mset (rwData r')"
    if q: "fmlookup (tables d) (normalizeName L tbl) = Some def" "list_all (predOk L def) whr" for tbl def whr
  proof -
    have same: "hits L d' def whr = hits L d def whr" "fmlookup (tables d') (normalizeName L tbl) = Some def" using d'(3,4) q(1) by (simp_all add: hits_def)
    show ?thesis using select_star [OF ok(1,2) q] select_star [OF ok(3,4) same(2) q(2)] unfolding same(1) d'(3) by fastforce
  qed
  then show ?thesis using d' ok(4) by blast
qed

definition createRecord :: wrec where
  "createRecord = \<lparr>recVersion = 1, recOps = [\<lparr>opKey = catalogTableKey ''t'', opValue = marshalTable sampleDef, opDelete = False\<rparr>]\<rparr>"

lemma sample_logged:
  obtains d where "loggedReach asciiLib 1 d" "fmlookup (tables d) ''t'' = Some sampleDef"
proof -
  let ?k = "catalogTableKey ''t''" and ?v = "marshalTable sampleDef"
  obtain d0 d where d: "OpenWithOptions asciiLib [] = Inr d0" "stmtOk asciiLib d0 (CreateTableStmt ''t'' sampleCols)"
    "execStmt asciiLib WriteOk (CreateTableStmt ''t'' sampleCols) d0 = ((0, None), d)"
    "fmlookup (tables d) ''t'' = Some sampleDef" "current d = [?k \<mapsto> ?v]"
    by (rule sample_create)
  note o = open_empty [OF d(1)]
  have "roomFor 2 d0" using o(2) by (simp add: roomFor_def)
  then have "logged d0 d"
    using execStmt_outcome [OF o(1) _ sample_lib d(2), of WriteOk] d(3) by (simp add: outcomeOk_def sqlNext_def seqNext_def)
  then obtain t where t: "liveDeletes Map.empty (writes t)" "dbFile d = dbFile d0 @ encodeRecord (commitRecord t d0)" "writesKeyed t"
    "[?k \<mapsto> ?v] = content Map.empty (writes t)"
    using o(3) d(5) by (auto simp: logged_def)
  have w: "writes t = fmupd ?k \<lparr>opKey = ?k, opValue = ?v, opDelete = False\<rparr> fmempty"
  proof (rule fmap_ext)
    fix k
    show "fmlookup (writes t) k = fmlookup (fmupd ?k \<lparr>opKey = ?k, opValue = ?v, opDelete = False\<rparr> fmempty) k"
      using fun_cong [OF t(4), of k] t(1,3) by (auto simp: content_def liveDeletes_def writesKeyed_def split: option.splits if_splits)
  qed
  have "commitRecord t d0 = createRecord" using o(2) by (simp add: commitRecord_def w fmkeys_one createRecord_def)
  moreover have "length (marshalRecord createRecord) \<le> 1000" by code_simp
  ultimately have "length (dbFile d) \<le> length (dbFile d0) + 8 + unat maxRecordSize"
    using t(2) by (simp add: length_encodeRecord maxRecordSize_def)
  moreover have "textKeys (current d)" by (simp add: d(5) textKeys_def catalogTableKey_def reservedPrefix_def valid_utf8_ascii)
  ultimately have "loggedReach asciiLib (Suc 0) d" by (intro logged_exec [OF logged_new [OF d(1)] d(2,3)]) (simp add: logFits_def)
  then show thesis using that [of d] d(4) by simp
qed

theorem sql_survives_reopen_witness:
  "\<exists>d d'. loggedReach asciiLib 1 d \<and> OpenWithOptions asciiLib (dbFile d) = Inr d' \<and> fmlookup (tables d') ''t'' = Some sampleDef"
proof -
  obtain d where d: "loggedReach asciiLib 1 d" "fmlookup (tables d) ''t'' = Some sampleDef" by (rule sample_logged)
  then show ?thesis using sql_survives_reopen [OF sample_lib d(1)] by auto
qed

text \<open>
  C40. A NULL literal means two things: as the primary key of a table with an INTEGER key, NULL finds
  the row with key 0, because the fast path reads the zero integer of the NULL value; a scan with the
  same predicate never returns that row.
\<close>

theorem null_key_finds_zero:
  assumes "pkColumn def = Inr (c, i)" "colTyp c = TypeInteger" "normalizeName L col = colName c"
    and "columnIndex L def (colName c) = Inr i" "i < length vals" "vals ! i = intValue 0"
  shows "collectRows L def [PredColumn col ExprNull] t d = collectRows L def [PredColumn col (ExprInt 0)] t d
    \<and> matchWhere L def vals [PredColumn col ExprNull] = Inr False"
proof -
  have "pkEquality L c [PredColumn col e] = Some e" for e using assms(3) by (simp add: pkEquality_def)
  moreover have "rowByKey L def c ExprNull t d = rowByKey L def c (ExprInt 0) t d"
    using assms(2) by (simp add: rowByKey_def exprToValue_def pkOfValue_def zeroValue_def)
  moreover have "exprToValue L ExprNull ty = Inr (zeroValue\<lparr>vTyp := ty, vNull := True\<rparr>)" for ty by (simp add: exprToValue_def)
  ultimately show ?thesis
    using assms by (simp add: collectRows_def nthRes_def valuesEqual_def zeroValue_def)
qed

theorem null_key_finds_zero_witness:
  "(\<forall>t d. collectRows asciiLib sampleDef [PredColumn ''id'' ExprNull] t d = collectRows asciiLib sampleDef [PredColumn ''id'' (ExprInt 0)] t d)
   \<and> matchWhere asciiLib sampleDef [intValue 0, textValue ''a''] [PredColumn ''id'' ExprNull] = Inr False"
  using null_key_finds_zero [OF sample_columns(3), of asciiLib "''id''" "[intValue 0, textValue ''a'']"] sample_columns(1)
  by (simp add: sample_names del: matchWhere.simps)

end
