(* ===== verification/SqlText.thy ===== *)
theory SqlText
  imports SqlParse
begin

text \<open>
  What the parser guarantees. Every part of the grammar moves forward in the input, so the loops over
  lists end and the parser returns a statement or a syntax error for every text; and the statements
  it returns are well-formed. A part that can be an item of a list is an instance of the locale
  \<open>grammarItem\<close>, whose lemmas are about the list.
\<close>

named_theorems parse_rules "how the parts of the grammar move in the input"

section \<open>Moving forward\<close>

definition forward :: "parser \<Rightarrow> parser \<Rightarrow> bool" where
  \<comment> \<open>the rest is shorter, unless the current token is a number or the end of the input\<close>
  "forward p p' \<longleftrightarrow>
     \<not> pHasP p' \<and> restLen p' \<le> restLen p
     \<and> (tkKind (pTok p') \<notin> {TokEOF, TokNumber} \<longrightarrow> restLen p' < restLen p)"

definition moves :: "parser \<Rightarrow> ('a \<times> parser) res \<Rightarrow> bool" where
  "moves p r \<longleftrightarrow> \<not> pHasP p \<longrightarrow> (case r of Inl e \<Rightarrow> e \<noteq> Panic | Inr (x, p') \<Rightarrow> forward p p')"

definition keeps :: "parser \<Rightarrow> ('a \<times> parser) res \<Rightarrow> bool" where
  "keeps p r \<longleftrightarrow> \<not> pHasP p \<longrightarrow> (case r of Inl e \<Rightarrow> e \<noteq> Panic | Inr (x, p') \<Rightarrow> p' = p \<or> forward p p')"

definition steps :: "parser \<Rightarrow> parser res \<Rightarrow> bool" where
  "steps p r \<longleftrightarrow> \<not> pHasP p \<longrightarrow> (case r of Inl e \<Rightarrow> e \<noteq> Panic | Inr p' \<Rightarrow> forward p p')"

lemma forward_trans: "forward p p' \<Longrightarrow> forward p' p'' \<Longrightarrow> forward p p''"
  by (auto simp: forward_def)

lemma forward_peek: "forward p p' \<Longrightarrow> \<not> pHasP p'"
  by (simp add: forward_def)

lemma moves_fail [simp, parse_rules]: "e \<noteq> Panic \<Longrightarrow> moves p (Inl e)" "e \<noteq> Panic \<Longrightarrow> keeps p (Inl e)"
  by (simp_all add: moves_def keeps_def)

lemma keeps_return [parse_rules]: "keeps p (Inr (x, p))"
  by (simp add: keeps_def)

lemma moves_keeps: "moves p r \<Longrightarrow> keeps p r"
  by (auto simp: moves_def keeps_def split: sum.splits)

lemma moves_bind [parse_rules]:
  assumes "moves p r" "\<And>x p'. keeps p' (f (x, p'))"
  shows "moves p (ebind r f)"
proof (cases r)
  case (Inr y)
  obtain x p' where y: "y = (x, p')" by (cases y)
  show ?thesis
  proof (cases "pHasP p")
    case False
    then have "forward p p'" using assms(1) Inr y by (simp add: moves_def)
    then show ?thesis using assms(2) [of p' x] Inr y forward_trans forward_peek by (auto simp: moves_def keeps_def split: sum.splits)
  qed (simp add: moves_def)
qed (use assms(1) in \<open>simp add: moves_def\<close>)

lemma keeps_bind [parse_rules]:
  assumes "keeps p r" "\<And>x p'. keeps p' (f (x, p'))"
  shows "keeps p (ebind r f)"
proof (cases r)
  case (Inr y)
  obtain x p' where y: "y = (x, p')" by (cases y)
  show ?thesis
  proof (cases "pHasP p")
    case False
    then have "p' = p \<or> forward p p'" using assms(1) Inr y by (simp add: keeps_def)
    then show ?thesis using False assms(2) [of p' x] Inr y forward_trans forward_peek by (auto simp: keeps_def split: sum.splits)
  qed (simp add: keeps_def)
qed (use assms(1) in \<open>simp add: keeps_def\<close>)

lemma steps_bind [parse_rules]:
  assumes "steps p r" "\<And>p'. keeps p' (f p')"
  shows "moves p (ebind r f)" "keeps p (ebind r f)"
proof -
  show "moves p (ebind r f)"
  proof (cases r)
    case (Inr p')
    show ?thesis
    proof (cases "pHasP p")
      case False
      then have "forward p p'" using assms(1) Inr by (simp add: steps_def)
      then show ?thesis using assms(2) [of p'] Inr forward_trans forward_peek by (auto simp: moves_def keeps_def split: sum.splits)
    qed (simp add: moves_def)
  qed (use assms(1) in \<open>simp add: moves_def steps_def\<close>)
  then show "keeps p (ebind r f)" by (rule moves_keeps)
qed

lemma lexStringBody_fail: "lexStringBody start b l \<noteq> Inl Panic"
proof (induction start b l rule: lexStringBody.induct)
  case (1 start b l)
  then show ?case by (subst lexStringBody.simps) (simp add: Let_def)
qed

lemma nextToken_fail: "nextToken L l \<noteq> Inl Panic"
  using lexStringBody_fail by (simp add: nextToken_def Let_def lexString_def lexBlob_def lexNumber_def lexIdent_def split: option.split)

lemma advance_steps [parse_rules]: "steps p (advance L p)"
proof (cases "nextToken L (pLexer p)")
  case (Inl e)
  then show ?thesis using nextToken_fail [of L "pLexer p"] by (simp add: steps_def advance_def)
next
  case (Inr y)
  obtain t l where "y = (t, l)" by (cases y)
  then show ?thesis using nextToken_length [of L "pLexer p" t l] Inr by (auto simp: steps_def advance_def forward_def)
qed

lemma expect_steps [parse_rules]: "steps p (expectKeyword L kw p)" "steps p (expect L k label p)"
  using advance_steps [of p L] by (auto simp: expectKeyword_def expect_def steps_def)


section \<open>Lists of items\<close>

locale grammarItem =
  fixes item :: "parser \<Rightarrow> ('a \<times> parser) res" and shape :: "'a \<Rightarrow> bool"
  assumes item_moves: "moves p (item p)"
    and item_shape: "item p = Inr (x, p') \<Longrightarrow> shape x"
begin

lemma list_moves:
  assumes sep: "\<And>p. sep p \<Longrightarrow> tkKind (pTok p) \<notin> {TokEOF, TokNumber}"
  shows "moves p (sepList L item sep p)"
proof (induction p rule: measure_induct_rule [of restLen])
  case (less p)
  show ?case
  proof (cases "pHasP p")
    case False
    show ?thesis
    proof (cases "item p")
      case (Inl e)
      then show ?thesis using item_moves [of p] by (subst sepList.simps) (simp add: moves_def)
    next
      case (Inr y)
      obtain x p1 where y: "y = (x, p1)" by (cases y)
      have f: "forward p p1" using item_moves [of p] Inr y False by (simp add: moves_def)
      show ?thesis
      proof (cases "sep p1")
        case True
        then have lt: "restLen p1 < restLen p" using f sep by (auto simp: forward_def)
        show ?thesis
        proof (cases "advance L p1")
          case (Inl e)
          then show ?thesis using advance_steps [of p1 L] Inr y True lt forward_peek [OF f] by (subst sepList.simps) (simp add: steps_def)
        next
          case adv: (Inr p2)
          then have f2: "forward p1 p2" using advance_steps [of p1 L] forward_peek [OF f] by (simp add: steps_def)
          then have "restLen p2 < restLen p" using lt by (simp add: forward_def)
          then have "moves p2 (sepList L item sep p2)" by (rule less.IH)
          then show ?thesis
            using Inr y True lt adv forward_trans [OF forward_trans [OF f f2]] forward_peek [OF f2]
            by (subst sepList.simps) (auto simp: moves_def ebind_def split: sum.splits prod.splits)
        qed
      next
        case sepless: False
        then show ?thesis using Inr y f by (subst sepList.simps) (simp add: moves_def)
      qed
    qed
  qed (simp add: moves_def)
qed

lemma list_shape: "sepList L item sep p = Inr (xs, p') \<Longrightarrow> xs \<noteq> [] \<and> list_all shape xs"
proof (induction p arbitrary: xs rule: measure_induct_rule [of restLen])
  case (less p)
  obtain x p1 where x: "item p = Inr (x, p1)" using less.prems by (subst (asm) sepList.simps) (auto simp: res_simps)
  show ?case
  proof (cases "sep p1")
    case True
    then obtain p2 ys where "restLen p1 < restLen p" "advance L p1 = Inr p2" "sepList L item sep p2 = Inr (ys, p')" "xs = x # ys"
      using less.prems x by (subst (asm) sepList.simps) (auto simp: res_simps split: if_splits)
    then show ?thesis using less.IH [of p2 ys] item_shape [OF x] advance_length [of L p1 p2] by simp
  next
    case False
    then show ?thesis using less.prems x item_shape [OF x] by (subst (asm) sepList.simps) auto
  qed
qed

end

lemma separators: "atComma p \<Longrightarrow> tkKind (pTok p) \<notin> {TokEOF, TokNumber}" "atKeyword kw p \<Longrightarrow> tkKind (pTok p) \<notin> {TokEOF, TokNumber}"
  by (simp_all add: atComma_def atKeyword_def)


section \<open>The parts of the grammar\<close>

lemma parseIdent_moves [parse_rules]: "moves p (parseIdent L p)"
  by (auto simp: parseIdent_def intro!: parse_rules)

lemmas parseIdent_keeps [parse_rules] = parseIdent_moves [THEN moves_keeps]

lemma parseExpr_moves [parse_rules]: "moves p (parseExpr L p)"
proof -
  have "steps p (advance L (p\<lparr>pNArg := n\<rparr>))" for n
    using advance_steps [of "p\<lparr>pNArg := n\<rparr>" L] by (simp add: steps_def forward_def cong: sum.case_cong)
  then show ?thesis
    by (auto simp: parseExpr_def Let_def intro!: parse_rules split: tokenKind.split option.split)
qed

lemmas parseExpr_keeps [parse_rules] = parseExpr_moves [THEN moves_keeps]

lemma parseJSONPath_fail: "parseJSONPath L path \<noteq> Inl Panic"
proof -
  have "checkSegments L ss \<noteq> Inl Panic" for ss by (induction ss) simp_all
  then show ?thesis by (simp add: parseJSONPath_def Let_def res_simps)
qed

lemma checked_keeps: "r \<noteq> Inl Panic \<Longrightarrow> (\<And>x. keeps p (f x)) \<Longrightarrow> keeps p (ebind r f)"
  by (cases r) (simp_all add: keeps_def)

lemma parsePathString_moves [parse_rules]: "moves p (parsePathString L p)"
  by (auto simp: parsePathString_def Let_def intro!: parse_rules checked_keeps parseJSONPath_fail)

lemmas parsePathString_keeps [parse_rules] = parsePathString_moves [THEN moves_keeps]

lemma ebind_ebind: "ebind (ebind m f) g = ebind m (\<lambda>x. ebind (f x) g)"
  by (cases m) simp_all

lemma parseJSONExtractCall_moves [parse_rules]:
  "(\<And>col path p'. keeps p' (f col path p')) \<Longrightarrow> moves p (ebind (parseJSONExtractCall L p) (\<lambda>(col, path, p'). f col path p'))"
  by (auto simp: parseJSONExtractCall_def ebind_ebind intro!: parse_rules)

lemma parseJSONExtractCall_keeps [parse_rules]:
  "(\<And>col path p'. keeps p' (f col path p')) \<Longrightarrow> keeps p (ebind (parseJSONExtractCall L p) (\<lambda>(col, path, p'). f col path p'))"
  by (rule moves_keeps [OF parseJSONExtractCall_moves])

lemma parseSelectItem_moves [parse_rules]: "moves p (parseSelectItem L p)"
  by (auto simp: parseSelectItem_def intro!: parse_rules)

lemmas parseSelectItem_keeps [parse_rules] = parseSelectItem_moves [THEN moves_keeps]

lemma parsePred_moves [parse_rules]: "moves p (parsePred L p)"
  by (auto simp: parsePred_def intro!: parse_rules)

lemmas parsePred_keeps [parse_rules] = parsePred_moves [THEN moves_keeps]

lemma parseAssign_moves [parse_rules]: "moves p (parseAssign L p)"
  by (auto simp: parseAssign_def intro!: parse_rules)

lemmas parseAssign_keeps [parse_rules] = parseAssign_moves [THEN moves_keeps]

lemma parseColumnDef_moves [parse_rules]: "moves p (parseColumnDef L p)"
  by (auto simp: parseColumnDef_def Let_def intro!: parse_rules)

lemmas parseColumnDef_keeps [parse_rules] = parseColumnDef_moves [THEN moves_keeps]


section \<open>The shape of what is parsed\<close>

definition goodPath :: "golib \<Rightarrow> string \<Rightarrow> bool" where
  "goodPath L path \<longleftrightarrow> (\<exists>segs. parseJSONPath L path = Inr segs)"

fun itemWf :: "golib \<Rightarrow> selectItem \<Rightarrow> bool" where
  "itemWf L SelectStar \<longleftrightarrow> False"
| "itemWf L (SelectColumn c) \<longleftrightarrow> True"
| "itemWf L (SelectExtract c path) \<longleftrightarrow> goodPath L path"

fun predWf :: "golib \<Rightarrow> pred \<Rightarrow> bool" where
  "predWf L (PredColumn c e) \<longleftrightarrow> True"
| "predWf L (PredExtract c path e) \<longleftrightarrow> goodPath L path"

definition columnWf :: "ColumnDef \<Rightarrow> bool" where
  "columnWf c \<longleftrightarrow>
     colTyp c \<in> {TypeInteger, TypeText, TypeBlob, TypeJSON} \<and> (colPK c \<longrightarrow> colTyp c \<in> {TypeInteger, TypeText})"

fun stmtWf :: "golib \<Rightarrow> stmt \<Rightarrow> bool" where
  "stmtWf L (CreateTableStmt name cols) \<longleftrightarrow> list_all columnWf cols \<and> length (filter colPK cols) = 1"
| "stmtWf L (InsertStmt tbl cols vals) \<longleftrightarrow> vals \<noteq> []"
| "stmtWf L (SelectStmt tbl cols whr) \<longleftrightarrow>
     cols \<noteq> [] \<and> (cols = [SelectStar] \<or> list_all (itemWf L) cols) \<and> list_all (predWf L) whr"
| "stmtWf L (UpdateStmt tbl sets whr) \<longleftrightarrow> sets \<noteq> [] \<and> list_all (predWf L) whr"
| "stmtWf L (DeleteStmt tbl whr) \<longleftrightarrow> list_all (predWf L) whr"
| "stmtWf L (CreateIndexStmt ix tbl col path) \<longleftrightarrow> path = [] \<or> goodPath L path"
| "stmtWf L _ \<longleftrightarrow> True"

lemma parsePathString_path: "parsePathString L p = Inr (path, p') \<Longrightarrow> goodPath L path"
  by (auto simp: parsePathString_def goodPath_def Let_def res_simps split: if_splits)

lemma parseJSONExtractCall_path: "parseJSONExtractCall L p = Inr (col, path, p') \<Longrightarrow> goodPath L path"
  by (auto simp: parseJSONExtractCall_def res_simps dest: parsePathString_path)

lemma parseSelectItem_shape: "parseSelectItem L p = Inr (x, p') \<Longrightarrow> itemWf L x"
  by (auto simp: parseSelectItem_def res_simps dest: parseJSONExtractCall_path split: if_splits)

lemma parsePred_shape: "parsePred L p = Inr (x, p') \<Longrightarrow> predWf L x"
  by (auto simp: parsePred_def res_simps dest: parseJSONExtractCall_path split: if_splits)

lemma parseColumnDef_shape: "parseColumnDef L p = Inr (c, p') \<Longrightarrow> columnWf c"
  by (auto simp: parseColumnDef_def columnWf_def Let_def res_simps split: if_splits)

interpretation idents: grammarItem "parseIdent L" "\<lambda>_. True" for L
  by unfold_locales (simp_all add: parse_rules)

interpretation exprs: grammarItem "parseExpr L" "\<lambda>_. True" for L
  by unfold_locales (simp_all add: parse_rules)

interpretation assigns: grammarItem "parseAssign L" "\<lambda>_. True" for L
  by unfold_locales (simp_all add: parse_rules)

interpretation selectItems: grammarItem "parseSelectItem L" "itemWf L" for L
  by unfold_locales (rule parseSelectItem_moves, rule parseSelectItem_shape)

interpretation preds: grammarItem "parsePred L" "predWf L" for L
  by unfold_locales (rule parsePred_moves, rule parsePred_shape)

interpretation columns: grammarItem "parseColumnDef L" columnWf for L
  by unfold_locales (rule parseColumnDef_moves, rule parseColumnDef_shape)

lemmas lists_move [parse_rules] =
  idents.list_moves [OF separators(1)] exprs.list_moves [OF separators(1)] assigns.list_moves [OF separators(1)]
  selectItems.list_moves [OF separators(1)] columns.list_moves [OF separators(1)] preds.list_moves [OF separators(2)]

lemmas lists_keep [parse_rules] = lists_move [THEN moves_keeps]


section \<open>Statements\<close>

lemma keeps_if [parse_rules]: "(b \<Longrightarrow> keeps p r) \<Longrightarrow> (\<not> b \<Longrightarrow> keeps p r') \<Longrightarrow> keeps p (if b then r else r')"
  by simp

lemma where_keeps [parse_rules]: "keeps p (parseWhereOptional L p)"
  unfolding parseWhereOptional_def by (intro parse_rules)

lemma insertColumns_keeps [parse_rules]: "keeps p (parseInsertColumns L p)"
  by (auto simp: parseInsertColumns_def intro!: parse_rules)

lemma createIndex_keeps [parse_rules]: "keeps p (parseCreateIndex L p)"
  by (auto simp: parseCreateIndex_def intro!: parse_rules)

lemma create_keeps: "keeps p (parseCreate L p)"
  by (auto simp: parseCreate_def intro!: parse_rules)

lemma dropIndex_keeps [parse_rules]: "keeps p (parseDropIndex L p)"
  by (auto simp: parseDropIndex_def intro!: parse_rules)

lemma drop_keeps: "keeps p (parseDrop L p)"
  by (auto simp: parseDrop_def intro!: parse_rules)

lemma insert_keeps: "keeps p (parseInsert L p)"
  by (auto simp: parseInsert_def intro!: parse_rules)

lemma select_keeps: "keeps p (parseSelect L p)"
  by (auto simp: parseSelect_def intro!: parse_rules)

lemma update_keeps: "keeps p (parseUpdate L p)"
  by (auto simp: parseUpdate_def intro!: parse_rules)

lemma delete_keeps: "keeps p (parseDelete L p)"
  by (auto simp: parseDelete_def intro!: parse_rules)

lemma parseStmt_keeps: "keeps p (parseStmt L p)"
  using create_keeps drop_keeps insert_keeps select_keeps update_keeps delete_keeps by (simp add: parseStmt_def Let_def)

lemma where_shape: "parseWhereOptional L p = Inr (whr, p') \<Longrightarrow> list_all (predWf L) whr"
  by (auto simp: parseWhereOptional_def res_simps dest: preds.list_shape split: if_splits)

lemma create_shape: "parseCreate L p = Inr (st, p') \<Longrightarrow> stmtWf L st"
  by (auto simp: parseCreate_def parseCreateIndex_def res_simps dest: columns.list_shape parsePathString_path split: if_splits)

lemma drop_shape: "parseDrop L p = Inr (st, p') \<Longrightarrow> stmtWf L st"
  by (auto simp: parseDrop_def parseDropIndex_def res_simps split: if_splits)

lemma insert_shape: "parseInsert L p = Inr (st, p') \<Longrightarrow> stmtWf L st"
  by (auto simp: parseInsert_def res_simps dest: exprs.list_shape)

lemma select_shape: "parseSelect L p = Inr (st, p') \<Longrightarrow> stmtWf L st"
  by (auto simp: parseSelect_def res_simps dest: selectItems.list_shape where_shape split: if_splits)

lemma update_shape: "parseUpdate L p = Inr (st, p') \<Longrightarrow> stmtWf L st"
  by (auto simp: parseUpdate_def res_simps dest: assigns.list_shape where_shape)

lemma delete_shape: "parseDelete L p = Inr (st, p') \<Longrightarrow> stmtWf L st"
  by (auto simp: parseDelete_def res_simps dest: where_shape)

lemma parseStmt_shape: "parseStmt L p = Inr (st, p') \<Longrightarrow> stmtWf L st"
  using create_shape drop_shape insert_shape select_shape update_shape delete_shape
  by (simp add: parseStmt_def Let_def split: if_splits)


section \<open>Properties\<close>

text \<open>
  C21. The parser always answers: for every text, whatever the Unicode tables, it returns a statement or
  a syntax error. In particular its loops end, because every item that a comma or \<open>AND\<close> follows has
  consumed input.
\<close>

theorem parser_total: "parseSQL L src \<noteq> Inl Panic"
proof -
  let ?p0 = "\<lparr>pLexer = newLexer src, pTok = zeroToken, pPeek = zeroToken, pHasP = False, pNArg = 0\<rparr>"
  have "keeps ?p0 (ebind (advance L ?p0) (parseStmt L))" by (intro parse_rules parseStmt_keeps)
  then have "ebind (advance L ?p0) (parseStmt L) \<noteq> Inl Panic" by (auto simp: keeps_def)
  moreover have "advance L p \<noteq> Inl Panic" if "\<not> pHasP p" for p
    using advance_steps [of p L] that by (auto simp: steps_def)
  moreover have "\<not> pHasP p'" if "ebind (advance L ?p0) (parseStmt L) = Inr (st, p')" for st p'
    using \<open>keeps ?p0 (ebind (advance L ?p0) (parseStmt L))\<close> that by (auto simp: keeps_def forward_def)
  ultimately show ?thesis
    unfolding parseSQL_def by (fastforce simp: res_simps split: if_splits)
qed

text \<open>
  C22. Parsed statements are well-formed: a CREATE TABLE has exactly one primary key, of type INTEGER or
  TEXT, and only the four column types; an INSERT has values, an UPDATE assignments, a SELECT columns
  (all of them, or a list without a star); every JSON path has passed the check that \<open>json_extract\<close> makes.
\<close>

theorem parsed_well_formed:
  assumes "parseSQL L src = Inr st"
  shows "stmtWf L st"
  using assms parseStmt_shape by (auto simp: parseSQL_def res_simps split: if_splits)

lemma isSpace_ascii [code]:
  "isSpace r \<longleftrightarrow>
     (if r < 128 then 9 \<le> r \<and> r \<le> 13 \<or> r = 32
      else r = 133 \<or> r = 160 \<or> r = 5760 \<or> 8192 \<le> r \<and> r \<le> 8202 \<or> r = 8232 \<or> r = 8233 \<or> r = 8239 \<or> r = 8287 \<or> r = 12288)"
  by (simp add: isSpace_def)

theorem parsed_well_formed_witness:
  "stmtWf asciiLib (CreateTableStmt ''t'' [\<lparr>colName = ''id'', colTyp = TypeInteger, colPK = True\<rparr>])"
proof (rule parsed_well_formed)
  show "parseSQL asciiLib ''create table t(id integer primary key)'' =
      Inr (CreateTableStmt ''t'' [\<lparr>colName = ''id'', colTyp = TypeInteger, colPK = True\<rparr>])"
    by code_simp
qed

end
