(* ===== verification/Checkpoint.thy ===== *)
theory Checkpoint
  imports Mvcc
begin

text \<open>
  The background checkpoint worker of \<open>checkpoint.go\<close>. Its goroutine waits for the ticker or for the
  \<open>stop\<close> channel; the run-time system chooses which of them, and what the clients do in between. The
  system is therefore the one of \<open>Mvcc\<close> with the worker beside it, and a run is any sequence of ticks,
  client calls and the stop that \<open>Close\<close> asks for. The worker never leaves its critical section open,
  counts no more checkpoints than there were compactions, and takes a checkpoint that is due at the
  first tick at which the file system lets it.
\<close>

section \<open>The worker\<close>

definition newCheckpointWorker :: "options \<Rightarrow> checkpointWorker" where
  "newCheckpointWorker opts = \<lparr>ckOpts = opts, ckRunning = False, ckCheckpoints = 0, ckLastCommits = 0\<rparr>"

record ckSys =
  ckAlive :: bool             \<comment> \<open>the goroutine is in its loop\<close>
  ckWorker :: checkpointWorker
  ckStore :: sys

datatype ckEvent =
    CkTick compactOutcome     \<comment> \<open>\<open>ticker.C\<close> fires; the outcome is that of the compaction, if there is one\<close>
  | CkStop                    \<comment> \<open>\<open>stop\<close> is closed\<close>
  | CkCall event              \<comment> \<open>a call by some client\<close>

definition ckStart :: "checkpointWorker \<Rightarrow> sys \<Rightarrow> ckSys" where
  \<comment> \<open>\<open>start\<close>, up to the loop: \<open>lastCommits\<close> is the counter at that moment\<close>
  "ckStart w s = \<lparr>ckAlive = True, ckWorker = w\<lparr>ckLastCommits := commits (sdb s)\<rparr>, ckStore = s\<rparr>"

fun ckLoop :: "ckSys \<Rightarrow> ckEvent \<Rightarrow> ckSys" where
  "ckLoop c (CkTick out) =
     (if ckAlive c then
        (case maybeCheckpoint out (ckWorker c) (sdb (ckStore c)) of (w, d) \<Rightarrow>
           c\<lparr>ckWorker := w, ckStore := (ckStore c)\<lparr>sdb := d\<rparr>\<rparr>)
      else c)"
| "ckLoop c CkStop = c\<lparr>ckAlive := False\<rparr>"
| "ckLoop c (CkCall e) = c\<lparr>ckStore := fst (sysStep (ckStore c) e)\<rparr>"

definition ckRun :: "ckSys \<Rightarrow> ckEvent list \<Rightarrow> ckSys" where
  "ckRun = foldl ckLoop"

definition ckClose :: "bool \<Rightarrow> ckSys \<Rightarrow> err option \<times> ckSys" where
  \<comment> \<open>\<open>DB.Close\<close> with a worker: the database is marked closed, the worker is stopped and waited for, and
      the file is closed\<close>
  "ckClose ok c =
     (case dbClose ok (sdb (ckStore c)) of (e, d) \<Rightarrow>
        (e, c\<lparr>ckAlive := ckAlive c \<and> dbClosed (sdb (ckStore c)), ckStore := (ckStore c)\<lparr>sdb := d\<rparr>\<rparr>))"


section \<open>Lemmas\<close>

lemma ckRun_simps [simp]: "ckRun c [] = c" "ckRun c (e # es) = ckRun (ckLoop c e) es" "ckRun c (es @ fs) = ckRun (ckRun c es) fs"
  by (simp_all add: ckRun_def)

lemma maybeCheckpoint_worker:
  "maybeCheckpoint out w d = (w', d') \<Longrightarrow> ckRunning w' = ckRunning w \<and> ckOpts w' = ckOpts w"
  by (auto simp: maybeCheckpoint_def split: if_splits prod.splits option.splits)

lemma ckLoop_worker: "ckRunning (ckWorker (ckLoop c e)) = ckRunning (ckWorker c) \<and> ckOpts (ckWorker (ckLoop c e)) = ckOpts (ckWorker c)"
  by (cases e) (auto dest: maybeCheckpoint_worker split: prod.splits)

lemma ckRun_worker: "ckRunning (ckWorker (ckRun c es)) = ckRunning (ckWorker c) \<and> ckOpts (ckWorker (ckRun c es)) = ckOpts (ckWorker c)"
  by (induction es arbitrary: c) (simp_all add: ckLoop_worker)

text \<open>A worker that was stopped does nothing any more.\<close>

lemma ckRun_stopped: "\<not> ckAlive c \<Longrightarrow> ckWorker (ckRun c es) = ckWorker c \<and> \<not> ckAlive (ckRun c es)"
proof (induction es arbitrary: c)
  case (Cons e es)
  then have "\<not> ckAlive (ckLoop c e)" "ckWorker (ckLoop c e) = ckWorker c" by (cases e; simp)+
  then show ?case using Cons.IH by simp
qed simp

text \<open>
  \<open>Close\<close> stops the worker, but not when the database is marked closed already, as it is after a compaction
  that could not reopen the new log: then the goroutine goes on ticking.
\<close>

lemma ckClose_alive: "ckAlive (snd (ckClose ok c)) \<longleftrightarrow> ckAlive c \<and> dbClosed (sdb (ckStore c))"
  by (simp add: ckClose_def split: prod.split)

lemma reopen_failure_keeps_worker:
  assumes "ckAlive c" "\<not> ckRunning (ckWorker c)" "\<not> dbClosed (sdb (ckStore c))" "fileOpen (sdb (ckStore c))"
    "checkpointDue (ckWorker c) (sdb (ckStore c))"
  shows "ckAlive (snd (ckClose ok (ckLoop c (CkTick ReopenFails))))"
  using assms by (simp add: ckClose_alive maybeCheckpoint_def compact_def Let_def)

lemma pruneHistory_fields [simp]:
  "commits (pruneHistory r d) = commits d" "dbClosed (pruneHistory r d) = dbClosed d" "fileOpen (pruneHistory r d) = fileOpen d"
  "dbFile (pruneHistory r d) = dbFile d" "compactions (pruneHistory r d) = compactions d"
  by (simp_all add: pruneHistory_def Let_def)

definition ckDue :: "ckSys \<Rightarrow> bool" where
  \<comment> \<open>the worker is waiting, the database is open, and one of the thresholds is reached\<close>
  "ckDue c \<longleftrightarrow>
     ckAlive c \<and> \<not> ckRunning (ckWorker c) \<and> \<not> dbClosed (sdb (ckStore c)) \<and> fileOpen (sdb (ckStore c))
     \<and> checkpointDue (ckWorker c) (sdb (ckStore c))"

lemma failed_tick:
  assumes "ckDue c"
  shows "ckDue (ckLoop c (CkTick TmpFails))" "ckWorker (ckLoop c (CkTick TmpFails)) = ckWorker c"
    "compactions (sdb (ckStore (ckLoop c (CkTick TmpFails)))) = compactions (sdb (ckStore c))"
    "commits (sdb (ckStore (ckLoop c (CkTick TmpFails)))) = commits (sdb (ckStore c))"
  using assms by (simp_all add: ckDue_def maybeCheckpoint_def compact_def Let_def checkpointDue_def)

lemma failed_ticks:
  "ckDue c \<Longrightarrow> ckDue (ckRun c (replicate k (CkTick TmpFails))) \<and> ckWorker (ckRun c (replicate k (CkTick TmpFails))) = ckWorker c
     \<and> compactions (sdb (ckStore (ckRun c (replicate k (CkTick TmpFails))))) = compactions (sdb (ckStore c))
     \<and> commits (sdb (ckStore (ckRun c (replicate k (CkTick TmpFails))))) = commits (sdb (ckStore c))"
  by (induction k arbitrary: c) (simp_all add: failed_tick del: ckLoop.simps)

lemma good_tick:
  assumes "ckDue c"
  shows "ckWorker (ckLoop c (CkTick CompactOk)) =
      (ckWorker c)\<lparr>ckCheckpoints := ckCheckpoints (ckWorker c) + 1, ckLastCommits := commits (sdb (ckStore c))\<rparr>"
    "compactions (sdb (ckStore (ckLoop c (CkTick CompactOk)))) = compactions (sdb (ckStore c)) + 1"
  using assms by (auto simp: ckDue_def maybeCheckpoint_def compact_def Let_def)


section \<open>Properties\<close>

text \<open>
  C23. A checkpoint that is due is taken: start the worker on any database and let it run beside the
  clients; whenever it has not been stopped, the database is open and a threshold is reached (enough
  commits since the last checkpoint, or a long log), then, after any number of ticks at which the
  temporary file cannot be written, the first tick at which the file system answers well performs the
  compaction, counts one checkpoint and restarts the count of commits.
\<close>

theorem checkpoint_taken:
  fixes k :: nat
  assumes "c = ckRun (ckStart (newCheckpointWorker opts) s) es" "ckAlive c"
    and "\<not> dbClosed (sdb (ckStore c))" "fileOpen (sdb (ckStore c))"
    and "checkpointEveryCommit opts \<le> commits (sdb (ckStore c)) - ckLastCommits (ckWorker c)
       \<or> sint (checkpointMinBytes opts) \<le> int (length (dbFile (sdb (ckStore c))))"
  defines "c' \<equiv> ckRun c (replicate k (CkTick TmpFails) @ [CkTick CompactOk])"
  shows "ckCheckpoints (ckWorker c') = ckCheckpoints (ckWorker c) + 1
    \<and> compactions (sdb (ckStore c')) = compactions (sdb (ckStore c)) + 1
    \<and> ckLastCommits (ckWorker c') = commits (sdb (ckStore c))"
proof -
  have w: "\<not> ckRunning (ckWorker c)" "ckOpts (ckWorker c) = opts"
    using ckRun_worker [of "ckStart (newCheckpointWorker opts) s" es] by (simp_all add: assms(1) ckStart_def newCheckpointWorker_def)
  have due: "ckDue c" using assms(2-5) w by (auto simp: ckDue_def checkpointDue_def)
  note f = failed_ticks [OF due, of k]
  show ?thesis using good_tick(1,2) [OF f [THEN conjunct1]] f by (simp add: c'_def del: ckLoop.simps)
qed

theorem checkpoint_taken_witness:
  "ckCheckpoints (ckWorker (ckRun (ckStart (newCheckpointWorker (DefaultOptions\<lparr>checkpointMinBytes := 0\<rparr>)) (initSys (emptyDb [])))
     (replicate 2 (CkTick TmpFails) @ [CkTick CompactOk]))) = 1"
proof -
  let ?c = "ckStart (newCheckpointWorker (DefaultOptions\<lparr>checkpointMinBytes := 0\<rparr>)) (initSys (emptyDb []))"
  have c: "?c = ckRun ?c []" "ckAlive ?c" "\<not> dbClosed (sdb (ckStore ?c))" "fileOpen (sdb (ckStore ?c))"
    "sint (checkpointMinBytes (DefaultOptions\<lparr>checkpointMinBytes := 0\<rparr>)) \<le> int (length (dbFile (sdb (ckStore ?c))))"
    "ckCheckpoints (ckWorker ?c) = 0"
    by (simp_all add: ckStart_def initSys_def emptyDb_def newCheckpointWorker_def)
  show ?thesis using checkpoint_taken [OF c(1-4) disjI2 [OF c(5)], of 2] c(6) by simp
qed

end
