(* ===== verification/Server.thy ===== *)
theory Server
  imports SqlLayer
begin

text \<open>
  The HTTP interface: \<open>server.go\<close>. A request is its method, its path, and its body; a response is a
  status, the \<open>Allow\<close> header when there is one, and what is written: text, bytes, or the value that is
  encoded as JSON. \<open>serve\<close> is \<open>Handler\<close> with the multiplexer of \<open>net/http\<close> in front: a path that is not
  in canonical form is answered by a redirection, a pattern that ends in a slash covers the paths below
  it, and a path without a pattern is not found. What the file system answers is an argument.
\<close>

section \<open>Requests and responses\<close>

record request =
  rqMethod :: string
  rqEscaped :: string     \<comment> \<open>\<open>r.URL.EscapedPath()\<close>, with well-formed escapes\<close>
  rqBody :: bytes
  rqBroken :: bool        \<comment> \<open>reading the body ends with an error instead of the end of the input\<close>

datatype body =
    NoBody
  | Text string           \<comment> \<open>a fixed text\<close>
  | ErrText err           \<comment> \<open>\<open>err.Error()\<close>\<close>
  | BadInput              \<comment> \<open>the message of an error in the request body\<close>
  | Raw bytes
  | MetricsJson metrics
  | RowsJson "string list" "scanned list list"   \<comment> \<open>\<open>columns\<close> and \<open>rows\<close>\<close>
  | AffectedJson nat      \<comment> \<open>\<open>rows_affected\<close>\<close>

record response =
  rsStatus :: nat
  rsAllow :: "string option"
  rsBody :: body

record world =
  \<comment> \<open>what the file system answers, and the counter of the checkpoint worker\<close>
  onWrite :: writeOutcome
  onCompact :: compactOutcome
  ckpts :: u64

fun pathUnescape :: "string \<Rightarrow> string" where
  \<comment> \<open>\<open>url.PathUnescape\<close>\<close>
  "pathUnescape (CHR ''%'' # a # b # s) =
     (case (hexval a, hexval b) of
        (Some h, Some l) \<Rightarrow> char_of (16 * h + l) # pathUnescape s
      | _ \<Rightarrow> CHR ''%'' # pathUnescape (a # b # s))"
| "pathUnescape (c # s) = c # pathUnescape s"
| "pathUnescape [] = []"

definition rqPath :: "request \<Rightarrow> string" where
  \<comment> \<open>\<open>r.URL.Path\<close>\<close>
  "rqPath r = pathUnescape (rqEscaped r)"

definition reply :: "nat \<Rightarrow> body \<Rightarrow> response" where
  "reply st b = \<lparr>rsStatus = st, rsAllow = None, rsBody = b\<rparr>"

definition notAllowed :: "string \<Rightarrow> response" where
  "notAllowed ms = \<lparr>rsStatus = 405, rsAllow = Some ms, rsBody = Text ''method not allowed''\<rparr>"

definition limitRead :: "nat \<Rightarrow> request \<Rightarrow> bytes \<times> bool" where
  \<comment> \<open>\<open>io.LimitReader(r.Body, n)\<close> read to its end: the limit looks like the end of the input\<close>
  "limitRead n r = (take n (rqBody r), rqBroken r \<and> length (rqBody r) < n)"

definition sqlBodyLimit :: nat where "sqlBodyLimit = 2 ^ 20"

definition kvBodyLimit :: nat where "kvBodyLimit = 16 * 2 ^ 20"


section \<open>The body of an SQL request\<close>

fun numbersFit :: "golib \<Rightarrow> json \<Rightarrow> bool" where
  \<comment> \<open>every number inside a value that is decoded to an \<open>any\<close> is a \<open>float64\<close>\<close>
  "numbersFit L (JNum s) \<longleftrightarrow> fParse L s \<noteq> None"
| "numbersFit L (JArr vs) \<longleftrightarrow> list_all (numbersFit L) vs"
| "numbersFit L (JObj ms) \<longleftrightarrow> list_all (\<lambda>m. numbersFit L (snd m)) ms"
| "numbersFit L _ \<longleftrightarrow> True"

definition jsonArg :: "golib \<Rightarrow> json \<Rightarrow> arg option" where
  \<comment> \<open>an element of \<open>args\<close>; \<open>None\<close> for a decoding error\<close>
  "jsonArg L j =
     (if \<not> numbersFit L j then None
      else
        (case j of
           JNull \<Rightarrow> Some ArgNil
         | JNum s \<Rightarrow> map_option ArgFloat (fParse L s)
         | JStr s \<Rightarrow> Some (ArgText s)
         | _ \<Rightarrow> Some ArgOther))"

fun jsonArgs :: "golib \<Rightarrow> json list \<Rightarrow> arg list option" where
  "jsonArgs L [] = Some []"
| "jsonArgs L (j # js) =
     (case (jsonArg L j, jsonArgs L js) of (Some a, Some as) \<Rightarrow> Some (a # as) | _ \<Rightarrow> None)"

definition reqField :: "golib \<Rightarrow> string \<Rightarrow> string option" where
  \<comment> \<open>the field a member is decoded to: by its exact name, or else ignoring case\<close>
  "reqField L key =
     (if key = ''sql'' \<or> key = ''args'' then Some key
      else if equalFold L key ''sql'' then Some ''sql''
      else if equalFold L key ''args'' then Some ''args''
      else None)"

fun decodeMembers :: "golib \<Rightarrow> (string \<times> json) list \<Rightarrow> string \<times> arg list \<Rightarrow> (string \<times> arg list) option" where
  "decodeMembers L [] r = Some r"
| "decodeMembers L ((key, v) # ms) (sql, args) =
     (if reqField L key = Some ''sql'' then
        (case v of
           JNull \<Rightarrow> decodeMembers L ms (sql, args)
         | JStr s \<Rightarrow> decodeMembers L ms (s, args)
         | _ \<Rightarrow> None)
      else if reqField L key = Some ''args'' then
        (case v of
           JNull \<Rightarrow> decodeMembers L ms (sql, [])
         | JArr vs \<Rightarrow> (case jsonArgs L vs of None \<Rightarrow> None | Some as \<Rightarrow> decodeMembers L ms (sql, as))
         | _ \<Rightarrow> None)
      else decodeMembers L ms (sql, args))"

definition decodeRequest :: "golib \<Rightarrow> request \<Rightarrow> (string \<times> arg list) option" where
  \<comment> \<open>\<open>json.NewDecoder(...).Decode(&req)\<close>: one value, what follows it is not read\<close>
  "decodeRequest L r =
     (case limitRead sqlBodyLimit r of (b, broken) \<Rightarrow>
        (case json_first b of
           Some (JObj ms, rest) \<Rightarrow> decodeMembers L ms ([], [])
         | Some (JNull, rest) \<Rightarrow> if broken \<and> rest = [] then None else Some ([], [])
         | _ \<Rightarrow> None))"

definition trimRunes :: "nat list \<Rightarrow> nat list" where
  "trimRunes rs = rev (dropWhile isSpace (rev (dropWhile isSpace rs)))"

definition upperTrimmed :: "golib \<Rightarrow> string \<Rightarrow> string" where
  \<comment> \<open>\<open>strings.ToUpper(strings.TrimSpace(s))\<close>\<close>
  "upperTrimmed L s = concat (map (\<lambda>r. encodeRune (upperRune L r)) (trimRunes (runes s)))"


section \<open>Handlers\<close>

function scanAll :: "golib \<Rightarrow> rows \<Rightarrow> scanned list list res" where
  \<comment> \<open>the loop over the result rows, each scanned into values of type \<open>any\<close>\<close>
  "scanAll L r =
     (case rowsNext r of
        (False, r1) \<Rightarrow> Inr []
      | (True, r1) \<Rightarrow>
          ebind (rowsScan L (map (\<lambda>_. DestAny) (rwColumns r1)) r1) (\<lambda>row.
          ebind (scanAll L r1) (\<lambda>rest. Inr (row # rest))))"
  by pat_completeness auto
termination
  by (relation "measure (\<lambda>(L, r). nat (int (length (rwData r)) - rwI r))")
    (auto simp: rowsNext_def split: if_splits)

declare scanAll.simps [simp del]

definition sqlError :: "err \<Rightarrow> response" where
  \<comment> \<open>\<open>writeSQLErr\<close>; a panic of the handler is recovered by \<open>net/http\<close>, which closes the connection\<close>
  "sqlError e =
     (if e = Panic then reply 0 NoBody
      else if e = ErrConflict then reply 409 (ErrText e)
      else reply 400 (ErrText e))"

definition handleCompact :: "world \<Rightarrow> request \<Rightarrow> sqldb \<Rightarrow> response \<times> sqldb" where
  \<comment> \<open>\<open>/v1/checkpoint\<close> and \<open>/v1/compact\<close>\<close>
  "handleCompact wd r d =
     (if rqMethod r \<noteq> ''POST'' then (notAllowed ''POST'', d)
      else
        (case compact (onCompact wd) d of
           (Some e, d1) \<Rightarrow> (reply 500 (ErrText e), d1)
         | (None, d1) \<Rightarrow> (reply 204 NoBody, d1)))"

definition handleSql :: "golib \<Rightarrow> world \<Rightarrow> request \<Rightarrow> sqldb \<Rightarrow> response \<times> sqldb" where
  "handleSql L wd r d =
     (if rqMethod r \<noteq> ''POST'' then (notAllowed ''POST'', d)
      else
        (case decodeRequest L r of
           None \<Rightarrow> (reply 400 BadInput, d)
         | Some (sql, args) \<Rightarrow>
             if hasPrefix (upperTrimmed L sql) ''SELECT'' then
               (case dbQuery L sql args d of
                  (Inl e, d1) \<Rightarrow> (sqlError e, d1)
                | (Inr rs, d1) \<Rightarrow>
                    (case scanAll L rs of
                       Inl e \<Rightarrow> (sqlError e, d1)
                     | Inr out \<Rightarrow> (reply 200 (RowsJson (rwColumns rs) out), d1)))
             else
               (case dbExec L (onWrite wd) sql args d of
                  ((n, Some e), d1) \<Rightarrow> (sqlError e, d1)
                | ((n, None), d1) \<Rightarrow> (reply 200 (AffectedJson n), d1))))"

definition getTx :: "string \<Rightarrow> tx \<Rightarrow> sqldb \<Rightarrow> err option \<times> bytes option \<times> tx \<times> sqldb" where
  "getTx key t d = (case txGet key t d of (v, d1) \<Rightarrow> (None, v, t, d1))"

definition writeTx :: "(tx \<Rightarrow> err option \<times> tx) \<Rightarrow> tx \<Rightarrow> sqldb \<Rightarrow> err option \<times> unit \<times> tx \<times> sqldb" where
  "writeTx f t d = (case f t of (e, t1) \<Rightarrow> (e, (), t1, d))"

definition writeReply :: "err option \<times> unit \<times> sqldb \<Rightarrow> response \<times> sqldb" where
  "writeReply x =
     (case x of
        (Some e, _, d) \<Rightarrow> (reply (if e = ErrConflict then 409 else 500) (ErrText e), d)
      | (None, _, d) \<Rightarrow> (reply 204 NoBody, d))"

definition handleKv :: "world \<Rightarrow> request \<Rightarrow> sqldb \<Rightarrow> response \<times> sqldb" where
  "handleKv wd r d =
     (let key = drop (length ''/v1/kv/'') (rqPath r) in
      if key = [] then (reply 400 (Text ''key is required''), d)
      else if rqMethod r = ''GET'' then
        (case dbView None (getTx key) d of
           (Some e, _, d1) \<Rightarrow> (reply 500 (ErrText e), d1)
         | (None, None, d1) \<Rightarrow> (reply 404 (Text ''not found''), d1)
         | (None, Some v, d1) \<Rightarrow> (reply 200 (Raw v), d1))
      else if rqMethod r = ''PUT'' then
        (case limitRead kvBodyLimit r of (val, broken) \<Rightarrow>
           if broken then (reply 400 BadInput, d)
           else writeReply (dbUpdate (onWrite wd) () (writeTx (txSet key val)) d))
      else if rqMethod r = ''DELETE'' then
        writeReply (dbUpdate (onWrite wd) () (writeTx (txDelete key)) d)
      else (notAllowed ''GET, PUT, DELETE'', d))"


section \<open>Routing\<close>

definition pathSegments :: "string \<Rightarrow> string list" where
  \<comment> \<open>the segments of a rooted path\<close>
  "pathSegments p = splitOn (CHR ''/'') (tl p)"

definition canonicalPath :: "string \<Rightarrow> bool" where
  \<comment> \<open>rooted, without empty segments and without dot segments; a slash at the end is kept\<close>
  "canonicalPath p \<longleftrightarrow>
     p \<noteq> [] \<and> hd p = CHR ''/'' \<and> list_all (\<lambda>s. s \<noteq> ''.'' \<and> s \<noteq> ''..'') (pathSegments p)
     \<and> [] \<notin> set (butlast (pathSegments p))"

datatype route = Healthz | Metrics | Checkpoints | Sql | Kv | Redirect | NotFound

definition route :: "request \<Rightarrow> route" where
  \<comment> \<open>the patterns of \<open>Handler\<close>, matched segment by segment; a path that is not canonical is redirected,
      and so is the pattern with a slash at its end when the slash is missing\<close>
  "route r =
     (let segs = map pathUnescape (pathSegments (rqEscaped r)) in
      if rqMethod r \<noteq> ''CONNECT'' \<and> \<not> canonicalPath (rqEscaped r) then Redirect
      else if segs = [''healthz''] then Healthz
      else if segs = [''v1'', ''metrics''] then Metrics
      else if segs = [''v1'', ''checkpoint''] \<or> segs = [''v1'', ''compact''] then Checkpoints
      else if segs = [''v1'', ''sql''] then Sql
      else if segs = [''v1'', ''kv''] then Redirect
      else if take 2 segs = [''v1'', ''kv''] then Kv
      else NotFound)"

definition serve :: "golib \<Rightarrow> world \<Rightarrow> request \<Rightarrow> sqldb \<Rightarrow> response \<times> sqldb" where
  "serve L wd r d =
     (case route r of
        Healthz \<Rightarrow> (reply 200 (Text ''{\"status\":\"ok\"}''), d)
      | Metrics \<Rightarrow> (reply 200 (MetricsJson (dbMetrics (ckpts wd) d)), d)
      | Checkpoints \<Rightarrow> handleCompact wd r d
      | Sql \<Rightarrow> handleSql L wd r d
      | Kv \<Rightarrow> handleKv wd r d
      | Redirect \<Rightarrow> (reply 301 NoBody, d)
      | NotFound \<Rightarrow> (reply 404 NoBody, d))"


section \<open>Lemmas\<close>

text \<open>The loop over the result rows scans each of them once, in order.\<close>

definition scanRow :: "golib \<Rightarrow> string list \<Rightarrow> sqlval list \<Rightarrow> scanned list res" where
  "scanRow L cols row =
     (if length cols \<noteq> length row then Inl (ErrSQL ''Scan: wrong number of destinations'')
      else eseq (map (assignScan L DestAny) row))"

lemma rowsScan_any:
  assumes "i < length data"
  shows "rowsScan L (map (\<lambda>_. DestAny) cols) \<lparr>rwColumns = cols, rwData = data, rwI = int i, rwClosed = False\<rparr> = scanRow L cols (data ! i)"
proof -
  have "map (\<lambda>(d, v). assignScan L d v) (zip (map (\<lambda>_. DestAny) cols) row) = map (assignScan L DestAny) row"
    if "length cols = length row" for row
    using that by (induction cols row rule: list_induct2) simp_all
  then show ?thesis using assms by (simp add: rowsScan_def scanRow_def Let_def)
qed

lemma scanAll_from:
  "i \<le> length data \<Longrightarrow>
   scanAll L \<lparr>rwColumns = cols, rwData = data, rwI = int i - 1, rwClosed = False\<rparr> = eseq (map (scanRow L cols) (drop i data))"
proof (induction "length data - i" arbitrary: i)
  case 0
  then show ?case by (subst scanAll.simps) (simp add: rowsNext_def)
next
  case (Suc n)
  then have i: "i < length data" "n = length data - Suc i" by simp_all
  let ?r = "\<lparr>rwColumns = cols, rwData = data, rwI = int i, rwClosed = False\<rparr>"
  have "rowsNext \<lparr>rwColumns = cols, rwData = data, rwI = int i - 1, rwClosed = False\<rparr> = (True, ?r)" using i(1) by (simp add: rowsNext_def)
  moreover have "scanAll L ?r = eseq (map (scanRow L cols) (drop (Suc i) data))"
    using Suc.hyps(1) [of "Suc i"] i by simp
  ultimately show ?case
    using rowsScan_any [OF i(1)] i(1) by (subst scanAll.simps) (simp add: Cons_nth_drop_Suc [symmetric])
qed

lemma scanAll_rows:
  "scanAll L \<lparr>rwColumns = cols, rwData = data, rwI = -1, rwClosed = False\<rparr> = eseq (map (scanRow L cols) data)"
  using scanAll_from [of 0 data L cols] by simp

lemma dbView_get:
  "\<not> dbClosed d \<Longrightarrow> \<exists>d'. dbView None (getTx key) d = (None, current d key, d') \<and> quiet d d'"
proof -
  assume cl: "\<not> dbClosed d"
  let ?t = "freshTx False d"
  have v: "txGet key ?t (begun d) = (current d key, (begun d)\<lparr>reads := reads (begun d) + 1\<rparr>)"
    using openTx_get [of False "begun d" ?t key] openTx_quiet [OF begun_quiet, of False d ?t] freshTx_open [of False d] quiet_current [OF begun_quiet, of d]
    by simp
  have "getTx key ?t (begun d) = (None, current d key, ?t, (begun d)\<lparr>reads := reads (begun d) + 1\<rparr>)" using v by (simp add: getTx_def)
  then obtain d' where "dbView None (getTx key) d = (None, current d key, d')" "quiet d d'"
    by (rule dbView_seq [where fn = "getTx key", OF cl _ quiet_trans [OF begun_quiet quiet_fields(1)]])
  then show ?thesis by blast
qed

lemma get_quiet: "quiet d (snd (snd (dbView None (getTx key) d)))"
proof (cases "dbClosed d")
  case True
  then show ?thesis by (simp add: dbView_def dbBegin_def)
next
  case False
  then show ?thesis using dbView_get [OF False, of key] by auto
qed

lemma kv_put:
  assumes "seqOk d" "roomFor 2 d" "\<not> isReservedKey key"
  obtains d' where "dbUpdate WriteOk () (writeTx (txSet key val)) d = (None, (), d')" "current d' = (current d)(key \<mapsto> val)" "seqOk d'"
proof -
  obtain t where t: "txPut key val (freshTx True d) = (None, t)" "openTx True d t" "content (current d) (writes t) = (current d)(key \<mapsto> val)"
    using openTx_put [OF freshTx_open(1) [of True d], of key val "current d"] freshTx_open(2) [of True d] by auto
  have run: "writeTx (txSet key val) (freshTx True d) (begun d) = (None, (), t, begun d)"
    using t(1) assms(3) by (simp add: writeTx_def txSet_def)
  obtain d' where "dbUpdate WriteOk () (writeTx (txSet key val)) d = (commitError None WriteOk t, (), d')"
    "current d' = (if commitError None WriteOk t = None then content (current d) (writes t) else current d)" "seqNext WriteOk d d'"
    by (rule dbUpdate_seq [where fn = "writeTx (txSet key val)", OF assms(1,2) run begun_quiet t(2)])
  then show thesis using that [of d'] t(3) by (simp add: commitError_def seqNext_def)
qed


section \<open>Properties\<close>

text \<open>
  C25. GET is safe: whatever the path, a GET request leaves the stored data, the log, the table
  definitions and the indexes as they are.
\<close>

theorem http_get_safe:
  assumes "rqMethod r = ''GET''" "serve L wd r d = (rs, d')"
  shows "current d' = current d \<and> dbFile d' = dbFile d \<and> version d' = version d
    \<and> tables d' = tables d \<and> indexes d' = indexes d \<and> secIndexes d' = secIndexes d"
proof -
  have "quiet d (snd (serve L wd r d))"
    using assms(1) get_quiet [of d "drop (length ''/v1/kv/'') (rqPath r)"]
    by (auto simp: serve_def handleCompact_def handleSql_def handleKv_def Let_def split: route.split prod.split option.split)
  then have q: "quiet d d'" using assms(2) by simp
  then show ?thesis using quiet_current [OF q] quiet_sql [OF q] by (simp add: quiet_def)
qed

definition sampleRequest :: "string \<Rightarrow> bytes \<Rightarrow> request" where
  "sampleRequest m b = \<lparr>rqMethod = m, rqEscaped = ''/v1/kv/a%20b'', rqBody = b, rqBroken = False\<rparr>"

lemma sample_path: "pathUnescape ''/v1/kv/a%20b'' = ''/v1/kv/a b''"
  by code_simp

lemma sample_request: "route (sampleRequest ''PUT'' b) = Kv" "route (sampleRequest ''GET'' b) = Kv" "rqPath (sampleRequest m b) = ''/v1/kv/a b''"
  by (simp_all add: sampleRequest_def route_def canonicalPath_def pathSegments_def) (simp add: rqPath_def sample_path del: pathUnescape.simps)

lemma sample_store: obtains d where "OpenWithOptions asciiLib [] = Inr d" "seqOk d" "roomFor 2 d"
proof -
  obtain d where d: "OpenWithOptions asciiLib [] = Inr d" using open_exists by blast
  then show thesis using that [of d] open_empty [OF d] by (simp add: sqlOk_def roomFor_def)
qed

theorem http_get_safe_witness:
  "\<exists>rs d d'. serve asciiLib \<lparr>onWrite = WriteOk, onCompact = CompactOk, ckpts = 0\<rparr> (sampleRequest ''GET'' []) d = (rs, d')
     \<and> rs = reply 404 (Text ''not found'') \<and> dbFile d' = dbFile d"
proof -
  obtain d where d: "OpenWithOptions asciiLib [] = Inr d" "seqOk d" by (rule sample_store)
  let ?wd = "\<lparr>onWrite = WriteOk, onCompact = CompactOk, ckpts = 0\<rparr>" and ?r = "sampleRequest ''GET'' []"
  obtain d' where "dbView None (getTx ''a b'') d = (None, None, d')"
    using dbView_get [of d "''a b''"] d open_empty(3) [OF d(1)] by (auto simp: seqOk_def)
  then have s: "serve asciiLib ?wd ?r d = (reply 404 (Text ''not found''), d')"
    using sample_request(2,3) by (simp add: serve_def handleKv_def) (simp add: sampleRequest_def)
  have "rqMethod ?r = ''GET''" by (simp add: sampleRequest_def)
  then show ?thesis using http_get_safe [OF _ s] s by blast
qed

text \<open>
  C24. What PUT stores, GET returns, up to the limit: on an open database, a PUT of a key that is
  not reserved is answered by 204 when the log takes the write, stores the first 16 MiB of the body and
  touches nothing else; the GET of the same path is then answered by 200 with the stored bytes. (A longer
  body is cut without an error.)
\<close>

theorem http_put_get:
  assumes "seqOk d" "roomFor 2 d" "route r = Kv" "rqMethod r = ''PUT''" "\<not> rqBroken r" "onWrite wd = WriteOk"
    and "key = drop (length ''/v1/kv/'') (rqPath r)" "key \<noteq> []" "\<not> isReservedKey key"
  shows "\<exists>d' d''. serve L wd r d = (reply 204 NoBody, d')
    \<and> current d' = (current d)(key \<mapsto> take (16 * 2 ^ 20) (rqBody r))
    \<and> serve L wd (r\<lparr>rqMethod := ''GET''\<rparr>) d' = (reply 200 (Raw (take (16 * 2 ^ 20) (rqBody r))), d'')"
proof -
  let ?val = "take kvBodyLimit (rqBody r)"
  obtain d' where d': "dbUpdate WriteOk () (writeTx (txSet key ?val)) d = (None, (), d')" "current d' = (current d)(key \<mapsto> ?val)" "seqOk d'"
    by (rule kv_put [OF assms(1,2,9)])
  have put: "serve L wd r d = (reply 204 NoBody, d')"
    using assms(3-8) d'(1) by (simp add: serve_def handleKv_def limitRead_def writeReply_def)
  have "\<not> dbClosed d'" using d'(3) by (simp add: seqOk_def)
  then obtain d'' where d'': "dbView None (getTx key) d' = (None, Some ?val, d'')" using dbView_get [of d' key] d'(2) by auto
  have path: "rqPath (r\<lparr>rqMethod := ''GET''\<rparr>) = rqPath r" by (simp add: rqPath_def)
  have "route (r\<lparr>rqMethod := ''GET''\<rparr>) = Kv" using assms(3,4) by (simp add: route_def Let_def)
  then have "serve L wd (r\<lparr>rqMethod := ''GET''\<rparr>) d' = (reply 200 (Raw ?val), d'')"
    using assms(7,8) d'' path by (simp add: serve_def handleKv_def)
  then show ?thesis using put d'(2) by (simp add: kvBodyLimit_def)
qed

theorem http_put_get_witness:
  "\<exists>d d' d''. serve asciiLib \<lparr>onWrite = WriteOk, onCompact = CompactOk, ckpts = 0\<rparr> (sampleRequest ''PUT'' ''v'') d = (reply 204 NoBody, d')
     \<and> serve asciiLib \<lparr>onWrite = WriteOk, onCompact = CompactOk, ckpts = 0\<rparr> (sampleRequest ''GET'' ''v'') d' = (reply 200 (Raw ''v''), d'')"
proof -
  obtain d where d: "OpenWithOptions asciiLib [] = Inr d" "seqOk d" "roomFor 2 d" by (rule sample_store)
  let ?wd = "\<lparr>onWrite = WriteOk, onCompact = CompactOk, ckpts = 0\<rparr>" and ?r = "sampleRequest ''PUT'' ''v''"
  have r: "rqMethod ?r = ''PUT''" "\<not> rqBroken ?r" "onWrite ?wd = WriteOk" "''a b'' = drop (length ''/v1/kv/'') (rqPath ?r)" "''a b'' \<noteq> []"
    "\<not> isReservedKey ''a b''"
    using sample_request(3) by (simp_all add: sampleRequest_def isReservedKey_def reservedPrefix_def)
  have "take (16 * 2 ^ 20) (rqBody ?r) = ''v''" "?r\<lparr>rqMethod := ''GET''\<rparr> = sampleRequest ''GET'' ''v''" by (simp_all add: sampleRequest_def)
  then show ?thesis using http_put_get [OF d(2,3) sample_request(1) r, of asciiLib] by auto
qed

end
