(* ===== verification/Spec2Isabelle.thy ===== *)
theory Spec2Isabelle
  imports Recovery BtreeMap Row SqlTheorems SqlText Checkpoint Server
begin

text \<open>
  RunnelDB: an embedded multi-version key-value store with a write-ahead log, a small SQL layer with
  primary-key and secondary indexes, and an HTTP interface. The program is one Go package; this library
  models its source files under \<open>src/\<close> and proves what makes them correct.

  \<^bold>\<open>The parts and how they interact.\<close> A \<open>DB\<close> (\<open>db.go\<close>) keeps for each key the list of its committed
  versions. A transaction (\<open>tx.go\<close>, \<open>scan.go\<close>) reads a snapshot under its own writes; its commit checks for
  conflicts, appends one record to the log (\<open>wal.go\<close>) and applies it. \<open>Open\<close> replays the log, cuts off a
  torn tail, and rebuilds the SQL state. Compaction (\<open>compact.go\<close>) prunes versions that no open snapshot
  can see and rewrites the log; a worker (\<open>checkpoint.go\<close>) runs it in the background. The SQL layer stores a
  table definition (\<open>catalog.go\<close>), an index definition (\<open>secondary.go\<close>) or a row (\<open>row.go\<close>, packed in a slotted
  page of \<open>page.go\<close>) as one key-value pair under a reserved key (\<open>keys.go\<close>). It keeps the definitions, a
  B+tree from primary keys to row keys (\<open>btree.go\<close>) and the secondary indexes in memory, brings them up to
  date after the transaction of each statement, and rebuilds them when the database is opened. A statement
  is lexed (\<open>sql_lex.go\<close>), parsed (\<open>sql_parse.go\<close> into the types of \<open>sql_ast.go\<close>) and executed
  (\<open>sql_exec.go\<close>); JSON columns hold the binary format of \<open>jsonbin.go\<close>. The handlers of \<open>server.go\<close> call the store
  and the SQL layer.

  \<^bold>\<open>Conventions.\<close> Strings and byte slices are lists of \<^typ>\<open>char\<close>, which has 256 values. Machine integers are
  words, and wrap around. An error is a value of \<open>err\<close>, a fallible function returns \<open>'a res\<close> (\<open>Inl\<close> the error);
  a run-time panic is the error \<open>Panic\<close>, so that theorems say where it cannot happen. Error messages are
  reduced to their fixed part. A struct is a record, an operation is a function that takes the state and
  returns it changed; an operation under the lock \<open>db.mu\<close> is one step, and concurrency is the interleaving of
  such steps. What the operating system answers to a write, a sync, a rename or a close is an argument
  (\<open>writeOutcome\<close>, \<open>compactOutcome\<close>). Go's maps are finite maps; where the program iterates over one, the model
  takes the keys in order, and the theorems concern results that do not depend on it. The Unicode tables beyond
  ASCII and the decimal conversions of floating-point numbers are the fields of the record \<open>golib\<close>, an argument of the
  definitions that use them; the only assumption ever made about it is \<open>libFinite\<close>: a number that
  \<open>strconv.ParseFloat\<close> accepts is finite. \<open>asciiLib\<close> is an instance, used by the witnesses.

  \<^bold>\<open>The storage engine.\<close>
  \<^item> \<open>Prelude\<close>: errors, the error monad, slices, little-endian fields; the locales \<open>prefix_codec\<close> (a sequence
    of self-delimiting items can be read back) and \<open>simulation\<close> (a step simulation lifts to runs).
  \<^item> \<open>Utf8\<close>, \<open>Strconv\<close>, \<open>Json\<close>, \<open>Checksum\<close>: what the program uses of the standard library: UTF-8 decoding, decimal
    integers, the writer and reader of \<open>encoding/json\<close>, CRC-32 and base64, with their round trips.
  \<^item> \<open>Wal\<close> (\<open>wal.go\<close>): header, framing, append, replay, recovery. Replay returns the records that were written;
    a torn or damaged tail is dropped, damage in front of an intact record is reported, and cutting the
    file at \<open>lastGood\<close> is idempotent. Two theorems state where the code does less than its comments promise.
  \<^item> \<open>Keys\<close> (\<open>keys.go\<close>), \<open>Page\<close> (\<open>page.go\<close>), \<open>Row\<close> (\<open>row.go\<close>): key encodings and their inverses, the slotted page, typed
    values; a row comes back from its page or is refused because it is too long, and a damaged directory entry
    makes its slot panic.
  \<^item> \<open>Btree\<close>, \<open>BtreeMap\<close> (\<open>btree.go\<close>): search, insertion with splits, deletion, iteration over the linked leaves;
    the invariant (order, balance, links), and the locale \<open>ordered_index\<close>, an ordered map with a cursor, which
    the tree implements. \<open>Get\<close>, \<open>Put\<close> and \<open>Delete\<close> refine a map, and the height is logarithmic.
  \<^item> \<open>Db\<close> (\<open>db.go\<close>, \<open>tx.go\<close>, \<open>scan.go\<close>, \<open>options.go\<close>), \<open>Compact\<close> (\<open>compact.go\<close>), \<open>Checkpoint\<close> (\<open>checkpoint.go\<close>): the store, its
    transactions, prefix scans, compaction, and the worker beside the clients; a checkpoint that is due is taken.
  \<^item> \<open>Mvcc\<close>: the store with any number of interleaved transactions, compactions and failures refines snapshot
    isolation in its textbook form; reads are repeatable and the first committer wins.
  \<^item> \<open>Recovery\<close>: while appends succeed, the log rebuilds the current map; the first commit whose append fails is
    wholly there or wholly absent after reopening. A commit after a failed append can be lost, which is
    a theorem of its own.

  \<^bold>\<open>The SQL layer.\<close>
  \<^item> \<open>Golib\<close>: runes, case mapping, floats as bits. \<open>Jsonbin\<close> (\<open>jsonbin.go\<close>): the encoder, the reader, paths and
    extraction; what is encoded is read back, as a value and as text, and the numbers that are extracted as INTEGER
    are determined.
  \<^item> \<open>SqlLex\<close>, \<open>SqlParse\<close>, \<open>SqlText\<close> (\<open>sql_lex.go\<close>, \<open>sql_ast.go\<close>, \<open>sql_parse.go\<close>): the parser answers every text, and what
    it returns is well-formed; the locale \<open>grammarItem\<close> is the contract of an item of a list.
  \<^item> \<open>Catalog\<close> (\<open>catalog.go\<close> and the first part of \<open>secondary.go\<close>), \<open>Secondary\<close> (the second part), \<open>SqlExec\<close>
    (\<open>sql_exec.go\<close>): definitions of tables and indexes, composite keys, all statements, the rebuilding of the caches.
  \<^item> \<open>SqlStore\<close>: the store as a client sees it who runs one transaction after another. \<open>SqlIndex\<close>: what it
    means that an index agrees with the stored rows, and that each operation on it keeps that. \<open>SqlQuery\<close>: the
    invariant \<open>sqlInv\<close> and the three ways of finding rows. \<open>SqlRow\<close>: the rows that are written, with
    a description of them that does not follow the loops of the code: \<open>denotes\<close> (the value of a literal in a column),
    \<open>updatedRow\<close> (the last assignment to a column counts) and \<open>insertedRow\<close> (a literal goes to the column it is given
    for). \<open>SqlInv\<close> (INSERT
    and DELETE), \<open>SqlUpdate\<close>, \<open>SqlDdl\<close> (with the locale \<open>documents\<close> for the two catalogs), \<open>SqlRebuild\<close>: what each statement
    does to the content of the store and to the caches. \<open>SqlLayer\<close>: the reachable databases. \<open>SqlDurable\<close>: their
    log rebuilds them, across restarts. \<open>SqlTheorems\<close>: the properties: consistent caches, index use equals
    scanning, the effect of each statement, errors change nothing, everything survives a restart.
  \<^item> \<open>Server\<close> (\<open>server.go\<close>): routing, the handlers, their status codes and limits.

  \<^bold>\<open>Bounds and hypotheses.\<close> Theorems on runs bound the number of steps by \<open>2 ^ 64\<close>, because the version counter
  has 64 bits and wraps. Recursion is structural or has a termination proof; only the JSON reader takes fuel,
  twice the length of the text, which is enough for every printed value (\<open>json_parse_print\<close>) because every second
  call consumes a byte. The theorems on SQL statements ask, in \<open>stmtOk\<close> and \<open>predOk\<close>, for what the code needs
  and does not check: values in indexed columns without NUL bytes, names that survive the catalog's JSON,
  no assignment that reaches the primary key through case folding, and literals in predicates that fit
  their column and are not NULL. Records that reach the log have valid UTF-8 keys and at most 64 MiB
  (\<open>recordOk\<close>), the limit that replay enforces.

  \<^bold>\<open>Not modelled.\<close> \<open>cmd/runneldb/main.go\<close> (flags, logging, the listener). SQL statements that run at the same time: the
  code updates the caches after the commit and outside the transaction, so the theorems on SQL are about
  statements one after another, with compactions between them, while the store itself is verified for
  every interleaving of transactions and compactions. The difference
  between nil and empty slices, memory and time, and the JSON text of HTTP responses, whose encoded value is
  modelled.
\<close>

end
